(* ===== verification/Prelude.thy ===== *)
theory Prelude
  imports Main "HOL-Library.Word"
begin

text \<open>
  Shared vocabulary of the development: the machine integer types of the kernel sources, the
  pieces of the Rust standard library they use (\<open>saturating_add\<close>, \<open>iter().position\<close>,
  little-endian byte conversion), and the generic facts on lists, modular arithmetic and words
  that the component theories rest on.

  Integers. Fields whose width matters are \<open>n word\<close>; \<open>+\<close>, \<open>-\<close> and \<open>*\<close> on them wrap, as in the
  kernel's release profile (neodos-kernel/Cargo.toml sets no overflow checks). A \<open>usize\<close> that only
  counts or indexes in-memory arrays is a \<open>nat\<close>.
\<close>

unbundle bit_operations_syntax

type_synonym u8 = "8 word"
type_synonym u16 = "16 word"
type_synonym u32 = "32 word"
type_synonym u64 = "64 word"
type_synonym bytes = "u8 list"

named_theorems inv_defs "unfolding of the components' invariants"

section \<open>Rust integer helpers\<close>

definition saturating_add :: "'a::len word \<Rightarrow> 'a word \<Rightarrow> 'a word" where
  "saturating_add a b = (if unat a + unat b < 2 ^ LENGTH('a) then a + b else - 1)"

definition saturating_sub :: "'a::len word \<Rightarrow> 'a word \<Rightarrow> 'a word" where
  "saturating_sub a b = (if b \<le> a then a - b else 0)"

definition checked_add :: "'a::len word \<Rightarrow> 'a word \<Rightarrow> 'a word option" where
  "checked_add a b = (if unat a + unat b < 2 ^ LENGTH('a) then Some (a + b) else None)"

lemma unat_saturating_add:
  "unat (saturating_add a (b :: 'a::len word)) = min (unat a + unat b) (2 ^ LENGTH('a) - 1)"
proof (cases "unat a + unat b < 2 ^ LENGTH('a)")
  case True
  then have "unat a + unat b \<le> 2 ^ LENGTH('a) - 1" by linarith
  with True show ?thesis by (simp add: saturating_add_def unat_word_ariths)
next
  case False
  moreover have "unat (- 1 :: 'a word) = 2 ^ LENGTH('a) - 1"
    by (simp add: unat_eq_nat_uint uint_word_ariths zmod_minus1 nat_diff_distrib nat_power_eq)
  ultimately have "unat (saturating_add a b) = 2 ^ LENGTH('a) - 1"
    by (simp add: saturating_add_def)
  moreover have "2 ^ LENGTH('a) - 1 \<le> unat a + unat b" using False by linarith
  ultimately show ?thesis by simp
qed

lemma unat_saturating_sub:
  "unat (saturating_sub a (b :: 'a::len word)) = unat a - unat b"
  by (auto simp: saturating_sub_def unat_sub word_le_nat_alt)

lemma unat_bound: "unat (w :: 'a::len word) < 2 ^ LENGTH('a)"
  by (rule unsigned_less)

lemma unat_add_no_wrap:
  "unat a + unat b < 2 ^ LENGTH('a) \<Longrightarrow> unat (a + b :: 'a::len word) = unat a + unat b"
  by (simp add: unat_word_ariths)

text \<open>\<open>trailing_zeros\<close> of a machine word, its width for zero.\<close>

definition trailing_zeros :: "'a::len word \<Rightarrow> nat" where
  "trailing_zeros w = length (takeWhile (\<lambda>i. \<not> bit w i) [0..<LENGTH('a)])"

lemma trailing_zeros_eqI:
  assumes "bit (w :: 'a::len word) p" and "\<forall>i<p. \<not> bit w i"
  shows "trailing_zeros w = p"
proof -
  have p: "p < LENGTH('a)" using assms(1) by (rule bit_imp_le_length)
  then have "[0..<LENGTH('a)] = [0..<p] @ p # [Suc p..<LENGTH('a)]"
    by (metis le_add_diff_inverse less_imp_le_nat upt_add_eq_append upt_conv_Cons zero_le)
  moreover have "takeWhile (\<lambda>i. \<not> bit w i) ([0..<p] @ p # [Suc p..<LENGTH('a)]) = [0..<p]"
    using assms by (subst takeWhile_append2) auto
  ultimately show ?thesis by (simp add: trailing_zeros_def)
qed

lemma unat_add_mod:
  assumes "d dvd 2 ^ LENGTH('a)"
  shows "unat (a + b :: 'a::len word) mod d = (unat a + unat b) mod d"
  using assms by (simp add: unat_word_ariths mod_mod_cancel)

lemma unat_Suc_small: "unat (c :: 'a::len word) < 2 ^ LENGTH('a) - 1 \<Longrightarrow> unat (c + 1) = Suc (unat c)"
  by (subst unat_add_no_wrap) auto

lemma unat_pred_pos: "c \<noteq> (0 :: 'a::len word) \<Longrightarrow> unat c = Suc (unat (c - 1))"
  by (simp add: unat_minus_one unat_gt_0)

section \<open>Searching a list\<close>

text \<open>\<open>iter().position(p)\<close>: the first index that satisfies the predicate.\<close>

fun position :: "('a \<Rightarrow> bool) \<Rightarrow> 'a list \<Rightarrow> nat option" where
  "position P [] = None"
| "position P (x # xs) = (if P x then Some 0 else map_option Suc (position P xs))"

lemma position_None_iff: "position P xs = None \<longleftrightarrow> (\<forall>x\<in>set xs. \<not> P x)"
  by (induction xs) auto

lemma position_Some_iff:
  "position P xs = Some i \<longleftrightarrow> i < length xs \<and> P (xs ! i) \<and> (\<forall>j<i. \<not> P (xs ! j))"
proof (induction xs arbitrary: i)
  case Nil
  then show ?case by simp
next
  case (Cons x xs)
  show ?case
  proof (cases i)
    case 0
    then show ?thesis by auto
  next
    case (Suc k)
    then show ?thesis
      by (auto simp: Cons.IH less_Suc_eq_0_disj)
  qed
qed

lemma position_SomeD:
  "position P xs = Some i \<Longrightarrow> i < length xs \<and> P (xs ! i)"
  by (simp add: position_Some_iff)

lemma position_eq_length_takeWhile:
  "position P xs = Some i \<Longrightarrow> i = length (takeWhile (\<lambda>x. \<not> P x) xs)"
  by (induction xs arbitrary: i) auto

section \<open>Counting and updating\<close>

lemma length_filter_update:
  "i < length xs \<Longrightarrow>
   length (filter P (xs[i := x])) + (if P (xs ! i) then 1 else 0)
     = length (filter P xs) + (if P x then 1 else 0)"
proof (induction xs arbitrary: i)
  case Nil
  then show ?case by simp
next
  case (Cons a xs)
  show ?case
  proof (cases i)
    case 0
    then show ?thesis by simp
  next
    case (Suc j)
    then show ?thesis using Cons.IH [of j] Cons.prems by simp
  qed
qed

lemma length_filter_mono:
  "(\<And>x. P x \<Longrightarrow> Q x) \<Longrightarrow> length (filter P xs) \<le> length (filter Q xs)"
  by (induction xs) (auto simp: le_SucI)

lemma filter_shorter_ex:
  "length (filter P xs) < length xs \<Longrightarrow> \<exists>p<length xs. \<not> P (xs ! p)"
proof (rule ccontr)
  assume less: "length (filter P xs) < length xs" and "\<not> (\<exists>p<length xs. \<not> P (xs ! p))"
  then have "filter P xs = xs" by (simp add: filter_id_conv all_set_conv_all_nth)
  with less show False by simp
qed

lemma map_of_zip_update:
  assumes "i < length ks" and "length vs = length ks"
    and "\<forall>q<length ks. ks ! q = k \<longrightarrow> q = i"
  shows "map_of (zip (ks[i := k]) (vs[i := v])) k = Some v"
proof -
  have "map_of (zip (ks[i := k]) (vs[i := v])) k = Some (vs[i := v] ! i)"
    using assms
  proof (induction ks arbitrary: i vs)
    case Nil
    then show ?case by simp
  next
    case (Cons a ks)
    then obtain w ws where vs: "vs = w # ws" by (cases vs) auto
    show ?case
    proof (cases i)
      case 0
      then show ?thesis using vs by simp
    next
      case (Suc i')
      have "a \<noteq> k" using Cons.prems(3) [rule_format, of 0] Suc by auto
      moreover have "\<forall>q<length ks. ks ! q = k \<longrightarrow> q = i'" using Cons.prems(3) Suc by auto
      moreover have "i' < length ks" "length ws = length ks" using Cons.prems vs Suc by auto
      ultimately show ?thesis using Cons.IH [of i' ws] vs Suc by simp
    qed
  qed
  then show ?thesis using assms by simp
qed

lemma map_of_zip_unique:
  assumes "i < length ks" and "length vs = length ks" and "\<forall>q<length ks. ks ! q = ks ! i \<longrightarrow> q = i"
  shows "map_of (zip ks vs) (ks ! i) = Some (vs ! i)"
  using map_of_zip_update [OF assms, of "vs ! i"] by simp

lemma distinct_filter_nth:
  "\<forall>p<length xs. \<forall>q<length xs. P (xs ! p) \<longrightarrow> xs ! p = xs ! q \<longrightarrow> p = q \<Longrightarrow> distinct (filter P xs)"
proof (induction xs)
  case Nil
  then show ?case by simp
next
  case (Cons a xs)
  have "\<forall>p<length xs. \<forall>q<length xs. P (xs ! p) \<longrightarrow> xs ! p = xs ! q \<longrightarrow> p = q"
  proof (intro allI impI)
    fix p q assume "p < length xs" "q < length xs" "P (xs ! p)" "xs ! p = xs ! q"
    then show "p = q" using Cons.prems [rule_format, of "Suc p" "Suc q"] by simp
  qed
  moreover have "a \<notin> set xs" if "P a"
  proof
    assume "a \<in> set xs"
    then obtain q where "q < length xs" "xs ! q = a" by (auto simp: in_set_conv_nth)
    then show False using Cons.prems [rule_format, of 0 "Suc q"] that by simp
  qed
  ultimately show ?case using Cons.IH by simp
qed

lemma map_of_zip_update_other:
  "k \<noteq> k' \<Longrightarrow> k \<noteq> ks ! i \<Longrightarrow> length vs = length ks \<Longrightarrow>
   map_of (zip (ks[i := k']) (vs[i := v])) k = map_of (zip ks vs) k"
proof (induction ks arbitrary: i vs)
  case Nil
  then show ?case by simp
next
  case (Cons a ks)
  then show ?case by (cases vs; cases i) auto
qed

section \<open>Probing modulo a table size\<close>

lemma mod_reach:
  assumes "s < n" and "p < (n::nat)"
  shows "\<exists>d<n. (s + d) mod n = p"
proof (intro exI conjI)
  show "(p + n - s) mod n < n" using assms by simp
  have "(s + (p + n - s) mod n) mod n = (s + (p + n - s)) mod n"
    by (simp add: mod_add_right_eq)
  also have "\<dots> = p" using assms by simp
  finally show "(s + (p + n - s) mod n) mod n = p" .
qed

lemma mod_probe_inj:
  assumes "(s + d) mod n = (s + e) mod (n::nat)" and "d < n" and "e < n"
  shows "d = e"
proof -
  have le: "x = y" if "x \<le> y" "y < n" "(s + x) mod n = (s + y) mod n" for x y
  proof -
    have "n dvd (s + y) - (s + x)"
      using that mod_eq_dvd_iff_nat [of "s + x" "s + y" n] by simp
    then show ?thesis using that by (auto dest: dvd_imp_le)
  qed
  show ?thesis using le [of d e] le [of e d] assms by (cases "d \<le> e") auto
qed

lemma least_probe:
  assumes "P p" and "p < n" and "s < (n::nat)"
  obtains d where "d < n" and "P ((s + d) mod n)" and "\<forall>j<d. \<not> P ((s + j) mod n)"
proof -
  from mod_reach [OF assms(3,2)] obtain d0 where d0: "d0 < n" "(s + d0) mod n = p" by blast
  define d where "d = (LEAST d. P ((s + d) mod n))"
  have "P ((s + d0) mod n)" using d0 assms(1) by simp
  then have "P ((s + d) mod n)" and "d \<le> d0"
    unfolding d_def by (auto intro: LeastI Least_le)
  moreover have "\<forall>j<d. \<not> P ((s + j) mod n)"
    unfolding d_def by (auto dest: not_less_Least)
  ultimately show ?thesis using that d0 by (meson le_less_trans)
qed

lemma probe_run:
  assumes step: "\<And>i. i < n \<Longrightarrow> \<not> stop i \<Longrightarrow> f i = f ((i + 1) mod n)"
    and "s < (n::nat)" and "\<forall>j<d. \<not> stop ((s + j) mod n)"
  shows "f s = f ((s + d) mod n)"
  using assms(3)
proof (induction d)
  case 0
  then show ?case using assms(2) by simp
next
  case (Suc d)
  have "f s = f ((s + d) mod n)" using Suc by simp
  also have "\<dots> = f (((s + d) mod n + 1) mod n)"
    using Suc.prems assms(2) by (intro step) auto
  finally show ?case by (simp add: mod_Suc_eq)
qed

lemma probe_run_mod:
  assumes step: "\<And>i. i < n \<Longrightarrow> \<not> stop i \<Longrightarrow> f i = f ((i + 1) mod n)"
    and "0 < (n::nat)" and "\<forall>j<d. \<not> stop ((h + j) mod n)"
  shows "f (h mod n) = f ((h + d) mod n)"
  using probe_run [of n stop f "h mod n" d, OF step] assms(2,3) by (simp add: mod_add_left_eq)

lemma and_mask_eq_mod: "n = 2 ^ b \<Longrightarrow> x AND (n - 1) = x mod (n::nat)"
  by (metis mask_eq_exp_minus_1 take_bit_eq_mask take_bit_eq_mod)

end
