(* ===== verification/Interfaces.thy ===== *)
theory Interfaces
  imports Prelude "HOL-Library.Multiset"
begin

text \<open>
  The contracts between the components, one locale each. A locale fixes the operations a client
  calls and assumes the laws its provider promises; the lemmas a client needs are proved inside it,
  once. Each provider theory interprets the locale on its own definitions.

  An operation that may fail to return (a loop that may spin, an index that may be out of bounds)
  has an option result, and the laws promise that it does return.
\<close>

section \<open>Index from keys to values\<close>

datatype ('k, 'v) index_op = IndexInsert 'k 'v | IndexRemove 'k

fun index_run ::
  "('t \<Rightarrow> 'k \<Rightarrow> 'v \<Rightarrow> 't option) \<Rightarrow> ('t \<Rightarrow> 'k \<Rightarrow> 't option) \<Rightarrow> ('k, 'v) index_op list \<Rightarrow> 't \<Rightarrow> 't option"
where
  "index_run ins rem [] t = Some t"
| "index_run ins rem (IndexInsert k v # ops) t = Option.bind (ins t k v) (index_run ins rem ops)"
| "index_run ins rem (IndexRemove k # ops) t = Option.bind (rem t k) (index_run ins rem ops)"

text \<open>What a sequence of operations means for the map, and when each insertion is of a new key.\<close>

fun index_spec :: "('k, 'v) index_op list \<Rightarrow> ('k \<Rightarrow> 'v option) \<Rightarrow> 'k \<Rightarrow> 'v option" where
  "index_spec [] m = m"
| "index_spec (IndexInsert k v # ops) m = index_spec ops (m(k \<mapsto> v))"
| "index_spec (IndexRemove k # ops) m = index_spec ops (m(k := None))"

fun index_ops_ok :: "('k \<Rightarrow> bool) \<Rightarrow> ('k, 'v) index_op list \<Rightarrow> ('k \<Rightarrow> 'v option) \<Rightarrow> bool" where
  "index_ops_ok valid [] m = True"
| "index_ops_ok valid (IndexInsert k v # ops) m
     = (valid k \<and> m k = None \<and> index_ops_ok valid ops (m(k \<mapsto> v)))"
| "index_ops_ok valid (IndexRemove k # ops) m
     = (valid k \<and> index_ops_ok valid ops (m(k := None)))"

locale key_index =
  fixes inv :: "'t \<Rightarrow> bool"
    and abs :: "'t \<Rightarrow> 'k \<Rightarrow> 'v option"
    and valid :: "'k \<Rightarrow> bool"
    and get :: "'t \<Rightarrow> 'k \<Rightarrow> 'v option option"
    and ins :: "'t \<Rightarrow> 'k \<Rightarrow> 'v \<Rightarrow> 't option"
    and rem :: "'t \<Rightarrow> 'k \<Rightarrow> 't option"
  assumes get_abs: "inv t \<Longrightarrow> valid k \<Longrightarrow> get t k = Some (abs t k)"
    and ins_abs: "inv t \<Longrightarrow> valid k \<Longrightarrow> abs t k = None \<Longrightarrow>
      \<exists>t'. ins t k v = Some t' \<and> inv t' \<and> abs t' = (abs t)(k \<mapsto> v)"
    and rem_abs: "inv t \<Longrightarrow> valid k \<Longrightarrow>
      \<exists>t'. rem t k = Some t' \<and> inv t' \<and> abs t' = (abs t)(k := None)"
begin

lemma ins_obtain:
  assumes "inv t" and "valid k" and "abs t k = None"
  obtains t' where "ins t k v = Some t'" and "inv t'" and "abs t' = (abs t)(k \<mapsto> v)"
  using ins_abs [OF assms] by blast

lemma rem_obtain:
  assumes "inv t" and "valid k"
  obtains t' where "rem t k = Some t'" and "inv t'" and "abs t' = (abs t)(k := None)"
  using rem_abs [OF assms] by blast

lemma run_abs:
  assumes "inv t" and "index_ops_ok valid ops (abs t)"
  shows "\<exists>t'. index_run ins rem ops t = Some t' \<and> inv t' \<and> abs t' = index_spec ops (abs t)"
  using assms
proof (induction ops arbitrary: t)
  case Nil
  then show ?case by simp
next
  case (Cons op ops)
  show ?case
  proof (cases op)
    case (IndexInsert k v)
    then obtain t' where "ins t k v = Some t'" "inv t'" "abs t' = (abs t)(k \<mapsto> v)"
      using Cons.prems by (auto elim: ins_obtain)
    then show ?thesis using Cons.IH [of t'] Cons.prems IndexInsert by (auto simp: fun_upd_def)
  next
    case (IndexRemove k)
    then obtain t' where "rem t k = Some t'" "inv t'" "abs t' = (abs t)(k := None)"
      using Cons.prems by (auto elim: rem_obtain)
    then show ?thesis using Cons.IH [of t'] Cons.prems IndexRemove by (auto simp: fun_upd_def)
  qed
qed

lemma run_get:
  assumes "inv t" and "index_ops_ok valid ops (abs t)" and "valid k"
  shows "Option.bind (index_run ins rem ops t) (\<lambda>t'. get t' k) = Some (index_spec ops (abs t) k)"
  using run_abs [OF assms(1,2)] get_abs [OF _ assms(3)] by auto

end

section \<open>Bounded queue\<close>

datatype 'a fifo_op = FifoPush 'a | FifoPop

datatype 'a fifo_res = Pushed bool | Popped "'a option"

text \<open>Running a sequence of operations on a queue, with everything the caller sees.\<close>

fun fifo_run ::
  "('q \<Rightarrow> 'a \<Rightarrow> bool \<times> 'q) \<Rightarrow> ('q \<Rightarrow> 'a option \<times> 'q) \<Rightarrow> 'a fifo_op list \<Rightarrow> 'q \<Rightarrow> 'a fifo_res list \<times> 'q"
where
  "fifo_run push pop [] q = ([], q)"
| "fifo_run push pop (FifoPush x # ops) q =
    (let (ok, q1) = push q x; (rs, q2) = fifo_run push pop ops q1 in (Pushed ok # rs, q2))"
| "fifo_run push pop (FifoPop # ops) q =
    (let (r, q1) = pop q; (rs, q2) = fifo_run push pop ops q1 in (Popped r # rs, q2))"

text \<open>The reference: a list that accepts at most \<open>cap\<close> elements.\<close>

definition list_push :: "nat \<Rightarrow> 'a list \<Rightarrow> 'a \<Rightarrow> bool \<times> 'a list" where
  "list_push cap xs x = (if length xs < cap then (True, xs @ [x]) else (False, xs))"

fun list_pop :: "'a list \<Rightarrow> 'a option \<times> 'a list" where
  "list_pop [] = (None, [])"
| "list_pop (x # xs) = (Some x, xs)"

locale bounded_fifo =
  fixes inv :: "'q \<Rightarrow> bool"
    and abs :: "'q \<Rightarrow> 'a list"
    and cap :: nat
    and push :: "'q \<Rightarrow> 'a \<Rightarrow> bool \<times> 'q"
    and pop :: "'q \<Rightarrow> 'a option \<times> 'q"
  assumes push_inv: "inv q \<Longrightarrow> inv (snd (push q x))"
    and pop_inv: "inv q \<Longrightarrow> inv (snd (pop q))"
    and push_abs: "inv q \<Longrightarrow> map_prod id abs (push q x) = list_push cap (abs q) x"
    and pop_abs: "inv q \<Longrightarrow> map_prod id abs (pop q) = list_pop (abs q)"
    and abs_cap: "inv q \<Longrightarrow> length (abs q) \<le> cap"
begin

lemma pop_None: "inv q \<Longrightarrow> fst (pop q) = None \<longleftrightarrow> abs q = []"
  using pop_abs [of q] by (cases "pop q"; cases "abs q") auto

lemma pop_Some:
  "inv q \<Longrightarrow> pop q = (Some x, q') \<Longrightarrow> abs q = x # abs q' \<and> inv q'"
  using pop_abs [of q] pop_inv [of q] by (cases "abs q") auto

lemma push_True:
  "inv q \<Longrightarrow> push q x = (True, q') \<Longrightarrow> abs q' = abs q @ [x] \<and> inv q'"
  using push_abs [of q x] push_inv [of q x] by (auto simp: list_push_def split: if_splits)

lemma push_False:
  "inv q \<Longrightarrow> push q x = (False, q') \<Longrightarrow> abs q' = abs q \<and> length (abs q) = cap \<and> inv q'"
  using push_abs [of q x] push_inv [of q x] abs_cap [of q]
  by (auto simp: list_push_def split: if_splits)

lemma run_inv: "inv q \<Longrightarrow> inv (snd (fifo_run push pop ops q))"
proof (induction ops arbitrary: q)
  case Nil
  then show ?case by simp
next
  case (Cons op ops)
  then show ?case
    using push_inv [OF Cons.prems] pop_inv [OF Cons.prems] Cons.IH
    by (cases op) (simp_all add: case_prod_beta Let_def)
qed

lemma run_abs:
  "inv q \<Longrightarrow> map_prod id abs (fifo_run push pop ops q) = fifo_run (list_push cap) list_pop ops (abs q)"
proof (induction ops arbitrary: q)
  case Nil
  then show ?case by simp
next
  case (Cons op ops)
  show ?case
  proof (cases op)
    case (FifoPush x)
    obtain ok q1 where q1: "push q x = (ok, q1)" by fastforce
    then have "inv q1" "list_push cap (abs q) x = (ok, abs q1)"
      using push_inv [OF Cons.prems, of x] push_abs [OF Cons.prems, of x] by auto
    then show ?thesis using Cons.IH [of q1, symmetric] FifoPush q1
      by (cases "fifo_run push pop ops q1") (simp add: Let_def)
  next
    case FifoPop
    obtain r q1 where q1: "pop q = (r, q1)" by fastforce
    then have "inv q1" "list_pop (abs q) = (r, abs q1)"
      using pop_inv [OF Cons.prems] pop_abs [OF Cons.prems] by auto
    then show ?thesis using Cons.IH [of q1, symmetric] FifoPop q1
      by (cases "fifo_run push pop ops q1") (simp add: Let_def)
  qed
qed

end

section \<open>Components that implement a specification operation by operation\<close>

text \<open>
  \<open>run_ops\<close> performs a sequence of operations and collects their results. A component refines its
  specification when every operation keeps the invariant, returns the specified result and commutes
  with the abstraction; then whole runs agree.
\<close>

fun run_ops :: "('o \<Rightarrow> 's \<Rightarrow> 'r \<times> 's) \<Rightarrow> 'o list \<Rightarrow> 's \<Rightarrow> 'r list \<times> 's" where
  "run_ops step [] s = ([], s)"
| "run_ops step (op # ops) s =
    (let (r, s') = step op s; (rs, s'') = run_ops step ops s' in (r # rs, s''))"

locale op_refinement =
  fixes inv :: "'s \<Rightarrow> bool" and absf :: "'s \<Rightarrow> 'a"
    and step :: "'o \<Rightarrow> 's \<Rightarrow> 'r \<times> 's" and spec :: "'o \<Rightarrow> 'a \<Rightarrow> 'r \<times> 'a"
  assumes step_inv: "inv s \<Longrightarrow> inv (snd (step op s))"
    and step_abs: "inv s \<Longrightarrow> map_prod id absf (step op s) = spec op (absf s)"
begin

lemma run_refines:
  "inv s \<Longrightarrow> inv (snd (run_ops step ops s)) \<and> map_prod id absf (run_ops step ops s) = run_ops spec ops (absf s)"
proof (induction ops arbitrary: s)
  case Nil
  then show ?case by simp
next
  case (Cons op ops)
  obtain r s1 where s1: "step op s = (r, s1)" by fastforce
  then have "inv s1" "spec op (absf s) = (r, absf s1)"
    using step_inv [OF Cons.prems, of op] step_abs [OF Cons.prems, of op] by auto
  then show ?case using Cons.IH [of s1] s1
    by (cases "run_ops step ops s1"; cases "run_ops spec ops (absf s1)") simp
qed

lemma run_results: "inv s \<Longrightarrow> fst (run_ops step ops s) = fst (run_ops spec ops (absf s))"
  using run_refines [of s ops] by (metis fst_map_prod id_apply)

end

text \<open>
  The same for operations that may fail to return, or that are only specified for a bounded number of
  steps (a counter that must not wrap): the invariant carries the number of steps still covered.
\<close>

fun run_opt :: "('o \<Rightarrow> 's \<Rightarrow> ('r \<times> 's) option) \<Rightarrow> 'o list \<Rightarrow> 's \<Rightarrow> ('r list \<times> 's) option" where
  "run_opt step [] s = Some ([], s)"
| "run_opt step (op # ops) s = Option.bind (step op s) (\<lambda>(r, s').
    map_option (\<lambda>(rs, s''). (r # rs, s'')) (run_opt step ops s'))"

locale bounded_refinement =
  fixes inv :: "nat \<Rightarrow> 's \<Rightarrow> bool" and absf :: "'s \<Rightarrow> 'a" and covered :: "'o \<Rightarrow> bool"
    and step :: "'o \<Rightarrow> 's \<Rightarrow> ('r \<times> 's) option" and spec :: "'o \<Rightarrow> 'a \<Rightarrow> 'r \<times> 'a"
  assumes step_spec: "inv (Suc n) s \<Longrightarrow> covered op \<Longrightarrow> \<exists>r s'. step op s = Some (r, s') \<and> inv n s' \<and> spec op (absf s) = (r, absf s')"
begin

lemma run_opt_refines:
  "inv (length ops + n) s \<Longrightarrow> list_all covered ops \<Longrightarrow> \<exists>rs s'. run_opt step ops s = Some (rs, s') \<and> inv n s' \<and> run_ops spec ops (absf s) = (rs, absf s')"
proof (induction ops arbitrary: s)
  case (Cons op ops)
  then obtain r s1 where s1: "step op s = Some (r, s1)" "inv (length ops + n) s1" "spec op (absf s) = (r, absf s1)"
    using step_spec [of "length ops + n" s op] by auto
  then obtain rs s' where "run_opt step ops s1 = Some (rs, s')" "inv n s'" "run_ops spec ops (absf s1) = (rs, absf s')"
    using Cons.IH [of s1] Cons.prems(2) by auto
  then show ?case using s1 by auto
qed simp

end

lemma map_prod_swap: "map_prod id f (map_prod g id r) = map_prod g id (map_prod id f r)"
  by (cases r) simp

section \<open>Reading a ring buffer as a list\<close>

definition ring_list :: "'a list \<Rightarrow> nat \<Rightarrow> nat \<Rightarrow> 'a list" where
  "ring_list es h n = map (\<lambda>i. es ! ((h + i) mod length es)) [0..<n]"

lemma length_ring_list [simp]: "length (ring_list es h n) = n"
  by (simp add: ring_list_def)

lemma ring_list_0 [simp]: "ring_list es h 0 = []"
  by (simp add: ring_list_def)

lemma ring_list_Nil_iff [simp]: "ring_list es h n = [] \<longleftrightarrow> n = 0"
  by (simp add: ring_list_def)

lemma ring_list_mod: "ring_list es (h mod length es) n = ring_list es h n"
  by (simp add: ring_list_def mod_add_left_eq)

lemma ring_list_cong: "h mod length es = h' mod length es \<Longrightarrow> ring_list es h n = ring_list es h' n"
  by (metis ring_list_mod)

lemma ring_list_pop: "ring_list es h (Suc n) = es ! (h mod length es) # ring_list es (Suc h) n"
  by (simp add: ring_list_def upt_conv_Cons map_Suc_upt [symmetric] del: upt_Suc map_Suc_upt)

lemma ring_list_push:
  assumes "n < length es"
  shows "ring_list (es[(h + n) mod length es := x]) h (Suc n) = ring_list es h n @ [x]"
proof -
  have "(h + i) mod length es \<noteq> (h + n) mod length es" if "i < n" for i
    using mod_probe_inj [of h i "length es" n] that assms by auto
  then have "es[(h + n) mod length es := x] ! ((h + i) mod length es) = es ! ((h + i) mod length es)"
    if "i < n" for i
    using that by (metis nth_list_update_neq)
  moreover have "(h + n) mod length es < length es" using assms by (intro mod_less_divisor) linarith
  ultimately show ?thesis by (simp add: ring_list_def)
qed

text \<open>
  A ring with head and tail indices keeps one slot free; \<open>ring_count\<close> is the number of elements
  between them.
\<close>

definition ring_count :: "nat \<Rightarrow> nat \<Rightarrow> nat \<Rightarrow> nat" where
  "ring_count d h t = (if h \<le> t then t - h else d - h + t)"

lemma ring_count_less: "h < d \<Longrightarrow> t < d \<Longrightarrow> ring_count d h t < d"
  by (auto simp: ring_count_def)

lemma ring_count_same [simp]: "ring_count d h h = 0"
  by (simp add: ring_count_def)

lemma ring_full_iff:
  "h < d \<Longrightarrow> t < d \<Longrightarrow> Suc t mod d = h \<longleftrightarrow> ring_count d h t = d - 1"
  by (auto simp: ring_count_def mod_Suc)

lemma ring_count_tail: "h < d \<Longrightarrow> t < d \<Longrightarrow> (h + ring_count d h t) mod d = t"
  by (auto simp: ring_count_def)

lemma ring_count_push:
  "h < d \<Longrightarrow> t < d \<Longrightarrow> Suc t mod d \<noteq> h \<Longrightarrow> ring_count d h (Suc t mod d) = Suc (ring_count d h t)"
  by (auto simp: ring_count_def mod_Suc)

lemma ring_count_pop:
  "h < d \<Longrightarrow> t < d \<Longrightarrow> h \<noteq> t \<Longrightarrow> ring_count d h t = Suc (ring_count d (Suc h mod d) t)"
  by (auto simp: ring_count_def mod_Suc)

lemma ring_push_list:
  assumes "h < length es" and "t < length es" and "Suc t mod length es \<noteq> h"
  shows "ring_list (es[t := x]) h (ring_count (length es) h (Suc t mod length es))
    = ring_list es h (ring_count (length es) h t) @ [x]"
  using ring_list_push [of "ring_count (length es) h t" es h x] assms
  by (simp add: ring_count_push ring_count_tail ring_count_less)

lemma ring_pop_list:
  assumes "h < length es" and "t < length es" and "h \<noteq> t"
  shows "ring_list es h (ring_count (length es) h t)
    = es ! h # ring_list es (Suc h mod length es) (ring_count (length es) (Suc h mod length es) t)"
  using assms by (simp add: ring_count_pop ring_list_pop ring_list_mod)

text \<open>The push and pop of such a ring, as a list bounded by one less than its size.\<close>

lemma ring_push_abs:
  assumes "h < length es" and "t < length es"
  shows "(if Suc t mod length es = h then (False, ring_list es h (ring_count (length es) h t))
      else (True, ring_list (es[t := x]) h (ring_count (length es) h (Suc t mod length es))))
    = list_push (length es - 1) (ring_list es h (ring_count (length es) h t)) x"
  using assms ring_push_list [OF assms, of x] ring_full_iff [OF assms] ring_count_less [OF assms]
  by (auto simp: list_push_def)

lemma ring_pop_abs:
  assumes "h < length es" and "t < length es"
  shows "(if h = t then (None, [])
      else (Some (es ! h), ring_list es (Suc h mod length es) (ring_count (length es) (Suc h mod length es) t)))
    = list_pop (ring_list es h (ring_count (length es) h t))"
  using assms ring_pop_list [OF assms] by simp


section \<open>Allocation of numbered units\<close>

text \<open>
  An allocator of blocks of frames or disk blocks. \<open>free_units\<close> is the multiset of units it may still
  hand out; \<open>units r a\<close> are the units of the block at \<open>a\<close> that answers request \<open>r\<close>. The laws say that
  a block is taken out of the free units, and that giving it back adds at most its units.
\<close>

datatype ('r, 'a) alloc_op = AllocOp 'r | FreeOp nat

text \<open>A client that requests blocks and returns blocks it holds, by position.\<close>

fun alloc_run ::
  "('s \<Rightarrow> 'r \<Rightarrow> 'a option \<times> 's) \<Rightarrow> ('s \<Rightarrow> 'r \<Rightarrow> 'a \<Rightarrow> 's) \<Rightarrow> ('r, 'a) alloc_op list \<Rightarrow>
   's \<times> ('r \<times> 'a) list \<Rightarrow> 's \<times> ('r \<times> 'a) list"
where
  "alloc_run alloc fr [] st = st"
| "alloc_run alloc fr (AllocOp r # ops) (s, held) =
    (case alloc s r of
       (Some a, s') \<Rightarrow> alloc_run alloc fr ops (s', held @ [(r, a)])
     | (None, s') \<Rightarrow> alloc_run alloc fr ops (s', held))"
| "alloc_run alloc fr (FreeOp i # ops) (s, held) =
    (if i < length held
     then alloc_run alloc fr ops
       (fr s (fst (held ! i)) (snd (held ! i)), take i held @ drop (Suc i) held)
     else alloc_run alloc fr ops (s, held))"

definition held_units :: "('r \<Rightarrow> 'a \<Rightarrow> 'u multiset) \<Rightarrow> ('r \<times> 'a) list \<Rightarrow> 'u multiset" where
  "held_units units held = (\<Sum>(r, a) \<in># mset held. units r a)"

locale unit_alloc =
  fixes inv :: "'s \<Rightarrow> bool"
    and free_units :: "'s \<Rightarrow> 'u multiset"
    and units :: "'r \<Rightarrow> 'a \<Rightarrow> 'u multiset"
    and valid :: "'r \<Rightarrow> 'a \<Rightarrow> bool"
    and alloc :: "'s \<Rightarrow> 'r \<Rightarrow> 'a option \<times> 's"
    and fr :: "'s \<Rightarrow> 'r \<Rightarrow> 'a \<Rightarrow> 's"
  assumes alloc_Some: "inv s \<Longrightarrow> alloc s r = (Some a, s') \<Longrightarrow>
      inv s' \<and> valid r a \<and> free_units s' + units r a \<subseteq># free_units s"
    and alloc_None: "inv s \<Longrightarrow> alloc s r = (None, s') \<Longrightarrow> inv s' \<and> free_units s' \<subseteq># free_units s"
    and fr_laws: "inv s \<Longrightarrow> valid r a \<Longrightarrow> (\<forall>u. count (free_units s + units r a) u \<le> 1) \<Longrightarrow>
      inv (fr s r a) \<and> free_units (fr s r a) \<subseteq># free_units s + units r a"
begin

definition safe_state :: "'u multiset \<Rightarrow> 's \<times> ('r \<times> 'a) list \<Rightarrow> bool" where
  "safe_state tot st \<longleftrightarrow> inv (fst st) \<and> (\<forall>(r, a)\<in>set (snd st). valid r a) \<and>
     free_units (fst st) + held_units units (snd st) \<subseteq># tot"

lemma held_remove:
  assumes "i < length held"
  shows "held_units units held
    = held_units units (take i held @ drop (Suc i) held) + units (fst (held ! i)) (snd (held ! i))"
proof -
  have "held = take i held @ held ! i # drop (Suc i) held" using assms by (rule id_take_nth_drop)
  then have "mset held = add_mset (held ! i) (mset (take i held @ drop (Suc i) held))"
    by (metis mset.simps(2) mset_append union_mset_add_mset_right)
  then show ?thesis by (simp add: held_units_def case_prod_beta add.commute)
qed

lemma free_step:
  assumes "safe_state tot (s, held)" and "\<forall>u. count tot u \<le> 1" and i: "i < length held"
  shows "safe_state tot (fr s (fst (held ! i)) (snd (held ! i)), take i held @ drop (Suc i) held)"
proof -
  let ?r = "fst (held ! i)" and ?a = "snd (held ! i)" and ?rest = "take i held @ drop (Suc i) held"
  have sub: "free_units s + units ?r ?a + held_units units ?rest \<subseteq># tot"
    using assms(1) held_remove [OF i] by (simp add: safe_state_def ac_simps)
  have "count (free_units s + units ?r ?a) u \<le> 1" for u
    using mset_subset_eq_count [OF sub, of u] assms(2) by (metis add_leD1 count_union le_trans)
  moreover have "valid ?r ?a"
    using assms(1) nth_mem [OF i] by (auto simp: safe_state_def)
  ultimately have fr: "inv (fr s ?r ?a)" "free_units (fr s ?r ?a) \<subseteq># free_units s + units ?r ?a"
    using fr_laws assms(1) by (auto simp: safe_state_def)
  have "free_units (fr s ?r ?a) + held_units units ?rest \<subseteq># tot"
    using subset_mset.order_trans [OF subset_mset.add_right_mono [OF fr(2)] sub] .
  moreover have "\<forall>(r, a)\<in>set ?rest. valid r a"
    using assms(1) by (auto simp: safe_state_def dest: in_set_takeD in_set_dropD)
  ultimately show ?thesis using fr(1) by (simp add: safe_state_def)
qed

lemma alloc_step:
  assumes "safe_state tot (s, held)"
  shows "alloc s r = (Some a, s') \<Longrightarrow> safe_state tot (s', held @ [(r, a)])"
    and "alloc s r = (None, s') \<Longrightarrow> safe_state tot (s', held)"
proof -
  assume "alloc s r = (Some a, s')"
  then have "inv s'" "valid r a" "free_units s' + units r a \<subseteq># free_units s"
    using alloc_Some assms by (auto simp: safe_state_def)
  moreover have "held_units units (held @ [(r, a)]) = units r a + held_units units held"
    by (simp add: held_units_def)
  moreover have "free_units s' + units r a + held_units units held \<subseteq># tot"
    using subset_mset.order_trans [OF subset_mset.add_right_mono] calculation(3) assms
    by (fastforce simp: safe_state_def)
  ultimately show "safe_state tot (s', held @ [(r, a)])"
    using assms by (auto simp: safe_state_def ac_simps)
next
  assume "alloc s r = (None, s')"
  then show "safe_state tot (s', held)"
    using alloc_None [of s r s'] assms subset_mset.order_trans [OF subset_mset.add_right_mono]
    by (fastforce simp: safe_state_def)
qed

lemma run_safe:
  "safe_state tot st \<Longrightarrow> \<forall>u. count tot u \<le> 1 \<Longrightarrow> safe_state tot (alloc_run alloc fr ops st)"
proof (induction ops arbitrary: st)
  case Nil
  then show ?case by simp
next
  case (Cons op ops)
  obtain s held where st: "st = (s, held)" by fastforce
  show ?case
  proof (cases op)
    case (AllocOp r)
    obtain x s' where "alloc s r = (x, s')" by fastforce
    then show ?thesis
      using Cons alloc_step [of tot s held r] st AllocOp by (cases x) auto
  next
    case (FreeOp i)
    then show ?thesis using Cons free_step [of tot s held i] st by auto
  qed
qed

lemma run_no_double:
  assumes "inv s" and "\<forall>u. count (free_units s) u \<le> 1" and "alloc_run alloc fr ops (s, []) = (s', held)"
  shows "free_units s' + held_units units held \<subseteq># free_units s"
    and "count (free_units s' + held_units units held) u \<le> 1"
proof -
  have "safe_state (free_units s) (s, [])" using assms(1) by (simp add: safe_state_def held_units_def)
  then have "safe_state (free_units s) (s', held)" using run_safe [OF _ assms(2), of "(s, [])" ops] assms(3) by simp
  then show sub: "free_units s' + held_units units held \<subseteq># free_units s" by (simp add: safe_state_def)
  show "count (free_units s' + held_units units held) u \<le> 1"
    using mset_subset_eq_count [OF sub, of u] assms(2) by (metis le_trans)
qed

end

text \<open>An allocator that, in addition, never loses a unit.\<close>

locale exact_alloc = unit_alloc +
  assumes alloc_Some_eq: "inv s \<Longrightarrow> alloc s r = (Some a, s') \<Longrightarrow> free_units s = free_units s' + units r a"
    and alloc_None_eq: "inv s \<Longrightarrow> alloc s r = (None, s') \<Longrightarrow> free_units s' = free_units s"
    and fr_eq: "inv s \<Longrightarrow> valid r a \<Longrightarrow> (\<forall>u. count (free_units s + units r a) u \<le> 1) \<Longrightarrow>
      free_units (fr s r a) = free_units s + units r a"
begin

lemma run_exact_aux:
  "safe_state tot st \<Longrightarrow> \<forall>u. count tot u \<le> 1 \<Longrightarrow> free_units (fst st) + held_units units (snd st) = tot \<Longrightarrow>
   alloc_run alloc fr ops st = (s', held') \<Longrightarrow> free_units s' + held_units units held' = tot"
proof (induction ops arbitrary: st)
  case Nil
  then show ?case by simp
next
  case (Cons op ops)
  obtain s held where st: "st = (s, held)" by fastforce
  have inv: "inv s" using Cons.prems(1) st by (simp add: safe_state_def)
  show ?case
  proof (cases op)
    case (AllocOp r)
    obtain x s1 where al: "alloc s r = (x, s1)" by fastforce
    show ?thesis
    proof (cases x)
      case None
      then show ?thesis
        using Cons.IH [of "(s1, held)"] Cons.prems alloc_step(2) [of tot s held r s1] alloc_None_eq [OF inv, of r s1] st AllocOp al
        by simp
    next
      case (Some a)
      have "held_units units (held @ [(r, a)]) = units r a + held_units units held" by (simp add: held_units_def)
      then show ?thesis
        using Cons.IH [of "(s1, held @ [(r, a)])"] Cons.prems alloc_step(1) [of tot s held r a s1]
          alloc_Some_eq [OF inv, of r a s1] st AllocOp al Some
        by (simp add: ac_simps)
    qed
  next
    case (FreeOp i)
    show ?thesis
    proof (cases "i < length held")
      case True
      let ?r = "fst (held ! i)" and ?a = "snd (held ! i)" and ?rest = "take i held @ drop (Suc i) held"
      have safe: "safe_state tot (fr s ?r ?a, ?rest)" using free_step [OF _ Cons.prems(2) True] Cons.prems(1) st by simp
      have eq: "free_units s + units ?r ?a + held_units units ?rest = tot"
        using Cons.prems(3) st held_remove [OF True] by (simp add: ac_simps)
      have "count (free_units s + units ?r ?a) u \<le> 1" for u
        using Cons.prems(2) [rule_format, of u] unfolding eq [symmetric] by simp
      moreover have "valid ?r ?a" using Cons.prems(1) nth_mem [OF True] st by (auto simp: safe_state_def)
      ultimately have "free_units (fr s ?r ?a) = free_units s + units ?r ?a" using fr_eq [OF inv] by blast
      then show ?thesis using Cons.IH [of "(fr s ?r ?a, ?rest)"] Cons.prems safe eq st FreeOp True by simp
    next
      case False
      then show ?thesis using Cons.IH [of st] Cons.prems st FreeOp by simp
    qed
  qed
qed

lemma run_exact:
  assumes "inv s" and "\<forall>u. count (free_units s) u \<le> 1" and "alloc_run alloc fr ops (s, []) = (s', held)"
  shows "free_units s' + held_units units held = free_units s"
  using run_exact_aux [of "free_units s" "(s, [])" ops s' held] assms
  by (simp add: safe_state_def held_units_def)

end

end
