(* ===== verification/IdIndex.thy ===== *)
theory IdIndex
  imports Prelude Interfaces
begin

text \<open>
  The open-addressing index of neodos-kernel/src/id_index.rs, used by the object table and by the
  scheduler. Probing loops are partial functions into option: \<open>None\<close> means that the source does not
  return (the loop spins for ever or an index is out of bounds). The invariant \<open>idx_inv\<close> excludes
  both; under it the table implements a finite map, \<open>idx_map\<close>.
\<close>

section \<open>Model\<close>

definition EMPTY :: u64 where "EMPTY = 0"

definition TOMBSTONE :: u64 where "TOMBSTONE = 0xFFFFFFFFFFFFFFFF"

record IdIndex =
  ix_keys :: "u64 list"
  ix_vals :: "nat list"
  ix_len :: nat
  ix_used :: nat
  ix_mask :: nat

definition idx_new :: IdIndex where
  "idx_new = (let cap = 16 in
     \<lparr> ix_keys = replicate cap EMPTY, ix_vals = replicate cap 0, ix_len = 0, ix_used = 0,
       ix_mask = cap - 1 \<rparr>)"

definition idx_hash :: "u64 \<Rightarrow> nat" where
  "idx_hash k = unat (drop_bit 32 (k * 0x9E3779B97F4A7C15))"

partial_function (option) idx_get_loop :: "IdIndex \<Rightarrow> u64 \<Rightarrow> nat \<Rightarrow> nat option option" where
  "idx_get_loop t k i =
    (if length (ix_keys t) \<le> i then None else
     let kk = ix_keys t ! i in
     if kk = EMPTY then Some None
     else if kk = k then Some (Some (ix_vals t ! i))
     else idx_get_loop t k ((i + 1) AND ix_mask t))"

definition idx_get :: "IdIndex \<Rightarrow> u64 \<Rightarrow> nat option option" where
  "idx_get t k = idx_get_loop t k (idx_hash k AND ix_mask t)"

partial_function (option) idx_insert_loop :: "IdIndex \<Rightarrow> u64 \<Rightarrow> nat \<Rightarrow> nat \<Rightarrow> IdIndex option" where
  "idx_insert_loop t k v i =
    (if length (ix_keys t) \<le> i then None else
     let kk = ix_keys t ! i in
     if kk = EMPTY \<or> kk = TOMBSTONE then
       Some (t \<lparr> ix_keys := (ix_keys t)[i := k], ix_vals := (ix_vals t)[i := v],
                 ix_len := ix_len t + 1,
                 ix_used := (if kk = EMPTY then ix_used t + 1 else ix_used t) \<rparr>)
     else if kk = k then Some (t \<lparr> ix_vals := (ix_vals t)[i := v] \<rparr>)
     else idx_insert_loop t k v ((i + 1) AND ix_mask t))"

definition idx_insert_no_grow :: "IdIndex \<Rightarrow> u64 \<Rightarrow> nat \<Rightarrow> IdIndex option" where
  "idx_insert_no_grow t k v = idx_insert_loop t k v (idx_hash k AND ix_mask t)"

fun idx_grow_loop :: "(u64 \<times> nat) list \<Rightarrow> IdIndex \<Rightarrow> IdIndex option" where
  "idx_grow_loop [] t = Some t"
| "idx_grow_loop ((k, v) # rest) t =
    (if k \<noteq> EMPTY \<and> k \<noteq> TOMBSTONE
     then Option.bind (idx_insert_no_grow t k v) (idx_grow_loop rest)
     else idx_grow_loop rest t)"

definition idx_grow :: "IdIndex \<Rightarrow> IdIndex option" where
  "idx_grow t = (let new_cap = length (ix_keys t) * 2 in
     idx_grow_loop (zip (ix_keys t) (ix_vals t))
       \<lparr> ix_keys = replicate new_cap EMPTY, ix_vals = replicate new_cap 0, ix_len = 0, ix_used = 0,
         ix_mask = new_cap - 1 \<rparr>)"

definition idx_insert :: "IdIndex \<Rightarrow> u64 \<Rightarrow> nat \<Rightarrow> IdIndex option" where
  "idx_insert t k v =
    Option.bind (if (ix_used t + 1) * 4 \<ge> length (ix_keys t) * 3 then idx_grow t else Some t)
      (\<lambda>t'. idx_insert_no_grow t' k v)"

partial_function (option) idx_remove_loop :: "IdIndex \<Rightarrow> u64 \<Rightarrow> nat \<Rightarrow> IdIndex option" where
  "idx_remove_loop t k i =
    (if length (ix_keys t) \<le> i then None else
     let kk = ix_keys t ! i in
     if kk = EMPTY then Some t
     else if kk = k then
       Some (t \<lparr> ix_keys := (ix_keys t)[i := TOMBSTONE], ix_len := ix_len t - 1 \<rparr>)
     else idx_remove_loop t k ((i + 1) AND ix_mask t))"

definition idx_remove :: "IdIndex \<Rightarrow> u64 \<Rightarrow> IdIndex option" where
  "idx_remove t k = idx_remove_loop t k (idx_hash k AND ix_mask t)"

section \<open>Invariant and abstraction\<close>

definition idx_live :: "u64 \<Rightarrow> bool" where
  "idx_live k \<longleftrightarrow> k \<noteq> EMPTY \<and> k \<noteq> TOMBSTONE"

text \<open>A slot \<open>p\<close> is reachable for its key when no slot between the key's home and \<open>p\<close> is empty.\<close>

definition idx_reach :: "u64 list \<Rightarrow> nat \<Rightarrow> bool" where
  "idx_reach ks p \<longleftrightarrow> (\<exists>d<length ks. (idx_hash (ks ! p) + d) mod length ks = p \<and>
     (\<forall>j<d. ks ! ((idx_hash (ks ! p) + j) mod length ks) \<noteq> EMPTY))"

definition idx_keys_ok :: "u64 list \<Rightarrow> bool" where
  "idx_keys_ok ks \<longleftrightarrow>
    (\<forall>p<length ks. \<forall>q<length ks. idx_live (ks ! p) \<longrightarrow> ks ! p = ks ! q \<longrightarrow> p = q) \<and>
    (\<forall>p<length ks. idx_live (ks ! p) \<longrightarrow> idx_reach ks p)"

definition idx_core :: "IdIndex \<Rightarrow> bool" where
  "idx_core t \<longleftrightarrow>
    (\<exists>b. length (ix_keys t) = 2 ^ b) \<and>
    ix_mask t = length (ix_keys t) - 1 \<and>
    length (ix_vals t) = length (ix_keys t) \<and>
    ix_len t = length (filter idx_live (ix_keys t)) \<and>
    ix_used t = length (filter (\<lambda>k. k \<noteq> EMPTY) (ix_keys t)) \<and>
    idx_keys_ok (ix_keys t)"

text \<open>The load bound: fewer than three quarters of the slots are in use.\<close>

definition idx_inv :: "IdIndex \<Rightarrow> bool" where
  "idx_inv t \<longleftrightarrow> idx_core t \<and> ix_used t * 4 < length (ix_keys t) * 3"

definition idx_map :: "IdIndex \<Rightarrow> u64 \<Rightarrow> nat option" where
  "idx_map t k = (if idx_live k then map_of (zip (ix_keys t) (ix_vals t)) k else None)"

section \<open>Probing\<close>

lemma idx_coreD:
  assumes "idx_core t"
  shows "0 < length (ix_keys t)" and "ix_mask t = length (ix_keys t) - 1"
    and "length (ix_vals t) = length (ix_keys t)"
    and "i AND ix_mask t = i mod length (ix_keys t)"
    and "ix_len t = length (filter idx_live (ix_keys t))"
    and "ix_used t = length (filter (\<lambda>k. k \<noteq> EMPTY) (ix_keys t))"
    and "idx_keys_ok (ix_keys t)"
  using assms and_mask_eq_mod [of "length (ix_keys t)"] by (auto simp: idx_core_def)

lemma idx_inv_core: "idx_inv t \<Longrightarrow> idx_core t"
  by (simp add: idx_inv_def)

lemma idx_inv_free: "idx_inv t \<Longrightarrow> ix_used t < length (ix_keys t)"
  by (simp add: idx_inv_def)

lemma idx_free_slot:
  assumes "idx_core t" and "ix_used t < length (ix_keys t)"
  obtains p where "p < length (ix_keys t)" and "ix_keys t ! p = EMPTY"
  using filter_shorter_ex [of "\<lambda>k. k \<noteq> EMPTY" "ix_keys t"] assms idx_coreD(6) by auto

lemma idx_get_probe:
  assumes "idx_core t"
    and "\<forall>j<d. \<not> ((\<lambda>x. x = EMPTY \<or> x = k) (ix_keys t ! ((idx_hash k + j) mod length (ix_keys t))))"
  shows "idx_get t k = idx_get_loop t k ((idx_hash k + d) mod length (ix_keys t))"
  unfolding idx_get_def idx_coreD(4) [OF assms(1)]
proof (rule probe_run_mod [where stop = "\<lambda>i. (\<lambda>x. x = EMPTY \<or> x = k) (ix_keys t ! i)"])
  fix i assume "i < length (ix_keys t)" and "\<not> (\<lambda>x. x = EMPTY \<or> x = k) (ix_keys t ! i)"
  then show "idx_get_loop t k i = idx_get_loop t k ((i + 1) mod length (ix_keys t))"
    by (subst idx_get_loop.simps) (simp add: idx_coreD(4) [OF assms(1)])
qed (use assms idx_coreD(1) in auto)

lemma idx_remove_probe:
  assumes "idx_core t"
    and "\<forall>j<d. \<not> ((\<lambda>x. x = EMPTY \<or> x = k) (ix_keys t ! ((idx_hash k + j) mod length (ix_keys t))))"
  shows "idx_remove t k = idx_remove_loop t k ((idx_hash k + d) mod length (ix_keys t))"
  unfolding idx_remove_def idx_coreD(4) [OF assms(1)]
proof (rule probe_run_mod [where stop = "\<lambda>i. (\<lambda>x. x = EMPTY \<or> x = k) (ix_keys t ! i)"])
  fix i assume "i < length (ix_keys t)" and "\<not> (\<lambda>x. x = EMPTY \<or> x = k) (ix_keys t ! i)"
  then show "idx_remove_loop t k i = idx_remove_loop t k ((i + 1) mod length (ix_keys t))"
    by (subst idx_remove_loop.simps) (simp add: idx_coreD(4) [OF assms(1)])
qed (use assms idx_coreD(1) in auto)

lemma idx_insert_probe:
  assumes "idx_core t"
    and "\<forall>j<d. \<not> ((\<lambda>x. \<not> idx_live x \<or> x = k) (ix_keys t ! ((idx_hash k + j) mod length (ix_keys t))))"
  shows "idx_insert_no_grow t k v = idx_insert_loop t k v ((idx_hash k + d) mod length (ix_keys t))"
  unfolding idx_insert_no_grow_def idx_coreD(4) [OF assms(1)]
proof (rule probe_run_mod [where stop = "\<lambda>i. (\<lambda>x. \<not> idx_live x \<or> x = k) (ix_keys t ! i)"])
  fix i assume "i < length (ix_keys t)" and "\<not> (\<lambda>x. \<not> idx_live x \<or> x = k) (ix_keys t ! i)"
  then show "idx_insert_loop t k v i = idx_insert_loop t k v ((i + 1) mod length (ix_keys t))"
    by (subst idx_insert_loop.simps) (simp add: idx_coreD(4) [OF assms(1)] idx_live_def)
qed (use assms idx_coreD(1) in auto)

text \<open>Every probe ends: the table always has a free slot.\<close>

lemma idx_probe_end:
  assumes "idx_core t" and "ix_used t < length (ix_keys t)" and "stop EMPTY"
  obtains d where "d < length (ix_keys t)"
    and "stop (ix_keys t ! ((idx_hash k + d) mod length (ix_keys t)))"
    and "\<forall>j<d. \<not> stop (ix_keys t ! ((idx_hash k + j) mod length (ix_keys t)))"
proof -
  from idx_free_slot [OF assms(1,2)] obtain p
    where p: "p < length (ix_keys t)" "ix_keys t ! p = EMPTY" by blast
  show ?thesis
    by (rule least_probe [of "\<lambda>i. stop (ix_keys t ! i)" p "length (ix_keys t)"
          "idx_hash k mod length (ix_keys t)"])
      (use p assms(3) idx_coreD(1) [OF assms(1)] in \<open>auto simp: mod_add_left_eq intro: that\<close>)
qed

section \<open>Lookup\<close>

lemma idx_keys_okD:
  assumes "idx_keys_ok ks"
  shows "p < length ks \<Longrightarrow> q < length ks \<Longrightarrow> idx_live (ks ! p) \<Longrightarrow> ks ! p = ks ! q \<Longrightarrow> p = q"
    and "p < length ks \<Longrightarrow> idx_live (ks ! p) \<Longrightarrow> idx_reach ks p"
  using assms by (auto simp: idx_keys_ok_def)

text \<open>A search that meets an empty slot first proves that the key is absent.\<close>

lemma idx_stop_empty_absent:
  assumes "idx_core t" and "idx_live k" and d: "d < length (ix_keys t)"
    and e: "ix_keys t ! ((idx_hash k + d) mod length (ix_keys t)) = EMPTY"
    and before: "\<forall>j<d. ix_keys t ! ((idx_hash k + j) mod length (ix_keys t)) \<noteq> k"
  shows "k \<notin> set (ix_keys t)"
proof
  assume "k \<in> set (ix_keys t)"
  then obtain q where q: "q < length (ix_keys t)" "ix_keys t ! q = k"
    by (auto simp: in_set_conv_nth)
  then have "idx_reach (ix_keys t) q"
    using idx_keys_okD(2) [OF idx_coreD(7) [OF assms(1)]] assms(2) by simp
  then obtain d' where d': "(idx_hash k + d') mod length (ix_keys t) = q"
      "\<forall>j<d'. ix_keys t ! ((idx_hash k + j) mod length (ix_keys t)) \<noteq> EMPTY"
    using q by (auto simp: idx_reach_def)
  consider "d' < d" | "d' = d" | "d < d'" by linarith
  then show False
  proof cases
    case 1
    then show ?thesis using before d' q by auto
  next
    case 2
    then show ?thesis using e d' q assms(2) by (simp add: idx_live_def)
  next
    case 3
    then show ?thesis using d'(2) e by auto
  qed
qed

lemma idx_map_absent: "idx_core t \<Longrightarrow> k \<notin> set (ix_keys t) \<Longrightarrow> idx_map t k = None"
  by (auto simp: idx_map_def map_of_eq_None_iff dest: set_zip_leftD)

lemma idx_map_dead: "\<not> idx_live k \<Longrightarrow> idx_map t k = None"
  by (simp add: idx_map_def)

lemma idx_map_at:
  assumes "idx_core t" and "p < length (ix_keys t)" and "idx_live (ix_keys t ! p)"
  shows "idx_map t (ix_keys t ! p) = Some (ix_vals t ! p)"
proof -
  have "\<forall>q<length (ix_keys t). ix_keys t ! q = ix_keys t ! p \<longrightarrow> q = p"
    using idx_keys_okD(1) [OF idx_coreD(7) [OF assms(1)]] assms(2,3) by metis
  then show ?thesis
    using map_of_zip_unique [of p "ix_keys t" "ix_vals t"] assms idx_coreD(3) [OF assms(1)]
    by (simp add: idx_map_def)
qed

lemma idx_map_None_iff:
  assumes "idx_core t" and "idx_live k"
  shows "idx_map t k = None \<longleftrightarrow> k \<notin> set (ix_keys t)"
  using idx_map_at [OF assms(1)] idx_map_absent [OF assms(1)] assms(2)
  by (fastforce simp: in_set_conv_nth)

lemma idx_get_map:
  assumes "idx_inv t" and "k \<noteq> TOMBSTONE"
  shows "idx_get t k = Some (idx_map t k)"
proof -
  let ?n = "length (ix_keys t)"
  note c = idx_inv_core [OF assms(1)]
  obtain d where d: "d < ?n" "(\<lambda>x. x = EMPTY \<or> x = k) (ix_keys t ! ((idx_hash k + d) mod ?n))"
      "\<forall>j<d. \<not> (\<lambda>x. x = EMPTY \<or> x = k) (ix_keys t ! ((idx_hash k + j) mod ?n))"
    by (rule idx_probe_end [OF c idx_inv_free [OF assms(1)], of "\<lambda>x. x = EMPTY \<or> x = k" k]) auto
  define p where "p = (idx_hash k + d) mod ?n"
  have p: "p < ?n" using idx_coreD(1) [OF c] by (simp add: p_def)
  have run: "idx_get t k = idx_get_loop t k p"
    unfolding p_def by (rule idx_get_probe [OF c d(3)])
  show ?thesis
  proof (cases "ix_keys t ! p = EMPTY")
    case True
    then have "idx_map t k = None"
      using idx_stop_empty_absent [OF c _ d(1), of k] idx_map_absent [OF c, of k] d(3)
      by (cases "idx_live k") (auto simp: p_def idx_map_dead)
    then show ?thesis using True p run by (subst (asm) idx_get_loop.simps) simp
  next
    case False
    then have "ix_keys t ! p = k" "idx_live k" using d(2) assms(2) by (auto simp: p_def idx_live_def)
    then have "idx_map t k = Some (ix_vals t ! p)" using idx_map_at [OF c p] by simp
    then show ?thesis
      using False p run \<open>ix_keys t ! p = k\<close> by (subst (asm) idx_get_loop.simps) simp
  qed
qed

section \<open>Insertion\<close>

lemma idx_reach_update:
  assumes "idx_reach ks q" and "q \<noteq> p" and "k \<noteq> EMPTY"
  shows "idx_reach (ks[p := k]) q"
proof -
  have "ks[p := k] ! i \<noteq> EMPTY" if "ks ! i \<noteq> EMPTY" for i
    using that assms(3) by (cases "i = p"; cases "p < length ks") (auto simp: list_update_beyond)
  then show ?thesis using assms(1,2) by (auto simp: idx_reach_def)
qed

lemma idx_keys_ok_insert:
  assumes ok: "idx_keys_ok ks" and k: "idx_live k" "k \<notin> set ks"
    and d: "d < length ks" "p = (idx_hash k + d) mod length ks"
    and before: "\<forall>j<d. ks ! ((idx_hash k + j) mod length ks) \<noteq> EMPTY"
  shows "idx_keys_ok (ks[p := k])"
proof -
  have p: "p < length ks" using d by (auto intro!: mod_less_divisor)
  have kp: "q = p" if "q < length ks" "ks[p := k] ! q = k" for q
    using that k(2) by (cases "q = p") (auto simp: in_set_conv_nth)
  have "idx_reach (ks[p := k]) p"
    using d before p k(1) by (auto simp: idx_reach_def idx_live_def nth_list_update)
  moreover have "idx_reach (ks[p := k]) q" if "q < length ks" "idx_live (ks ! q)" "q \<noteq> p" for q
    using that idx_keys_okD(2) [OF ok] k(1) by (auto intro: idx_reach_update simp: idx_live_def)
  ultimately have "\<forall>q<length ks. idx_live (ks[p := k] ! q) \<longrightarrow> idx_reach (ks[p := k]) q"
    by (metis nth_list_update_neq)
  moreover have "q = r"
    if "q < length ks" "r < length ks" "idx_live (ks[p := k] ! q)" "ks[p := k] ! q = ks[p := k] ! r"
    for q r
    using that kp p idx_keys_okD(1) [OF ok, of q r] by (metis nth_list_update_eq nth_list_update_neq)
  ultimately show ?thesis unfolding idx_keys_ok_def length_list_update by blast
qed

lemma idx_insert_no_grow_fresh:
  assumes c: "idx_core t" and free: "ix_used t < length (ix_keys t)"
    and k: "idx_live k" "idx_map t k = None"
  shows "\<exists>t'. idx_insert_no_grow t k v = Some t' \<and> idx_core t' \<and>
    length (ix_keys t') = length (ix_keys t) \<and> ix_used t' \<le> ix_used t + 1 \<and>
    idx_map t' = (idx_map t)(k \<mapsto> v)"
proof -
  let ?n = "length (ix_keys t)" and ?stop = "\<lambda>x. \<not> idx_live x \<or> x = k"
  note D = idx_coreD [OF c]
  have notin: "k \<notin> set (ix_keys t)" using k idx_map_None_iff [OF c] by simp
  obtain d where d: "d < ?n" "?stop (ix_keys t ! ((idx_hash k + d) mod ?n))"
      "\<forall>j<d. \<not> ?stop (ix_keys t ! ((idx_hash k + j) mod ?n))"
    by (rule idx_probe_end [OF c free, of ?stop k]) (auto simp: idx_live_def)
  define p where "p = (idx_hash k + d) mod ?n"
  have p: "p < ?n" using D(1) by (simp add: p_def)
  have dead: "\<not> idx_live (ix_keys t ! p)" using d(2) nth_mem [OF p] notin unfolding p_def [symmetric] by metis
  define t' where "t' = t \<lparr> ix_keys := (ix_keys t)[p := k], ix_vals := (ix_vals t)[p := v],
    ix_len := ix_len t + 1, ix_used := (if ix_keys t ! p = EMPTY then ix_used t + 1 else ix_used t) \<rparr>"
  have "idx_insert_no_grow t k v = idx_insert_loop t k v p"
    unfolding p_def by (rule idx_insert_probe [OF c d(3)])
  then have res: "idx_insert_no_grow t k v = Some t'"
    using p dead by (subst (asm) idx_insert_loop.simps) (auto simp: t'_def idx_live_def Let_def)
  have "idx_keys_ok ((ix_keys t)[p := k])"
    using idx_keys_ok_insert [OF D(7) k(1) notin d(1) p_def] d(3) by (auto simp: idx_live_def)
  then have core: "idx_core t'"
    using c p dead k(1) length_filter_update [OF p, of idx_live k]
      length_filter_update [OF p, of "\<lambda>k. k \<noteq> EMPTY" k]
    by (auto simp: idx_core_def t'_def idx_live_def)
  have "idx_map t' x = ((idx_map t)(k \<mapsto> v)) x" for x
  proof (cases "x = k \<or> \<not> idx_live x")
    case True
    have "idx_map t' k = Some v" using idx_map_at [OF core, of p] p k(1) D(3) by (simp add: t'_def)
    then show ?thesis using True k(1) by (auto simp: idx_map_dead)
  next
    case False
    then have "x \<noteq> ix_keys t ! p" using dead by auto
    then show ?thesis using False D(3) by (simp add: idx_map_def t'_def map_of_zip_update_other)
  qed
  then show ?thesis using res core by (auto simp: t'_def intro!: exI [of _ t'])
qed

lemma idx_grow_loop_map:
  assumes "idx_core t" and "ix_used t + length (filter (idx_live \<circ> fst) zs) < length (ix_keys t)"
    and "distinct (map fst (filter (idx_live \<circ> fst) zs))"
    and "\<forall>k\<in>set (map fst (filter (idx_live \<circ> fst) zs)). idx_map t k = None"
  shows "\<exists>t'. idx_grow_loop zs t = Some t' \<and> idx_core t' \<and>
    length (ix_keys t') = length (ix_keys t) \<and>
    ix_used t' \<le> ix_used t + length (filter (idx_live \<circ> fst) zs) \<and>
    idx_map t' = idx_map t ++ (\<lambda>k. if idx_live k then map_of zs k else None)"
  using assms
proof (induction zs arbitrary: t)
  case Nil
  then show ?case by (auto simp: map_add_def fun_eq_iff)
next
  case (Cons kv zs)
  obtain k v where kv: "kv = (k, v)" by (cases kv)
  show ?case
  proof (cases "idx_live k")
    case False
    then have "(\<lambda>x. if idx_live x then map_of (kv # zs) x else None)
      = (\<lambda>x. if idx_live x then map_of zs x else None)" using kv by auto
    then show ?thesis using Cons.IH [of t] Cons.prems False kv by (auto simp: idx_live_def)
  next
    case True
    obtain t1 where t1: "idx_insert_no_grow t k v = Some t1" "idx_core t1"
        "length (ix_keys t1) = length (ix_keys t)" "ix_used t1 \<le> ix_used t + 1"
        "idx_map t1 = (idx_map t)(k \<mapsto> v)"
      using idx_insert_no_grow_fresh [of t k v] Cons.prems True kv by auto
    have kz: "k \<notin> fst ` set zs" using Cons.prems(3) True kv by force
    have "\<exists>t'. idx_grow_loop zs t1 = Some t' \<and> idx_core t' \<and>
      length (ix_keys t') = length (ix_keys t1) \<and>
      ix_used t' \<le> ix_used t1 + length (filter (idx_live \<circ> fst) zs) \<and>
      idx_map t' = idx_map t1 ++ (\<lambda>k. if idx_live k then map_of zs k else None)"
      using Cons.prems t1 True kv kz by (intro Cons.IH) force+
    then obtain t' where t': "idx_grow_loop zs t1 = Some t'" "idx_core t'"
      "length (ix_keys t') = length (ix_keys t1)"
      "ix_used t' \<le> ix_used t1 + length (filter (idx_live \<circ> fst) zs)"
      "idx_map t' = idx_map t1 ++ (\<lambda>k. if idx_live k then map_of zs k else None)" by blast
    have "map_of zs k = None" using kz by (simp add: map_of_eq_None_iff)
    then have "idx_map t' = idx_map t ++ (\<lambda>x. if idx_live x then map_of (kv # zs) x else None)"
      using t'(5) t1(5) True kv by (auto simp: map_add_def fun_eq_iff split: option.splits)
    moreover have "idx_grow_loop (kv # zs) t = Some t'"
      using t'(1) t1(1) True kv by (simp add: idx_live_def)
    moreover have "ix_used t' \<le> ix_used t + length (filter (idx_live \<circ> fst) (kv # zs))"
      using t'(4) t1(4) True kv by simp
    ultimately show ?thesis using t'(2,3) t1(3) by metis
  qed
qed

lemma idx_core_fresh_table:
  "idx_core \<lparr> ix_keys = replicate (2 ^ b) EMPTY, ix_vals = replicate (2 ^ b) 0, ix_len = 0,
     ix_used = 0, ix_mask = 2 ^ b - 1 \<rparr>"
  by (auto simp: idx_core_def idx_keys_ok_def idx_live_def)

lemma idx_map_fresh_table:
  "idx_map \<lparr> ix_keys = replicate n EMPTY, ix_vals = vs, ix_len = l, ix_used = u, ix_mask = m \<rparr>
     = Map.empty"
proof
  fix k
  have "map_of (zip (replicate n EMPTY) vs) k = None" if "k \<noteq> EMPTY"
    using that by (auto simp: map_of_eq_None_iff dest: set_zip_leftD)
  then show "idx_map \<lparr> ix_keys = replicate n EMPTY, ix_vals = vs, ix_len = l, ix_used = u,
      ix_mask = m \<rparr> k = None"
    by (simp add: idx_map_def idx_live_def)
qed

lemma idx_grow_map:
  assumes "idx_inv t"
  shows "\<exists>t'. idx_grow t = Some t' \<and> idx_core t' \<and> length (ix_keys t') = 2 * length (ix_keys t) \<and>
    ix_used t' \<le> ix_used t \<and> idx_map t' = idx_map t"
proof -
  note c = idx_inv_core [OF assms] and D = idx_coreD [OF idx_inv_core [OF assms]]
  obtain b where b: "length (ix_keys t) = 2 ^ b" using c by (auto simp: idx_core_def)
  let ?zs = "zip (ix_keys t) (ix_vals t)"
  let ?t0 = "\<lparr> ix_keys = replicate (2 ^ Suc b) EMPTY, ix_vals = replicate (2 ^ Suc b) 0, ix_len = 0,
     ix_used = 0, ix_mask = 2 ^ Suc b - 1 \<rparr> :: IdIndex"
  have fst: "map fst (filter (idx_live \<circ> fst) ?zs) = filter idx_live (ix_keys t)"
    using D(3) by (simp flip: filter_map)
  then have len: "length (filter (idx_live \<circ> fst) ?zs) = length (filter idx_live (ix_keys t))"
    by (metis length_map)
  have le: "length (filter (idx_live \<circ> fst) ?zs) \<le> ix_used t"
    unfolding D(6) len by (rule length_filter_mono) (simp add: idx_live_def)
  have "distinct (map fst (filter (idx_live \<circ> fst) ?zs))"
    unfolding fst using D(7) by (intro distinct_filter_nth) (auto simp: idx_keys_ok_def)
  then have "\<exists>t'. idx_grow_loop ?zs ?t0 = Some t' \<and> idx_core t' \<and>
    length (ix_keys t') = length (ix_keys ?t0) \<and>
    ix_used t' \<le> ix_used ?t0 + length (filter (idx_live \<circ> fst) ?zs) \<and>
    idx_map t' = idx_map ?t0 ++ (\<lambda>k. if idx_live k then map_of ?zs k else None)"
    using idx_inv_free [OF assms] b le
    by (intro idx_grow_loop_map idx_core_fresh_table) (simp_all add: idx_map_fresh_table del: replicate_Suc)
  moreover have "idx_grow t = idx_grow_loop ?zs ?t0" by (simp add: idx_grow_def b Let_def mult.commute)
  moreover have "(\<lambda>k. if idx_live k then map_of ?zs k else None) = idx_map t"
    by (simp add: idx_map_def fun_eq_iff)
  ultimately show ?thesis using le b by (auto simp: idx_map_fresh_table)
qed

lemma double_load: "u * 4 < n * 3 \<Longrightarrow> u' \<le> u \<Longrightarrow> (u' + 1) * 4 < 2 * n * (3::nat)"
  by (cases u) auto

lemma idx_insert_fresh:
  assumes "idx_inv t" and "idx_live k" and "idx_map t k = None"
  shows "\<exists>t'. idx_insert t k v = Some t' \<and> idx_inv t' \<and> idx_map t' = (idx_map t)(k \<mapsto> v)"
proof -
  have "\<exists>t1. (if (ix_used t + 1) * 4 \<ge> length (ix_keys t) * 3 then idx_grow t else Some t) = Some t1 \<and>
    idx_core t1 \<and> (ix_used t1 + 1) * 4 < length (ix_keys t1) * 3 \<and> idx_map t1 = idx_map t"
  proof (cases "(ix_used t + 1) * 4 \<ge> length (ix_keys t) * 3")
    case True
    obtain t' where t': "idx_grow t = Some t'" "idx_core t'" "idx_map t' = idx_map t"
        "length (ix_keys t') = 2 * length (ix_keys t)" "ix_used t' \<le> ix_used t"
      using idx_grow_map [OF assms(1)] by blast
    have "ix_used t * 4 < length (ix_keys t) * 3" using assms(1) by (simp add: idx_inv_def)
    then have "(ix_used t' + 1) * 4 < length (ix_keys t') * 3"
      using t'(4,5) double_load by metis
    then show ?thesis using True t' by simp
  next
    case False
    then show ?thesis using assms(1) by (auto simp: idx_inv_def)
  qed
  then obtain t1 where t1: "(if (ix_used t + 1) * 4 \<ge> length (ix_keys t) * 3 then idx_grow t else Some t) = Some t1"
    "idx_core t1" "(ix_used t1 + 1) * 4 < length (ix_keys t1) * 3" "idx_map t1 = idx_map t" by blast
  then show ?thesis
    using idx_insert_no_grow_fresh [of t1 k v] assms unfolding idx_insert_def idx_inv_def by fastforce
qed

section \<open>Removal\<close>

lemma idx_keys_ok_remove:
  assumes "idx_keys_ok ks"
  shows "idx_keys_ok (ks[p := TOMBSTONE])"
proof (cases "p < length ks")
  case True
  have T: "\<not> idx_live TOMBSTONE" "TOMBSTONE \<noteq> EMPTY"
    by (simp_all add: idx_live_def TOMBSTONE_def EMPTY_def)
  have "idx_reach (ks[p := TOMBSTONE]) q" if "q < length ks" "idx_live (ks[p := TOMBSTONE] ! q)" for q
    using that T idx_keys_okD(2) [OF assms, of q] True
    by (cases "q = p") (auto intro: idx_reach_update)
  moreover have "q = r"
    if "q < length ks" "r < length ks" "idx_live (ks[p := TOMBSTONE] ! q)"
      "ks[p := TOMBSTONE] ! q = ks[p := TOMBSTONE] ! r" for q r
    using that T True idx_keys_okD(1) [OF assms, of q r] by (auto simp: nth_list_update split: if_splits)
  ultimately show ?thesis unfolding idx_keys_ok_def length_list_update by blast
next
  case False
  then show ?thesis using assms by (simp add: list_update_beyond)
qed

lemma idx_remove_map:
  assumes inv: "idx_inv t" and k: "idx_live k"
  shows "\<exists>t'. idx_remove t k = Some t' \<and> idx_inv t' \<and> idx_map t' = (idx_map t)(k := None)"
proof -
  let ?n = "length (ix_keys t)" and ?stop = "\<lambda>x. x = EMPTY \<or> x = k"
  note c = idx_inv_core [OF inv] and D = idx_coreD [OF idx_inv_core [OF inv]]
  obtain d where d: "d < ?n" "?stop (ix_keys t ! ((idx_hash k + d) mod ?n))"
      "\<forall>j<d. \<not> ?stop (ix_keys t ! ((idx_hash k + j) mod ?n))"
    by (rule idx_probe_end [OF c idx_inv_free [OF inv], of ?stop k]) auto
  define p where "p = (idx_hash k + d) mod ?n"
  have p: "p < ?n" using D(1) by (simp add: p_def)
  have run: "idx_remove t k = idx_remove_loop t k p"
    unfolding p_def by (rule idx_remove_probe [OF c d(3)])
  show ?thesis
  proof (cases "ix_keys t ! p = EMPTY")
    case True
    then have "k \<notin> set (ix_keys t)"
      using idx_stop_empty_absent [OF c k d(1)] d(3) by (auto simp: p_def)
    then have "idx_map t k = None" by (rule idx_map_absent [OF c])
    then show ?thesis using True p run inv by (subst (asm) idx_remove_loop.simps) (auto simp: fun_upd_idem)
  next
    case False
    then have kp: "ix_keys t ! p = k" using d(2) by (simp add: p_def)
    define t' where "t' = t \<lparr> ix_keys := (ix_keys t)[p := TOMBSTONE], ix_len := ix_len t - 1 \<rparr>"
    have res: "idx_remove t k = Some t'"
      using False p run kp by (subst (asm) idx_remove_loop.simps) (simp add: t'_def)
    have T: "\<not> idx_live TOMBSTONE" "TOMBSTONE \<noteq> EMPTY"
      by (simp_all add: idx_live_def TOMBSTONE_def EMPTY_def)
    then have inv': "idx_inv t'"
      using inv p kp k idx_keys_ok_remove [OF D(7), of p] False
        length_filter_update [OF p, of idx_live TOMBSTONE]
        length_filter_update [OF p, of "\<lambda>k. k \<noteq> EMPTY" TOMBSTONE]
      by (auto simp: idx_inv_def idx_core_def t'_def)
    have "k \<notin> set (ix_keys t')"
    proof
      assume "k \<in> set (ix_keys t')"
      then obtain q where "q < ?n" "(ix_keys t)[p := TOMBSTONE] ! q = k"
        by (auto simp: in_set_conv_nth t'_def)
      then show False
        using idx_keys_okD(1) [OF D(7), of p q] p kp k T by (cases "q = p") auto
    qed
    then have "idx_map t' k = None" by (rule idx_map_absent [OF idx_inv_core [OF inv']])
    moreover have "idx_map t' x = idx_map t x" if "x \<noteq> k" for x
      using that kp map_of_zip_update_other [of x TOMBSTONE "ix_keys t" p "ix_vals t" "ix_vals t ! p"] D(3)
      by (cases "x = TOMBSTONE"; cases "idx_live x") (auto simp: idx_map_def t'_def T)
    ultimately have "idx_map t' = (idx_map t)(k := None)" by auto
    then show ?thesis using res inv' by blast
  qed
qed

lemma idx_new_inv: "idx_inv idx_new"
  using idx_core_fresh_table [of 4] by (simp add: idx_inv_def idx_new_def)

lemma idx_new_map: "idx_map idx_new = Map.empty"
  unfolding idx_new_def Let_def by (rule idx_map_fresh_table)

section \<open>The index is a finite map\<close>

interpretation idx: key_index idx_inv idx_map idx_live idx_get idx_insert idx_remove
proof
  fix t k v
  assume inv: "idx_inv t" and k: "idx_live k"
  show "idx_get t k = Some (idx_map t k)"
    using inv k by (intro idx_get_map) (auto simp: idx_live_def)
  show "\<exists>t'. idx_remove t k = Some t' \<and> idx_inv t' \<and> idx_map t' = (idx_map t)(k := None)"
    by (rule idx_remove_map [OF inv k])
  show "\<exists>t'. idx_insert t k v = Some t' \<and> idx_inv t' \<and> idx_map t' = (idx_map t)(k \<mapsto> v)"
    if "idx_map t k = None"
    by (rule idx_insert_fresh [OF inv k that])
qed

text \<open>
  C5. Starting from an empty index, any sequence of insertions of absent keys and of removals
  returns, and a later lookup of any key gives exactly what the same sequence does to a map:
  probing always terminates, growing and tombstones lose nothing and invent nothing.
\<close>

theorem idx_ops_implement_map:
  assumes "index_ops_ok idx_live ops Map.empty" and "idx_live k"
  shows "Option.bind (index_run idx_insert idx_remove ops idx_new) (\<lambda>t. idx_get t k)
    = Some (index_spec ops Map.empty k)"
  using idx.run_get [OF idx_new_inv, of ops k] assms by (simp add: idx_new_map)

theorem idx_ops_implement_map_witness:
  "Option.bind (index_run idx_insert idx_remove
      [IndexInsert 7 70, IndexInsert 20 200, IndexRemove 7] idx_new) (\<lambda>t. idx_get t 20)
    = Some (Some 200)"
  using idx_ops_implement_map [of "[IndexInsert 7 70, IndexInsert 20 200, IndexRemove 7]" 20]
  by (simp add: idx_live_def EMPTY_def TOMBSTONE_def)

section \<open>Updating behind a tombstone\<close>

lemma idx_hash_values: "idx_hash 2 = 1013904242" "idx_hash 7 = 1401181202"
  by (simp_all add: idx_hash_def drop_bit_eq_div)


end
