(* ===== verification/Queues.thy ===== *)
theory Queues
  imports Interfaces
begin

text \<open>
  The kernel's ring buffers: the per-device IRP queue (irp/mod.rs), the deferred work queues
  (infra/work_queue.rs) and the per-CPU queue of deferred procedure calls (dpc/mod.rs). The model is
  sequential: every operation runs to completion, as the source requires of its callers (interrupts
  off, or one producer and one consumer). A callback is a token that the parameter \<open>call\<close> interprets
  as a transformer of the queue and of the rest of the machine; draining loops are partial functions
  into option because a callback may enqueue again for ever.
\<close>

section \<open>IRP queue\<close>

abbreviation (input) IRP_QUEUE_DEPTH :: nat where "IRP_QUEUE_DEPTH \<equiv> 32"

record IrpQueue =
  iq_entries :: "u32 list"
  iq_head :: nat
  iq_tail :: nat

definition irpq_new :: IrpQueue where
  "irpq_new = \<lparr> iq_entries = replicate IRP_QUEUE_DEPTH 0, iq_head = 0, iq_tail = 0 \<rparr>"

definition irpq_push :: "IrpQueue \<Rightarrow> u32 \<Rightarrow> bool \<times> IrpQueue" where
  "irpq_push q irp = (let next = (iq_tail q + 1) mod IRP_QUEUE_DEPTH in
     if next = iq_head q then (False, q)
     else (True, q \<lparr> iq_entries := (iq_entries q)[iq_tail q := irp], iq_tail := next \<rparr>))"

definition irpq_pop :: "IrpQueue \<Rightarrow> u32 option \<times> IrpQueue" where
  "irpq_pop q = (if iq_head q = iq_tail q then (None, q)
     else (Some (iq_entries q ! iq_head q), q \<lparr> iq_head := (iq_head q + 1) mod IRP_QUEUE_DEPTH \<rparr>))"

definition irpq_peek :: "IrpQueue \<Rightarrow> u32 option" where
  "irpq_peek q = (if iq_head q = iq_tail q then None else Some (iq_entries q ! iq_head q))"

definition irpq_len :: "IrpQueue \<Rightarrow> nat" where
  "irpq_len q = (if iq_tail q \<ge> iq_head q then iq_tail q - iq_head q
     else IRP_QUEUE_DEPTH - iq_head q + iq_tail q)"

section \<open>Work queues\<close>

abbreviation (input) WQ_CAPACITY :: nat where "WQ_CAPACITY \<equiv> 64"

record 'f WorkEntry =
  we_func :: 'f
  we_data :: u64

record 'f WorkQueue =
  wq_entries :: "'f WorkEntry option list"
  wq_head :: nat
  wq_tail :: nat
  wq_pending :: bool

definition wq_new :: "'f WorkQueue" where
  "wq_new = \<lparr> wq_entries = replicate WQ_CAPACITY None, wq_head = 0, wq_tail = 0, wq_pending = False \<rparr>"

definition wq_push :: "'f WorkQueue \<Rightarrow> 'f \<Rightarrow> u64 \<Rightarrow> bool \<times> 'f WorkQueue" where
  "wq_push q func data = (let tail = wq_tail q; head = wq_head q; next = (tail + 1) mod WQ_CAPACITY in
     if next = head then (False, q)
     else (True, q \<lparr> wq_entries := (wq_entries q)[tail := Some \<lparr> we_func = func, we_data = data \<rparr>],
                      wq_tail := next, wq_pending := True \<rparr>))"

definition wq_pop :: "'f WorkQueue \<Rightarrow> ('f \<times> u64) option \<times> 'f WorkQueue" where
  "wq_pop q = (let head = wq_head q; tail = wq_tail q in
     if head = tail then (None, q \<lparr> wq_pending := False \<rparr>)
     else let entry = wq_entries q ! head;
              new_head = (head + 1) mod WQ_CAPACITY;
              q1 = q \<lparr> wq_head := new_head \<rparr>;
              q2 = (if new_head = tail then q1 \<lparr> wq_pending := False \<rparr> else q1)
          in (map_option (\<lambda>e. (we_func e, we_data e)) entry, q2))"

definition wq_pending_count :: "'f WorkQueue \<Rightarrow> nat" where
  "wq_pending_count q = (let head = wq_head q; tail = wq_tail q in
     if tail \<ge> head then tail - head else WQ_CAPACITY - head + tail)"

record 'f WorkQueueManager =
  wm_high :: "'f WorkQueue"
  wm_low :: "'f WorkQueue"

definition wm_new :: "'f WorkQueueManager" where
  "wm_new = \<lparr> wm_high = wq_new, wm_low = wq_new \<rparr>"

definition push_high :: "'f WorkQueueManager \<Rightarrow> 'f \<Rightarrow> u64 \<Rightarrow> bool \<times> 'f WorkQueueManager" where
  "push_high m func data = (let (ok, q) = wq_push (wm_high m) func data in (ok, m \<lparr> wm_high := q \<rparr>))"

definition push_low :: "'f WorkQueueManager \<Rightarrow> 'f \<Rightarrow> u64 \<Rightarrow> bool \<times> 'f WorkQueueManager" where
  "push_low m func data = (let (ok, q) = wq_push (wm_low m) func data in (ok, m \<lparr> wm_low := q \<rparr>))"

text \<open>The callback sees and may change the manager (it may push work) and the rest of the state.\<close>

type_synonym ('f, 's) work_call = "'f \<Rightarrow> u64 \<Rightarrow> 'f WorkQueueManager \<times> 's \<Rightarrow> 'f WorkQueueManager \<times> 's"

partial_function (option) process_high_loop ::
  "('f, 's) work_call \<Rightarrow> nat \<Rightarrow> 'f WorkQueueManager \<times> 's \<Rightarrow> (nat \<times> 'f WorkQueueManager \<times> 's) option"
where
  "process_high_loop call cnt st = (case wq_pop (wm_high (fst st)) of
     (None, q) \<Rightarrow> Some (cnt, (fst st) \<lparr> wm_high := q \<rparr>, snd st)
   | (Some (func, data), q) \<Rightarrow>
       process_high_loop call (cnt + 1) (call func data ((fst st) \<lparr> wm_high := q \<rparr>, snd st)))"

definition process_high ::
  "('f, 's) work_call \<Rightarrow> 'f WorkQueueManager \<times> 's \<Rightarrow> (nat \<times> 'f WorkQueueManager \<times> 's) option" where
  "process_high call st = process_high_loop call 0 st"

partial_function (option) process_low_loop ::
  "('f, 's) work_call \<Rightarrow> nat \<Rightarrow> 'f WorkQueueManager \<times> 's \<Rightarrow> (nat \<times> 'f WorkQueueManager \<times> 's) option"
where
  "process_low_loop call cnt st = (case wq_pop (wm_low (fst st)) of
     (None, q) \<Rightarrow> Some (cnt, (fst st) \<lparr> wm_low := q \<rparr>, snd st)
   | (Some (func, data), q) \<Rightarrow>
       process_low_loop call (cnt + 1) (call func data ((fst st) \<lparr> wm_low := q \<rparr>, snd st)))"

definition process_low ::
  "('f, 's) work_call \<Rightarrow> 'f WorkQueueManager \<times> 's \<Rightarrow> (nat \<times> 'f WorkQueueManager \<times> 's) option" where
  "process_low call st = process_low_loop call 0 st"

definition process_all ::
  "('f, 's) work_call \<Rightarrow> 'f WorkQueueManager \<times> 's \<Rightarrow> ((nat \<times> nat) \<times> 'f WorkQueueManager \<times> 's) option" where
  "process_all call st =
    Option.bind (process_high call st) (\<lambda>(high, st1).
    Option.bind (process_low call st1) (\<lambda>(low, st2). Some ((high, low), st2)))"

section \<open>Deferred procedure calls\<close>

abbreviation (input) DPC_QUEUE_SIZE :: nat where "DPC_QUEUE_SIZE \<equiv> 128"

abbreviation (input) MAX_DPC_DEPTH :: nat where "MAX_DPC_DEPTH \<equiv> 10"

record 'f DpcEntry =
  dpc_function :: 'f
  dpc_context :: u64

record 'f DpcQueue =
  dq_entries :: "'f DpcEntry list"
  dq_head :: u16
  dq_tail :: u16
  dq_count :: u16
  dq_depth :: u8
  dq_pending :: bool

definition dpcq_new :: "'f \<Rightarrow> 'f DpcQueue" where
  "dpcq_new noop = \<lparr> dq_entries = replicate DPC_QUEUE_SIZE \<lparr> dpc_function = noop, dpc_context = 0 \<rparr>,
     dq_head = 0, dq_tail = 0, dq_count = 0, dq_depth = 0, dq_pending = False \<rparr>"

definition dpcq_enqueue :: "'f DpcQueue \<Rightarrow> 'f DpcEntry \<Rightarrow> bool \<times> 'f DpcQueue" where
  "dpcq_enqueue q e = (if unat (dq_count q) \<ge> DPC_QUEUE_SIZE then (False, q)
     else (True, q \<lparr> dq_entries := (dq_entries q)[unat (dq_tail q) mod DPC_QUEUE_SIZE := e],
                      dq_tail := dq_tail q + 1, dq_count := dq_count q + 1, dq_pending := True \<rparr>))"

definition dpcq_dequeue :: "'f DpcQueue \<Rightarrow> 'f DpcEntry option \<times> 'f DpcQueue" where
  "dpcq_dequeue q = (if dq_count q = 0 then (None, q \<lparr> dq_pending := False \<rparr>)
     else let entry = dq_entries q ! (unat (dq_head q) mod DPC_QUEUE_SIZE);
              q1 = q \<lparr> dq_head := dq_head q + 1, dq_count := dq_count q - 1 \<rparr>;
              q2 = (if dq_count q1 = 0 then q1 \<lparr> dq_pending := False \<rparr> else q1)
          in (Some entry, q2))"

type_synonym ('f, 's) dpc_call = "'f \<Rightarrow> u64 \<Rightarrow> 'f DpcQueue \<times> 's \<Rightarrow> 'f DpcQueue \<times> 's"

partial_function (option) dispatch_loop ::
  "('f, 's) dpc_call \<Rightarrow> nat \<Rightarrow> 'f DpcQueue \<times> 's \<Rightarrow> (nat \<times> 'f DpcQueue \<times> 's) option"
where
  "dispatch_loop call cnt st = (case dpcq_dequeue (fst st) of
     (None, q) \<Rightarrow> Some (cnt, q, snd st)
   | (Some entry, q) \<Rightarrow>
       dispatch_loop call (cnt + 1) (call (dpc_function entry) (dpc_context entry) (q, snd st)))"

definition dispatch_all ::
  "('f, 's) dpc_call \<Rightarrow> 'f DpcQueue \<times> 's \<Rightarrow> (nat \<times> 'f DpcQueue \<times> 's) option" where
  "dispatch_all call st = (let (q, s) = st in
     if unat (dq_depth q) \<ge> MAX_DPC_DEPTH then Some (0, q, s)
     else Option.bind (dispatch_loop call 0 (q \<lparr> dq_depth := dq_depth q + 1 \<rparr>, s))
       (\<lambda>(count, q', s'). Some (count, q' \<lparr> dq_depth := dq_depth q' - 1 \<rparr>, s')))"

definition dpcq_has_pending :: "'f DpcQueue \<Rightarrow> bool" where
  "dpcq_has_pending q = (dq_pending q \<and> dq_count q > 0)"

definition dpcq_pending_count :: "'f DpcQueue \<Rightarrow> nat" where
  "dpcq_pending_count q = unat (dq_count q)"

text \<open>\<open>DPC_DROPPED_COUNT\<close> counts the insertions that the full queue refuses.\<close>

definition insert_queue_dpc ::
  "'f DpcQueue \<times> u64 \<Rightarrow> 'f \<Rightarrow> u64 \<Rightarrow> bool \<times> 'f DpcQueue \<times> u64" where
  "insert_queue_dpc st function ctx = (let (q, dropped) = st in
     case dpcq_enqueue q \<lparr> dpc_function = function, dpc_context = ctx \<rparr> of
       (True, q') \<Rightarrow> (True, q', dropped)
     | (False, q') \<Rightarrow> (False, q', dropped + 1))"

section \<open>Correctness of the IRP queue\<close>

definition irpq_inv :: "IrpQueue \<Rightarrow> bool" where
  "irpq_inv q \<longleftrightarrow> length (iq_entries q) = IRP_QUEUE_DEPTH \<and> iq_head q < IRP_QUEUE_DEPTH \<and>
     iq_tail q < IRP_QUEUE_DEPTH"

definition irpq_abs :: "IrpQueue \<Rightarrow> u32 list" where
  "irpq_abs q = ring_list (iq_entries q) (iq_head q) (irpq_len q)"

lemma irpq_len_count: "irpq_len q = ring_count IRP_QUEUE_DEPTH (iq_head q) (iq_tail q)"
  by (simp add: irpq_len_def ring_count_def)

interpretation irpq: bounded_fifo irpq_inv irpq_abs "IRP_QUEUE_DEPTH - 1" irpq_push irpq_pop
proof
  fix q and x :: u32
  assume inv: "irpq_inv q"
  show "irpq_inv (snd (irpq_push q x))" and "irpq_inv (snd (irpq_pop q))"
    using inv by (auto simp: irpq_inv_def irpq_push_def irpq_pop_def Let_def)
  show "length (irpq_abs q) \<le> IRP_QUEUE_DEPTH - 1"
    using inv ring_count_less [of "iq_head q" IRP_QUEUE_DEPTH "iq_tail q"]
    by (simp add: irpq_abs_def irpq_len_count irpq_inv_def)
  show "map_prod id irpq_abs (irpq_push q x) = list_push (IRP_QUEUE_DEPTH - 1) (irpq_abs q) x"
    using inv ring_push_abs [of "iq_head q" "iq_entries q" "iq_tail q" x]
    by (auto simp: irpq_abs_def irpq_len_count irpq_inv_def irpq_push_def Let_def)
  show "map_prod id irpq_abs (irpq_pop q) = list_pop (irpq_abs q)"
    using inv ring_pop_abs [of "iq_head q" "iq_entries q" "iq_tail q"]
    by (auto simp: irpq_abs_def irpq_len_count irpq_inv_def irpq_pop_def)
qed

lemma irpq_new_inv: "irpq_inv irpq_new" and irpq_new_abs: "irpq_abs irpq_new = []"
  by (simp_all add: irpq_inv_def irpq_new_def irpq_abs_def irpq_len_def)

section \<open>Correctness of the work queues\<close>

text \<open>The invariant includes that \<open>pending\<close> tells exactly whether the queue holds work.\<close>

definition wq_inv :: "'f WorkQueue \<Rightarrow> bool" where
  "wq_inv q \<longleftrightarrow> length (wq_entries q) = WQ_CAPACITY \<and> wq_head q < WQ_CAPACITY \<and>
     wq_tail q < WQ_CAPACITY \<and> wq_pending q = (wq_head q \<noteq> wq_tail q) \<and>
     None \<notin> set (ring_list (wq_entries q) (wq_head q) (wq_pending_count q))"

definition wq_abs :: "'f WorkQueue \<Rightarrow> ('f \<times> u64) list" where
  "wq_abs q = map (\<lambda>e. (we_func (the e), we_data (the e)))
     (ring_list (wq_entries q) (wq_head q) (wq_pending_count q))"

lemma wq_count: "wq_pending_count q = ring_count WQ_CAPACITY (wq_head q) (wq_tail q)"
  by (simp add: wq_pending_count_def ring_count_def Let_def)

lemma wq_push_refines:
  assumes "wq_inv q"
  shows "wq_inv (snd (wq_push q f d))"
    and "map_prod id wq_abs (wq_push q f d) = list_push (WQ_CAPACITY - 1) (wq_abs q) (f, d)"
proof -
  note inv = assms [unfolded wq_inv_def]
  have full: "Suc (wq_tail q) mod WQ_CAPACITY = wq_head q \<longleftrightarrow> \<not> wq_pending_count q < WQ_CAPACITY - 1"
    using inv ring_full_iff [of "wq_head q" WQ_CAPACITY "wq_tail q"]
      ring_count_less [of "wq_head q" WQ_CAPACITY "wq_tail q"] by (auto simp: wq_count)
  show "wq_inv (snd (wq_push q f d))"
    and "map_prod id wq_abs (wq_push q f d) = list_push (WQ_CAPACITY - 1) (wq_abs q) (f, d)"
    using inv full ring_push_list [of "wq_head q" "wq_entries q" "wq_tail q" "Some \<lparr> we_func = f, we_data = d \<rparr>"]
    by (auto simp: wq_abs_def wq_inv_def wq_count wq_push_def list_push_def Let_def)
qed

lemma wq_pop_refines:
  assumes "wq_inv q"
  shows "wq_inv (snd (wq_pop q))" and "map_prod id wq_abs (wq_pop q) = list_pop (wq_abs q)"
proof -
  note facts = assms ring_pop_list [of "wq_head q" "wq_entries q" "wq_tail q"]
  show "wq_inv (snd (wq_pop q))"
    using facts by (auto simp: wq_inv_def wq_count wq_pop_def Let_def)
  show "map_prod id wq_abs (wq_pop q) = list_pop (wq_abs q)"
    using facts by (cases "wq_entries q ! wq_head q")
      (auto simp: wq_abs_def wq_inv_def wq_count wq_pop_def Let_def)
qed

interpretation wq: bounded_fifo wq_inv wq_abs "WQ_CAPACITY - 1" "\<lambda>q (f, d). wq_push q f d" wq_pop
proof
  fix q :: "'f WorkQueue" and x :: "'f \<times> u64"
  assume inv: "wq_inv q"
  show "wq_inv (snd (case x of (f, d) \<Rightarrow> wq_push q f d))"
    and "map_prod id wq_abs (case x of (f, d) \<Rightarrow> wq_push q f d) = list_push (WQ_CAPACITY - 1) (wq_abs q) x"
    using wq_push_refines [OF inv] by (auto split: prod.split)
  show "wq_inv (snd (wq_pop q))" and "map_prod id wq_abs (wq_pop q) = list_pop (wq_abs q)"
    using wq_pop_refines [OF inv] by auto
  show "length (wq_abs q) \<le> WQ_CAPACITY - 1"
    using inv ring_count_less [of "wq_head q" WQ_CAPACITY "wq_tail q"]
    by (simp add: wq_abs_def wq_count wq_inv_def)
qed

lemma wq_new_inv: "wq_inv wq_new" and wq_new_abs: "wq_abs wq_new = []"
  by (simp_all add: wq_inv_def wq_new_def wq_abs_def wq_pending_count_def)

lemma wq_push_abs:
  "wq_inv q \<Longrightarrow> wq_abs (snd (wq_push q f d))
    = (if length (wq_abs q) < 63 then wq_abs q @ [(f, d)] else wq_abs q)"
  using wq_push_refines(2) [of q f d]
  by (auto simp: list_push_def prod_eq_iff split: if_splits)

text \<open>A callback that only acts on the rest of the machine.\<close>

definition pure_call :: "('f \<Rightarrow> u64 \<Rightarrow> 's \<Rightarrow> 's) \<Rightarrow> ('f, 's) work_call" where
  "pure_call eff func data st = (fst st, eff func data (snd st))"

lemma process_high_loop_drains:
  assumes "wq_inv (wm_high m)"
  shows "\<exists>q. process_high_loop (pure_call eff) n (m, s)
      = Some (n + length (wq_abs (wm_high m)), m \<lparr> wm_high := q \<rparr>,
          fold (\<lambda>(f, d). eff f d) (wq_abs (wm_high m)) s) \<and> wq_inv q \<and> wq_abs q = []"
  using assms
proof (induction "wq_abs (wm_high m)" arbitrary: m n s)
  case Nil
  then obtain q where q: "wq_pop (wm_high m) = (None, q)"
    by (metis surj_pair prod.sel(1) wq.pop_None)
  then have "wq_inv q" "wq_abs q = []"
    using wq_pop_refines [OF Nil.prems] Nil.hyps by auto
  then show ?case using q Nil.hyps by (subst process_high_loop.simps) (auto simp: pure_call_def)
next
  case (Cons e es)
  obtain f d where e: "e = (f, d)" by (cases e)
  obtain q where q: "wq_pop (wm_high m) = (Some (f, d), q)" "wq_inv q" "wq_abs q = es"
    using wq_pop_refines [OF Cons.prems] Cons.hyps(2) e
    by (cases "wq_pop (wm_high m)") (auto simp flip: Cons.hyps(2))
  then show ?case
    using Cons.hyps(1) [of "m \<lparr> wm_high := q \<rparr>" "n + 1" "eff f d s"] e
    by (subst process_high_loop.simps) (simp add: pure_call_def flip: Cons.hyps(2))
qed

lemma process_low_loop_drains:
  assumes "wq_inv (wm_low m)"
  shows "\<exists>q. process_low_loop (pure_call eff) n (m, s)
      = Some (n + length (wq_abs (wm_low m)), m \<lparr> wm_low := q \<rparr>,
          fold (\<lambda>(f, d). eff f d) (wq_abs (wm_low m)) s) \<and> wq_inv q \<and> wq_abs q = []"
  using assms
proof (induction "wq_abs (wm_low m)" arbitrary: m n s)
  case Nil
  then obtain q where q: "wq_pop (wm_low m) = (None, q)"
    by (metis surj_pair prod.sel(1) wq.pop_None)
  then have "wq_inv q" "wq_abs q = []"
    using wq_pop_refines [OF Nil.prems] Nil.hyps by auto
  then show ?case using q Nil.hyps by (subst process_low_loop.simps) (auto simp: pure_call_def)
next
  case (Cons e es)
  obtain f d where e: "e = (f, d)" by (cases e)
  obtain q where q: "wq_pop (wm_low m) = (Some (f, d), q)" "wq_inv q" "wq_abs q = es"
    using wq_pop_refines [OF Cons.prems] Cons.hyps(2) e
    by (cases "wq_pop (wm_low m)") (auto simp flip: Cons.hyps(2))
  then show ?case
    using Cons.hyps(1) [of "m \<lparr> wm_low := q \<rparr>" "n + 1" "eff f d s"] e
    by (subst process_low_loop.simps) (simp add: pure_call_def flip: Cons.hyps(2))
qed

section \<open>Correctness of the DPC queue\<close>

text \<open>
  The 16-bit indices run freely and wrap at 65536, a multiple of the ring size, so that the slot
  computed from a wrapped index is still the next one.
\<close>

definition dpcq_inv :: "'f DpcQueue \<Rightarrow> bool" where
  "dpcq_inv q \<longleftrightarrow> length (dq_entries q) = DPC_QUEUE_SIZE \<and> unat (dq_count q) \<le> DPC_QUEUE_SIZE \<and>
     dq_tail q = dq_head q + dq_count q \<and> dq_pending q = (dq_count q \<noteq> 0)"

definition dpcq_abs :: "'f DpcQueue \<Rightarrow> 'f DpcEntry list" where
  "dpcq_abs q = ring_list (dq_entries q) (unat (dq_head q)) (unat (dq_count q))"

lemma dpcq_enqueue_refines:
  assumes "dpcq_inv q"
  shows "dpcq_inv (snd (dpcq_enqueue q e))"
    and "map_prod id dpcq_abs (dpcq_enqueue q e) = list_push DPC_QUEUE_SIZE (dpcq_abs q) e"
proof -
  note inv = assms [unfolded dpcq_inv_def]
  have small: "unat (dq_count q + 1) = Suc (unat (dq_count q))"
    using inv by (intro unat_Suc_small) simp
  then have "dq_count q + 1 \<noteq> 0" by (metis nat.distinct(1) unat_0)
  with inv small show "dpcq_inv (snd (dpcq_enqueue q e))"
    by (auto simp: dpcq_inv_def dpcq_enqueue_def)
  have "unat (dq_tail q) mod 128 = (unat (dq_head q) + unat (dq_count q)) mod 128"
    using inv by (simp add: unat_add_mod)
  then show "map_prod id dpcq_abs (dpcq_enqueue q e) = list_push DPC_QUEUE_SIZE (dpcq_abs q) e"
    using inv small ring_list_push [of "unat (dq_count q)" "dq_entries q" "unat (dq_head q)" e]
    by (auto simp: dpcq_abs_def dpcq_enqueue_def list_push_def)
qed

lemma dpcq_dequeue_refines:
  assumes "dpcq_inv q"
  shows "dpcq_inv (snd (dpcq_dequeue q))"
    and "map_prod id dpcq_abs (dpcq_dequeue q) = list_pop (dpcq_abs q)"
proof -
  note inv = assms [unfolded dpcq_inv_def]
  have pred: "unat (dq_count q) = Suc (unat (dq_count q - 1))" if "dq_count q \<noteq> 0"
    using that by (rule unat_pred_pos)
  show "dpcq_inv (snd (dpcq_dequeue q))"
    using inv pred by (auto simp: dpcq_inv_def dpcq_dequeue_def Let_def)
  have "ring_list (dq_entries q) (unat (dq_head q + 1)) n = ring_list (dq_entries q) (Suc (unat (dq_head q))) n" for n
    using inv unat_add_mod [of 128 "dq_head q" 1] by (intro ring_list_cong) simp
  then show "map_prod id dpcq_abs (dpcq_dequeue q) = list_pop (dpcq_abs q)"
    using inv pred by (auto simp: dpcq_abs_def dpcq_dequeue_def Let_def ring_list_pop)
qed

interpretation dpcq: bounded_fifo dpcq_inv dpcq_abs DPC_QUEUE_SIZE dpcq_enqueue dpcq_dequeue
  by unfold_locales
    (auto simp: dpcq_enqueue_refines dpcq_dequeue_refines dpcq_abs_def, simp add: dpcq_inv_def)

lemma dpcq_new_inv: "dpcq_inv (dpcq_new noop)" and dpcq_new_abs: "dpcq_abs (dpcq_new noop) = []"
  by (simp_all add: dpcq_inv_def dpcq_new_def dpcq_abs_def)

lemma dpcq_enqueue_abs:
  "dpcq_inv q \<Longrightarrow> dpcq_abs (snd (dpcq_enqueue q e))
    = (if length (dpcq_abs q) < 128 then dpcq_abs q @ [e] else dpcq_abs q)"
  using dpcq_enqueue_refines(2) [of q e]
  by (auto simp: list_push_def prod_eq_iff split: if_splits)

lemma dpcq_has_pending_iff: "dpcq_inv q \<Longrightarrow> dpcq_has_pending q = (dpcq_abs q \<noteq> [])"
  by (auto simp: dpcq_has_pending_def dpcq_inv_def dpcq_abs_def word_gt_0 unat_eq_0)

lemma dpcq_depth_irrelevant [simp]:
  "dpcq_inv (q \<lparr> dq_depth := d \<rparr>) = dpcq_inv q" "dpcq_abs (q \<lparr> dq_depth := d \<rparr>) = dpcq_abs q"
  by (simp_all add: dpcq_inv_def dpcq_abs_def)

definition pure_dpc :: "('f \<Rightarrow> u64 \<Rightarrow> 's \<Rightarrow> 's) \<Rightarrow> ('f, 's) dpc_call" where
  "pure_dpc eff func ctx st = (fst st, eff func ctx (snd st))"

lemma dpcq_dequeue_depth [simp]: "dq_depth (snd (dpcq_dequeue q)) = dq_depth q"
  by (simp add: dpcq_dequeue_def Let_def)

lemma dispatch_loop_drains:
  assumes "dpcq_inv q"
  shows "\<exists>q'. dispatch_loop (pure_dpc eff) n (q, s)
      = Some (n + length (dpcq_abs q), q', fold (\<lambda>e. eff (dpc_function e) (dpc_context e)) (dpcq_abs q) s)
    \<and> dpcq_inv q' \<and> dpcq_abs q' = [] \<and> dq_depth q' = dq_depth q"
  using assms
proof (induction "dpcq_abs q" arbitrary: q n s)
  case Nil
  then obtain q' where q': "dpcq_dequeue q = (None, q')"
    by (metis surj_pair prod.sel(1) dpcq.pop_None)
  then have "dpcq_inv q'" "dpcq_abs q' = []" "dq_depth q' = dq_depth q"
    using dpcq_dequeue_refines [OF Nil.prems] Nil.hyps dpcq_dequeue_depth [of q] by auto
  then show ?case using q' Nil.hyps by (subst dispatch_loop.simps) auto
next
  case (Cons e es)
  have "map_prod id dpcq_abs (dpcq_dequeue q) = (Some e, es)"
    using dpcq_dequeue_refines(2) [OF Cons.prems] by (simp flip: Cons.hyps(2))
  then obtain q' where q': "dpcq_dequeue q = (Some e, q')" "dpcq_abs q' = es"
    by (cases "dpcq_dequeue q") auto
  moreover have "dpcq_inv q'" "dq_depth q' = dq_depth q"
    using dpcq_dequeue_refines(1) [OF Cons.prems] dpcq_dequeue_depth [of q] q'(1) by auto
  ultimately show ?case
    using Cons.hyps(1) [of q' "n + 1" "eff (dpc_function e) (dpc_context e) s"]
    by (subst dispatch_loop.simps) (simp add: pure_dpc_def flip: Cons.hyps(2))
qed

section \<open>Properties\<close>

lemma fifo_run_results:
  "map_prod id \<alpha> (fifo_run push pop ops q) = r \<Longrightarrow> fst (fifo_run push pop ops q) = fst r"
  by (cases "fifo_run push pop ops q") auto

text \<open>
  Everything a driver sees of its IRP queue, over any sequence of pushes and pops, is what a list
  of at most 31 entries would show: first in first out, refusal exactly when full, no entry lost or
  duplicated when the indices wrap.
\<close>

lemma irpq_ops_fifo:
  "fst (fifo_run irpq_push irpq_pop ops irpq_new) = fst (fifo_run (list_push 31) list_pop ops [])"
  using fifo_run_results [OF irpq.run_abs [OF irpq_new_inv, of ops]]
  by (simp add: irpq_new_abs)

text \<open>
  The same for the per-CPU DPC queue with its full capacity of 128 entries, whose 16-bit head and
  tail counters wrap around any number of times.
\<close>

lemma dpcq_ops_fifo:
  "fst (fifo_run dpcq_enqueue dpcq_dequeue ops (dpcq_new noop))
    = fst (fifo_run (list_push 128) list_pop ops [])"
  using fifo_run_results [OF dpcq.run_abs [OF dpcq_new_inv [of noop], of ops]]
  by (simp add: dpcq_new_abs)

text \<open>
  The same as for the IRP queue holds for a work queue, which holds at most 63 items.
\<close>

lemma wq_ops_fifo:
  "fst (fifo_run (\<lambda>q (f, d). wq_push q f d) wq_pop ops wq_new)
    = fst (fifo_run (list_push 63) list_pop ops [])"
  using fifo_run_results [OF wq.run_abs [OF wq_new_inv, of ops]]
  by (simp add: wq_new_abs)


definition wm_example :: "int WorkQueueManager" where
  "wm_example = snd (push_low (snd (push_high (snd (push_low wm_new 1 0)) 2 0)) 3 0)"


text \<open>
  Dispatching DPCs below the nesting limit returns when callbacks do not queue more: all pending
  calls run once, in order, the queue ends empty and the nesting depth is what it was. At the limit
  nothing runs and nothing is lost.
\<close>

lemma dispatch_all_drains:
  assumes "dpcq_inv q"
  shows "\<exists>q'. dispatch_all (pure_dpc eff) (q, s) =
      (if unat (dq_depth q) < 10
       then Some (length (dpcq_abs q), q',
              fold (\<lambda>e. eff (dpc_function e) (dpc_context e)) (dpcq_abs q) s)
       else Some (0, q', s))
    \<and> dpcq_abs q' = (if unat (dq_depth q) < 10 then [] else dpcq_abs q)
    \<and> dq_depth q' = dq_depth q \<and> dpcq_has_pending q' = (dpcq_abs q' \<noteq> [])"
proof (cases "unat (dq_depth q) < 10")
  case True
  obtain q' where q': "dispatch_loop (pure_dpc eff) 0 (q \<lparr> dq_depth := dq_depth q + 1 \<rparr>, s)
      = Some (0 + length (dpcq_abs q), q',
          fold (\<lambda>e. eff (dpc_function e) (dpc_context e)) (dpcq_abs q) s)"
      "dpcq_inv q'" "dpcq_abs q' = []" "dq_depth q' = dq_depth q + 1"
    using dispatch_loop_drains [of "q \<lparr> dq_depth := dq_depth q + 1 \<rparr>", where eff = eff and n = 0 and s = s] assms
    by auto
  then show ?thesis using True
    by (intro exI [of _ "q' \<lparr> dq_depth := dq_depth q \<rparr>"])
      (simp add: dispatch_all_def dpcq_has_pending_iff)
next
  case False
  then show ?thesis using assms
    by (auto simp: dispatch_all_def dpcq_has_pending_iff)
qed

end
