(* ===== verification/Bytes.thy ===== *)
theory Bytes
  imports Prelude
begin

text \<open>
  Byte-level library shared by the on-disk and on-wire formats: Rust's \<open>Result\<close>, slices,
  little-endian conversion, UTF-8 validity (\<open>core::str::from_utf8\<close>) and ASCII case folding. A Rust
  string is the list of its UTF-8 bytes.
\<close>

section \<open>Results\<close>

datatype ('a, 'e) result = Ok 'a | Err 'e

fun result_bind :: "('a, 'e) result \<Rightarrow> ('a \<Rightarrow> ('b, 'e) result) \<Rightarrow> ('b, 'e) result" where
  "result_bind (Ok x) f = f x"
| "result_bind (Err e) f = Err e"

fun is_ok :: "('a, 'e) result \<Rightarrow> bool" where
  "is_ok (Ok x) = True"
| "is_ok (Err e) = False"

lemma result_bind_Ok_iff: "result_bind r f = Ok y \<longleftrightarrow> (\<exists>x. r = Ok x \<and> f x = Ok y)"
  by (cases r) auto

section \<open>Slices\<close>

definition slice :: "'a list \<Rightarrow> nat \<Rightarrow> nat \<Rightarrow> 'a list" where
  "slice xs a b = take (b - a) (drop a xs)"

lemma slice_append_mid [simp]: "a = length xs \<Longrightarrow> b = a + length ys \<Longrightarrow> slice (xs @ ys @ zs) a b = ys"
  by (simp add: slice_def)

lemma slice_append_end [simp]: "a = length xs \<Longrightarrow> b = a + length ys \<Longrightarrow> slice (xs @ ys) a b = ys"
  by (simp add: slice_def)

lemma length_slice: "b \<le> length xs \<Longrightarrow> length (slice xs a b) = b - a"
  by (simp add: slice_def)

lemma slice_shift: "slice (xs @ ys) (length xs + a) (length xs + b) = slice ys a b"
  by (simp add: slice_def)

lemma slice_concat:
  assumes "\<And>x. length (f x) = k"
  shows "i < length xs \<Longrightarrow> slice (concat (map f xs) @ r) (i * k) (i * k + k) = f (xs ! i)"
proof (induction xs arbitrary: i)
  case Nil
  then show ?case by simp
next
  case (Cons x xs)
  show ?case
  proof (cases i)
    case 0
    then show ?thesis using assms by (simp add: slice_def)
  next
    case (Suc j)
    have "slice (f x @ concat (map f xs) @ r) (length (f x) + j * k) (length (f x) + (j * k + k))
      = slice (concat (map f xs) @ r) (j * k) (j * k + k)" by (rule slice_shift)
    then show ?thesis using Cons Suc assms by (simp add: add.assoc)
  qed
qed

section \<open>Little-endian integers\<close>

fun le_bytes :: "nat \<Rightarrow> nat \<Rightarrow> bytes" where
  "le_bytes 0 n = []"
| "le_bytes (Suc k) n = of_nat n # le_bytes k (n div 256)"

fun le_nat :: "bytes \<Rightarrow> nat" where
  "le_nat [] = 0"
| "le_nat (b # bs) = unat b + 256 * le_nat bs"

lemma length_le_bytes [simp]: "length (le_bytes k n) = k"
  by (induction k arbitrary: n) auto

lemma unat_of_nat_u8: "unat (of_nat n :: u8) = n mod 256"
  by (simp add: unat_of_nat)

lemma le_nat_le_bytes: "n < 256 ^ k \<Longrightarrow> le_nat (le_bytes k n) = n"
proof (induction k arbitrary: n)
  case 0
  then show ?case by simp
next
  case (Suc k)
  then have "n div 256 < 256 ^ k" by (simp add: less_mult_imp_div_less mult.commute)
  then show ?case using Suc.IH by (simp add: unat_of_nat_u8)
qed

lemma le_nat_less: "le_nat bs < 256 ^ length bs"
proof (induction bs)
  case Nil
  then show ?case by simp
next
  case (Cons b bs)
  have "unat b < 256" using unat_bound [of b] by simp
  then show ?case using Cons by simp
qed

lemma le_bytes_le_nat: "le_bytes (length bs) (le_nat bs) = bs"
proof (induction bs)
  case Nil
  then show ?case by simp
next
  case (Cons b bs)
  have "unat b < 256" using unat_bound [of b] by simp
  then have "(unat b + 256 * le_nat bs) div 256 = le_nat bs" by simp
  moreover have "(of_nat (unat b + 256 * le_nat bs) :: u8) = b"
  proof -
    have "(256::u8) = 0" by simp
    then show ?thesis by (simp only: of_nat_add of_nat_mult of_nat_numeral) simp
  qed
  ultimately show ?case using Cons by simp
qed

definition u16_le :: "u16 \<Rightarrow> bytes" where "u16_le w = le_bytes 2 (unat w)"

definition u32_le :: "u32 \<Rightarrow> bytes" where "u32_le w = le_bytes 4 (unat w)"

definition u64_le :: "u64 \<Rightarrow> bytes" where "u64_le w = le_bytes 8 (unat w)"

definition le_u16 :: "bytes \<Rightarrow> u16" where "le_u16 bs = of_nat (le_nat bs)"

definition le_u32 :: "bytes \<Rightarrow> u32" where "le_u32 bs = of_nat (le_nat bs)"

definition le_u64 :: "bytes \<Rightarrow> u64" where "le_u64 bs = of_nat (le_nat bs)"

lemma le_u16_inverse [simp]: "le_u16 (u16_le w) = w"
  using unat_bound [of w] by (simp add: le_u16_def u16_le_def le_nat_le_bytes)

lemma le_u32_inverse [simp]: "le_u32 (u32_le w) = w"
  using unat_bound [of w] by (simp add: le_u32_def u32_le_def le_nat_le_bytes)

lemma le_u64_inverse [simp]: "le_u64 (u64_le w) = w"
  using unat_bound [of w] by (simp add: le_u64_def u64_le_def le_nat_le_bytes)

lemma length_u_le [simp]: "length (u16_le a) = 2" "length (u32_le b) = 4" "length (u64_le c) = 8"
  by (simp_all add: u16_le_def u32_le_def u64_le_def)

lemma unat_of_nat_u16 [simp]: "n < 65536 \<Longrightarrow> unat (of_nat n :: u16) = n"
  by (simp add: unat_of_nat)

lemma unat_of_nat_u32 [simp]: "n < 4294967296 \<Longrightarrow> unat (of_nat n :: u32) = n"
  by (simp add: unat_of_nat)

section \<open>UTF-8\<close>

definition in_range :: "nat \<Rightarrow> nat \<Rightarrow> u8 \<Rightarrow> bool" where
  "in_range a b x \<longleftrightarrow> a \<le> unat x \<and> unat x \<le> b"

text \<open>One well-formed scalar value is removed from the front, or nothing is.\<close>

fun utf8_char_len :: "bytes \<Rightarrow> nat option" where
  "utf8_char_len [] = None"
| "utf8_char_len (a # bs) =
    (if in_range 0 0x7F a then Some 1 else
     case bs of [] \<Rightarrow> None | b # cs \<Rightarrow>
     if in_range 0xC2 0xDF a \<and> in_range 0x80 0xBF b then Some 2 else
     case cs of [] \<Rightarrow> None | c # ds \<Rightarrow>
     if (in_range 0xE0 0xE0 a \<and> in_range 0xA0 0xBF b \<or> in_range 0xE1 0xEC a \<and> in_range 0x80 0xBF b
         \<or> in_range 0xED 0xED a \<and> in_range 0x80 0x9F b \<or> in_range 0xEE 0xEF a \<and> in_range 0x80 0xBF b)
        \<and> in_range 0x80 0xBF c then Some 3 else
     case ds of [] \<Rightarrow> None | d # _ \<Rightarrow>
     if (in_range 0xF0 0xF0 a \<and> in_range 0x90 0xBF b \<or> in_range 0xF1 0xF3 a \<and> in_range 0x80 0xBF b
         \<or> in_range 0xF4 0xF4 a \<and> in_range 0x80 0x8F b)
        \<and> in_range 0x80 0xBF c \<and> in_range 0x80 0xBF d then Some 4 else None)"

fun utf8_loop :: "nat \<Rightarrow> bytes \<Rightarrow> bool" where
  "utf8_loop fuel [] = True"
| "utf8_loop 0 (b # bs) = False"
| "utf8_loop (Suc fuel) (b # bs) =
    (case utf8_char_len (b # bs) of None \<Rightarrow> False | Some n \<Rightarrow> utf8_loop fuel (drop n (b # bs)))"

text \<open>Each step removes at least one byte, so the length of the input is enough fuel.\<close>

definition utf8_valid :: "bytes \<Rightarrow> bool" where
  "utf8_valid bs = utf8_loop (length bs) bs"

lemma ascii_utf8_loop:
  "\<forall>b\<in>set bs. unat b < 128 \<Longrightarrow> length bs \<le> fuel \<Longrightarrow> utf8_loop fuel bs"
proof (induction bs arbitrary: fuel)
  case Nil
  then show ?case by (cases fuel) auto
next
  case (Cons b bs)
  then show ?case by (cases fuel) (auto simp: in_range_def)
qed

lemma ascii_utf8_valid: "\<forall>b\<in>set bs. unat b < 128 \<Longrightarrow> utf8_valid bs"
  by (simp add: utf8_valid_def ascii_utf8_loop)

section \<open>ASCII\<close>

definition ascii :: "string \<Rightarrow> bytes" where
  "ascii s = map of_char s"

definition to_ascii_lower :: "u8 \<Rightarrow> u8" where
  "to_ascii_lower b = (if in_range 65 90 b then b + 32 else b)"

definition to_ascii_upper :: "u8 \<Rightarrow> u8" where
  "to_ascii_upper b = (if in_range 97 122 b then b - 32 else b)"

definition eq_ignore_ascii_case :: "bytes \<Rightarrow> bytes \<Rightarrow> bool" where
  "eq_ignore_ascii_case a b \<longleftrightarrow> map to_ascii_lower a = map to_ascii_lower b"

text \<open>Decimal formatting of unsigned integers (\<open>format!("{}", n)\<close>).\<close>

fun decimal :: "nat \<Rightarrow> bytes" where
  "decimal n = (if n < 10 then [of_nat (48 + n)] else decimal (n div 10) @ [of_nat (48 + n mod 10)])"

declare decimal.simps [simp del]

definition digits_value :: "bytes \<Rightarrow> nat" where
  "digits_value ds = foldl (\<lambda>v d. 10 * v + (unat d - 48)) 0 ds"

lemma digits_value_decimal: "digits_value (decimal n) = n"
proof (induction n rule: decimal.induct)
  case (1 n)
  have digit: "unat (of_nat (48 + d) :: u8) - 48 = d" if "d < 10" for d
    using that by (simp only: unat_of_nat_u8) simp
  show ?case
  proof (cases "n < 10")
    case True
    then show ?thesis using digit [of n] by (subst decimal.simps) (simp add: digits_value_def)
  next
    case False
    then show ?thesis
      using 1 digit [of "n mod 10"] by (subst decimal.simps) (simp add: digits_value_def)
  qed
qed

lemma decimal_inject [simp]: "decimal m = decimal n \<longleftrightarrow> m = n"
  by (metis digits_value_decimal)

lemma decimal_no_dash: "b \<in> set (decimal n) \<Longrightarrow> unat b \<noteq> 45"
proof (induction n rule: decimal.induct)
  case (1 n)
  have "unat (of_nat (48 + d) :: u8) \<noteq> 45" if "d < 10" for d
    using that by (simp only: unat_of_nat_u8) simp
  then show ?case using 1 by (subst (asm) (2) decimal.simps) (auto split: if_splits)
qed

text \<open>A sequence of dash-separated numbers determines the numbers.\<close>

lemma dashed_decimals_inject:
  "concat (map (\<lambda>n. 45 # decimal n) ns) = concat (map (\<lambda>n. (45::u8) # decimal n) ms) \<Longrightarrow> ns = ms"
proof (induction ns arbitrary: ms)
  case Nil
  then show ?case by (cases ms) auto
next
  case (Cons n ns)
  then obtain m ms' where ms: "ms = m # ms'" by (cases ms) auto
  let ?tail = "\<lambda>ks. concat (map (\<lambda>n. (45::u8) # decimal n) ks)"
  have eq: "decimal n @ ?tail ns = decimal m @ ?tail ms'" using Cons.prems ms by simp
  have pre: "takeWhile (\<lambda>b. b \<noteq> 45) (decimal k @ ?tail ks) = decimal k" for k ks
  proof -
    have "\<forall>b\<in>set (decimal k). b \<noteq> 45" using decimal_no_dash [of _ k] by fastforce
    then show ?thesis by (cases ks) (auto simp: takeWhile_append2 takeWhile_eq_all_conv)
  qed
  have "decimal n = decimal m" using pre [of n ns] pre [of m ms'] eq by simp
  then show ?case using Cons.IH [of ms'] eq ms by simp
qed

end
