(* ===== verification/Security.thy ===== *)
theory Security
  imports Bytes
begin

text \<open>
  Security identifiers, access control lists, tokens and the access check of
  neodos-kernel/src/security (sid.rs, acl.rs, token.rs, access.rs). The time-stamp counter read by
  \<open>token_timestamp\<close> is an argument \<open>now\<close>; the audit log is the list of records a check emits.
\<close>

section \<open>Security identifiers\<close>

abbreviation (input) SID_REVISION :: u8 where "SID_REVISION \<equiv> 1"
abbreviation (input) MAX_SUB_AUTHORITIES :: nat where "MAX_SUB_AUTHORITIES \<equiv> 8"
abbreviation (input) RID_ADMINISTRATOR :: u32 where "RID_ADMINISTRATOR \<equiv> 500"
abbreviation (input) RID_GUEST :: u32 where "RID_GUEST \<equiv> 501"
abbreviation (input) RID_USER :: u32 where "RID_USER \<equiv> 1000"

record Sid =
  sid_revision :: u8
  sub_authority_count :: u8
  identifier_authority :: bytes
  sub_authorities :: "u32 list"

definition sid_new :: Sid where
  "sid_new = \<lparr> sid_revision = SID_REVISION, sub_authority_count = 0,
     identifier_authority = replicate 6 0, sub_authorities = replicate MAX_SUB_AUTHORITIES 0 \<rparr>"

definition sid_from_parts :: "u8 \<Rightarrow> bytes \<Rightarrow> u32 list \<Rightarrow> Sid" where
  "sid_from_parts revision authority subs =
    (let count = min (length subs) MAX_SUB_AUTHORITIES in
     sid_new \<lparr> sid_revision := revision, identifier_authority := authority,
       sub_authority_count := of_nat count,
       sub_authorities := take count subs @ drop count (sub_authorities sid_new) \<rparr>)"

text \<open>\<open>u64::from_be_bytes\<close> of the six authority bytes after two zero bytes.\<close>

definition sid_authority_value :: "Sid \<Rightarrow> nat" where
  "sid_authority_value s = le_nat (rev (identifier_authority s))"

definition sid_format_string :: "Sid \<Rightarrow> bytes" where
  "sid_format_string s =
    ascii ''S-'' @ decimal (unat (sid_revision s)) @ ascii ''-'' @ decimal (sid_authority_value s)
    @ concat (map (\<lambda>i. ascii ''-'' @ decimal (unat (sub_authorities s ! i)))
        [0..<unat (sub_authority_count s)])"

definition sid_builtin_admin :: Sid where
  "sid_builtin_admin = sid_from_parts 1 [0, 0, 0, 0, 0, 5] [18]"

definition sid_builtin_system :: Sid where
  "sid_builtin_system = sid_builtin_admin"

definition sid_builtin_domain :: Sid where
  "sid_builtin_domain = sid_from_parts 1 [0, 0, 0, 0, 0, 5] [21, 0, 0, 0]"

definition sid_builtin_administrator :: Sid where
  "sid_builtin_administrator = sid_from_parts 1 [0, 0, 0, 0, 0, 5] [21, 0, 0, 0, RID_ADMINISTRATOR]"

definition sid_builtin_guest :: Sid where
  "sid_builtin_guest = sid_from_parts 1 [0, 0, 0, 0, 0, 5] [21, 0, 0, 0, RID_GUEST]"

definition sid_builtin_user :: Sid where
  "sid_builtin_user = sid_from_parts 1 [0, 0, 0, 0, 0, 5] [21, 0, 0, 0, RID_USER]"

definition WELL_KNOWN_SIDS :: "(bytes \<times> Sid) list" where
  "WELL_KNOWN_SIDS =
    [(ascii ''SYSTEM'', sid_builtin_system), (ascii ''Administrator'', sid_builtin_administrator),
     (ascii ''Guest'', sid_builtin_guest), (ascii ''Users'', sid_builtin_user)]"

definition well_known_sid :: "bytes \<Rightarrow> Sid option" where
  "well_known_sid name =
    map_option snd (find (\<lambda>(n, _). eq_ignore_ascii_case n name) WELL_KNOWN_SIDS)"

section \<open>Access control lists\<close>

abbreviation (input) ACE_TYPE_ACCESS_ALLOWED :: u8 where "ACE_TYPE_ACCESS_ALLOWED \<equiv> 0"
abbreviation (input) ACE_TYPE_ACCESS_DENIED :: u8 where "ACE_TYPE_ACCESS_DENIED \<equiv> 1"
abbreviation (input) ACE_TYPE_SYSTEM_AUDIT :: u8 where "ACE_TYPE_SYSTEM_AUDIT \<equiv> 2"
abbreviation (input) ACCESS_READ :: u32 where "ACCESS_READ \<equiv> 1"
abbreviation (input) ACCESS_WRITE :: u32 where "ACCESS_WRITE \<equiv> 2"
abbreviation (input) ACCESS_EXECUTE :: u32 where "ACCESS_EXECUTE \<equiv> 4"
abbreviation (input) ACCESS_DELETE :: u32 where "ACCESS_DELETE \<equiv> 8"
abbreviation (input) ACCESS_ALL :: u32 where "ACCESS_ALL \<equiv> 0xFFFF"

record Ace =
  ace_type :: u8
  ace_flags :: u8
  access_mask :: u32
  ace_sid :: Sid

definition ace_allow :: "Sid \<Rightarrow> u32 \<Rightarrow> Ace" where
  "ace_allow s m = \<lparr> ace_type = ACE_TYPE_ACCESS_ALLOWED, ace_flags = 0, access_mask = m, ace_sid = s \<rparr>"

definition ace_deny :: "Sid \<Rightarrow> u32 \<Rightarrow> Ace" where
  "ace_deny s m = \<lparr> ace_type = ACE_TYPE_ACCESS_DENIED, ace_flags = 0, access_mask = m, ace_sid = s \<rparr>"

record Acl =
  acl_revision :: u8
  aces :: "Ace list"

definition acl_new :: Acl where
  "acl_new = \<lparr> acl_revision = 2, aces = [] \<rparr>"

definition add_ace :: "Acl \<Rightarrow> Ace \<Rightarrow> Acl" where
  "add_ace acl ace = acl \<lparr> aces := aces acl @ [ace] \<rparr>"

definition insert_ace_canonical :: "Acl \<Rightarrow> Ace \<Rightarrow> Acl" where
  "insert_ace_canonical acl ace =
    (if ace_type ace = ACE_TYPE_ACCESS_DENIED then
       let pos = case position (\<lambda>a. ace_type a = ACE_TYPE_ACCESS_ALLOWED) (aces acl) of
                   Some p \<Rightarrow> p | None \<Rightarrow> length (aces acl)
       in acl \<lparr> aces := take pos (aces acl) @ [ace] @ drop pos (aces acl) \<rparr>
     else acl \<lparr> aces := aces acl @ [ace] \<rparr>)"

definition acl_is_empty :: "Acl \<Rightarrow> bool" where
  "acl_is_empty acl = (aces acl = [])"

record SecurityDescriptor =
  sd_revision :: u8
  sd_owner :: "Sid option"
  sd_group :: "Sid option"
  sd_dacl :: "Acl option"
  sd_sacl :: "Acl option"

definition sd_new :: SecurityDescriptor where
  "sd_new = \<lparr> sd_revision = 1, sd_owner = None, sd_group = None, sd_dacl = None, sd_sacl = None \<rparr>"

definition with_dacl :: "SecurityDescriptor \<Rightarrow> Acl \<Rightarrow> SecurityDescriptor" where
  "with_dacl sd dacl = sd \<lparr> sd_dacl := Some dacl \<rparr>"

definition with_sacl :: "SecurityDescriptor \<Rightarrow> Acl \<Rightarrow> SecurityDescriptor" where
  "with_sacl sd sacl = sd \<lparr> sd_sacl := Some sacl \<rparr>"

section \<open>Tokens\<close>

abbreviation (input) SE_CHANGE_NOTIFY_PRIVILEGE :: u64 where "SE_CHANGE_NOTIFY_PRIVILEGE \<equiv> 64"
abbreviation (input) SE_ADMIN_PRIVILEGES :: u64 where "SE_ADMIN_PRIVILEGES \<equiv> 0xFFFF"
abbreviation (input) SE_USER_PRIVILEGES :: u64 where "SE_USER_PRIVILEGES \<equiv> SE_CHANGE_NOTIFY_PRIVILEGE"

datatype IntegrityLevel = Untrusted | Low | Medium | High | System

fun integrity_to_u8 :: "IntegrityLevel \<Rightarrow> u8" where
  "integrity_to_u8 Untrusted = 0"
| "integrity_to_u8 Low = 1"
| "integrity_to_u8 Medium = 2"
| "integrity_to_u8 High = 3"
| "integrity_to_u8 System = 4"

definition integrity_from_u8 :: "u8 \<Rightarrow> IntegrityLevel option" where
  "integrity_from_u8 v =
    (if v = 0 then Some Untrusted else if v = 1 then Some Low else if v = 2 then Some Medium
     else if v = 3 then Some High else if v = 4 then Some System else None)"

record Token =
  tok_sid :: Sid
  tok_is_admin :: bool
  tok_groups :: "Sid list"
  tok_privileges :: u64
  tok_session_id :: u32
  tok_integrity :: IntegrityLevel
  tok_creation_time :: u64

definition default_integrity :: "bool \<Rightarrow> IntegrityLevel" where
  "default_integrity is_admin = (if is_admin then System else Medium)"

definition token_new :: "u64 \<Rightarrow> Sid \<Rightarrow> bool \<Rightarrow> Token" where
  "token_new now sid is_admin = \<lparr> tok_sid = sid, tok_is_admin = is_admin, tok_groups = [],
     tok_privileges = (if is_admin then SE_ADMIN_PRIVILEGES else SE_USER_PRIVILEGES),
     tok_session_id = 0, tok_integrity = default_integrity is_admin, tok_creation_time = now \<rparr>"

definition token_new_full :: "u64 \<Rightarrow> Sid \<Rightarrow> bool \<Rightarrow> Sid list \<Rightarrow> u64 \<Rightarrow> u32 \<Rightarrow> Token" where
  "token_new_full now sid is_admin groups privileges session_id =
    \<lparr> tok_sid = sid, tok_is_admin = is_admin, tok_groups = groups, tok_privileges = privileges,
      tok_session_id = session_id, tok_integrity = default_integrity is_admin,
      tok_creation_time = now \<rparr>"

definition token_new_admin :: "u64 \<Rightarrow> Token" where
  "token_new_admin now = \<lparr> tok_sid = sid_builtin_admin, tok_is_admin = True, tok_groups = [],
     tok_privileges = SE_ADMIN_PRIVILEGES, tok_session_id = 0, tok_integrity = System,
     tok_creation_time = now \<rparr>"

definition token_new_user :: "u64 \<Rightarrow> Token" where
  "token_new_user now = \<lparr> tok_sid = sid_builtin_user, tok_is_admin = False, tok_groups = [],
     tok_privileges = SE_USER_PRIVILEGES, tok_session_id = 1, tok_integrity = Medium,
     tok_creation_time = now \<rparr>"

definition add_group :: "Token \<Rightarrow> Sid \<Rightarrow> Token" where
  "add_group t g = (if g \<in> set (tok_groups t) then t else t \<lparr> tok_groups := tok_groups t @ [g] \<rparr>)"

definition is_in_group :: "Token \<Rightarrow> Sid \<Rightarrow> bool" where
  "is_in_group t g = (g \<in> set (tok_groups t))"

definition has_privilege :: "Token \<Rightarrow> u64 \<Rightarrow> bool" where
  "has_privilege t p = (tok_privileges t AND p \<noteq> 0)"

definition enable_privilege :: "Token \<Rightarrow> u64 \<Rightarrow> Token" where
  "enable_privilege t p = t \<lparr> tok_privileges := tok_privileges t OR p \<rparr>"

definition disable_privilege :: "Token \<Rightarrow> u64 \<Rightarrow> Token" where
  "disable_privilege t p = t \<lparr> tok_privileges := tok_privileges t AND NOT p \<rparr>"

definition set_integrity_level :: "Token \<Rightarrow> IntegrityLevel \<Rightarrow> Token" where
  "set_integrity_level t l = t \<lparr> tok_integrity := l \<rparr>"

definition token_inherit_from :: "u64 \<Rightarrow> Token \<Rightarrow> Token" where
  "token_inherit_from now parent = \<lparr> tok_sid = tok_sid parent, tok_is_admin = tok_is_admin parent,
     tok_groups = tok_groups parent, tok_privileges = tok_privileges parent,
     tok_session_id = tok_session_id parent, tok_integrity = tok_integrity parent,
     tok_creation_time = now \<rparr>"

section \<open>Access check\<close>

definition trustee_matches :: "Sid \<Rightarrow> Sid \<Rightarrow> Sid list \<Rightarrow> bool" where
  "trustee_matches ace token groups = (ace = token \<or> list_ex (\<lambda>g. g = ace) groups)"

text \<open>The two passes of \<open>check_dacl\<close>: the first returns on a covering Deny, the second on a covering Allow.\<close>

fun check_dacl_deny :: "Ace list \<Rightarrow> Sid \<Rightarrow> Sid list \<Rightarrow> u32 \<Rightarrow> bool" where
  "check_dacl_deny [] token groups desired = False"
| "check_dacl_deny (ace # rest) token groups desired =
    (if ace_type ace = ACE_TYPE_ACCESS_DENIED \<and> trustee_matches (ace_sid ace) token groups
        \<and> access_mask ace AND desired = desired
     then True else check_dacl_deny rest token groups desired)"

fun check_dacl_allow :: "Ace list \<Rightarrow> Sid \<Rightarrow> Sid list \<Rightarrow> u32 \<Rightarrow> bool" where
  "check_dacl_allow [] token groups desired = False"
| "check_dacl_allow (ace # rest) token groups desired =
    (if ace_type ace = ACE_TYPE_ACCESS_ALLOWED \<and> trustee_matches (ace_sid ace) token groups
        \<and> access_mask ace AND desired = desired
     then True else check_dacl_allow rest token groups desired)"

definition check_dacl :: "Acl \<Rightarrow> Sid \<Rightarrow> Sid list \<Rightarrow> u32 \<Rightarrow> bool" where
  "check_dacl dacl token groups desired =
    (if check_dacl_deny (aces dacl) token groups desired then False
     else check_dacl_allow (aces dacl) token groups desired)"

definition se_access_check_inner :: "Token \<Rightarrow> SecurityDescriptor option \<Rightarrow> u32 \<Rightarrow> bool" where
  "se_access_check_inner token sd desired =
    (if tok_is_admin token then True else
     case sd of None \<Rightarrow> True | Some s \<Rightarrow>
     (case sd_dacl s of None \<Rightarrow> True | Some dacl \<Rightarrow>
      if acl_is_empty dacl then False
      else check_dacl dacl (tok_sid token) (tok_groups token) desired))"

definition se_access_check_sid :: "Sid \<Rightarrow> bool \<Rightarrow> Acl option \<Rightarrow> u32 \<Rightarrow> bool" where
  "se_access_check_sid token_sid is_admin dacl desired =
    (if is_admin then True else
     case dacl of None \<Rightarrow> True | Some a \<Rightarrow>
     if acl_is_empty a then False else check_dacl a token_sid [] desired)"

record AuditRecord =
  audit_sid :: Sid
  audit_access :: u32
  audit_granted :: bool

definition se_audit ::
  "bool \<Rightarrow> Token \<Rightarrow> SecurityDescriptor option \<Rightarrow> u32 \<Rightarrow> bool \<Rightarrow> AuditRecord list" where
  "se_audit enabled token sd desired granted =
    (if \<not> enabled then [] else
     case sd of None \<Rightarrow> [] | Some s \<Rightarrow>
     (case sd_sacl s of None \<Rightarrow> [] | Some sacl \<Rightarrow>
      map (\<lambda>_. \<lparr> audit_sid = tok_sid token, audit_access = desired, audit_granted = granted \<rparr>)
        (filter (\<lambda>ace. ace_type ace = ACE_TYPE_SYSTEM_AUDIT
            \<and> trustee_matches (ace_sid ace) (tok_sid token) (tok_groups token)
            \<and> access_mask ace AND desired = desired) (aces sacl))))"

definition se_access_check ::
  "bool \<Rightarrow> Token \<Rightarrow> SecurityDescriptor option \<Rightarrow> u32 \<Rightarrow> bool \<times> AuditRecord list" where
  "se_access_check auditing token sd desired =
    (let granted = se_access_check_inner token sd desired
     in (granted, se_audit auditing token sd desired granted))"

section \<open>Well-formed identifiers and their text\<close>

definition sid_wf :: "Sid \<Rightarrow> bool" where
  "sid_wf s \<longleftrightarrow> length (identifier_authority s) = 6 \<and> length (sub_authorities s) = 8 \<and>
     unat (sub_authority_count s) \<le> 8 \<and>
     drop (unat (sub_authority_count s)) (sub_authorities s) = replicate (8 - unat (sub_authority_count s)) 0"

lemma sid_from_parts_wf: "length auth = 6 \<Longrightarrow> sid_wf (sid_from_parts r auth subs)"
proof -
  assume "length auth = 6"
  have "unat (of_nat (min (length subs) 8) :: u8) = min (length subs) 8"
    by (simp add: unat_of_nat)
  then show ?thesis using \<open>length auth = 6\<close>
    by (simp add: sid_wf_def sid_from_parts_def sid_new_def Let_def)
qed

lemma sid_eq_from_parts:
  assumes "sid_wf s"
  shows "sid_from_parts (sid_revision s) (identifier_authority s)
    (take (unat (sub_authority_count s)) (sub_authorities s)) = s"
proof -
  let ?n = "unat (sub_authority_count s)"
  have "take ?n (sub_authorities s) @ replicate (8 - ?n) 0 = sub_authorities s"
    using assms by (metis append_take_drop_id sid_wf_def)
  moreover have "min (length (take ?n (sub_authorities s))) 8 = ?n"
    using assms by (simp add: sid_wf_def)
  ultimately show ?thesis
    by (simp add: sid_from_parts_def sid_new_def Let_def del: length_take)
qed

lemma sid_format_numbers:
  "sid_format_string s = ascii ''S'' @ concat (map (\<lambda>n. 45 # decimal n)
     (unat (sid_revision s) # sid_authority_value s #
      map (\<lambda>i. unat (sub_authorities s ! i)) [0..<unat (sub_authority_count s)]))"
  by (simp add: sid_format_string_def ascii_def comp_def of_char_def)

lemma le_nat_inject: "length bs = length cs \<Longrightarrow> le_nat bs = le_nat cs \<Longrightarrow> bs = cs"
  by (metis le_bytes_le_nat)

section \<open>Properties\<close>

text \<open>
  The printed form of a security identifier determines it: two well-formed identifiers with the
  same text are equal in every field.
\<close>

lemma sid_format_string_inject:
  assumes "sid_wf s" and "sid_wf t" and "sid_format_string s = sid_format_string t"
  shows "s = t"
proof -
  have nums: "unat (sid_revision s) = unat (sid_revision t)" "sid_authority_value s = sid_authority_value t"
      "map (\<lambda>i. unat (sub_authorities s ! i)) [0..<unat (sub_authority_count s)]
       = map (\<lambda>i. unat (sub_authorities t ! i)) [0..<unat (sub_authority_count t)]"
    using dashed_decimals_inject assms(3) unfolding sid_format_numbers by blast+
  then have count: "unat (sub_authority_count s) = unat (sub_authority_count t)"
    by (metis length_map length_upt minus_nat.diff_0)
  then have "\<forall>i<unat (sub_authority_count t). sub_authorities s ! i = sub_authorities t ! i"
    using nums(3) by (simp add: word_unat_eq_iff)
  then have "take (unat (sub_authority_count s)) (sub_authorities s)
      = take (unat (sub_authority_count t)) (sub_authorities t)"
    using count assms(1,2) by (intro nth_equalityI) (auto simp: sid_wf_def)
  moreover have "identifier_authority s = identifier_authority t"
    using nums(2) le_nat_inject [of "rev (identifier_authority s)" "rev (identifier_authority t)"] assms(1,2)
    by (simp add: sid_authority_value_def sid_wf_def)
  moreover have "sid_revision s = sid_revision t" using nums(1) by (simp add: word_unat_eq_iff)
  ultimately show ?thesis
    using sid_eq_from_parts [OF assms(1)] sid_eq_from_parts [OF assms(2)] by metis
qed

text \<open>What it means that an entry speaks about a token and covers a request.\<close>

definition ace_covers :: "Token \<Rightarrow> u32 \<Rightarrow> Ace \<Rightarrow> bool" where
  "ace_covers t want a \<longleftrightarrow>
    (ace_sid a = tok_sid t \<or> is_in_group t (ace_sid a)) \<and> access_mask a AND want = want"

lemma check_dacl_deny_iff:
  "check_dacl_deny as (tok_sid t) (tok_groups t) want \<longleftrightarrow>
    (\<exists>a\<in>set as. ace_type a = ACE_TYPE_ACCESS_DENIED \<and> ace_covers t want a)"
  by (induction as) (auto simp: ace_covers_def trustee_matches_def is_in_group_def list_ex_iff)

lemma check_dacl_allow_iff:
  "check_dacl_allow as (tok_sid t) (tok_groups t) want \<longleftrightarrow>
    (\<exists>a\<in>set as. ace_type a = ACE_TYPE_ACCESS_ALLOWED \<and> ace_covers t want a)"
  by (induction as) (auto simp: ace_covers_def trustee_matches_def is_in_group_def list_ex_iff)

text \<open>
  C6. The access decision: an administrator, an object without descriptor and a NULL DACL are granted;
  otherwise access is granted exactly when some Allow entry for the token or one of its groups covers
  the request and no Deny entry does, whatever the order of the list and whether auditing is on. An
  empty list therefore denies everything, even an empty request.
\<close>

theorem se_access_check_decision:
  "fst (se_access_check auditing t sd want) \<longleftrightarrow>
    tok_is_admin t \<or> sd = None \<or> (\<exists>s. sd = Some s \<and> (sd_dacl s = None \<or>
      (\<exists>d. sd_dacl s = Some d
         \<and> (\<exists>a\<in>set (aces d). ace_type a = ACE_TYPE_ACCESS_ALLOWED \<and> ace_covers t want a)
         \<and> \<not> (\<exists>a\<in>set (aces d). ace_type a = ACE_TYPE_ACCESS_DENIED \<and> ace_covers t want a))))"
  by (auto simp: se_access_check_def se_access_check_inner_def check_dacl_def acl_is_empty_def Let_def
      check_dacl_deny_iff check_dacl_allow_iff split: option.splits)

text \<open>No Allow entry stands before a Deny entry.\<close>

definition acl_canonical :: "Acl \<Rightarrow> bool" where
  "acl_canonical acl \<longleftrightarrow> sorted_wrt
    (\<lambda>a b. \<not> (ace_type a = ACE_TYPE_ACCESS_ALLOWED \<and> ace_type b = ACE_TYPE_ACCESS_DENIED)) (aces acl)"

lemma insert_ace_canonical_step:
  assumes "acl_canonical acl"
  shows "acl_canonical (insert_ace_canonical acl ace)"
    and "filter (\<lambda>a. ace_type a = ACE_TYPE_ACCESS_DENIED) (aces (insert_ace_canonical acl ace))
      = filter (\<lambda>a. ace_type a = ACE_TYPE_ACCESS_DENIED) (aces acl @ [ace])"
    and "filter (\<lambda>a. ace_type a \<noteq> ACE_TYPE_ACCESS_DENIED) (aces (insert_ace_canonical acl ace))
      = filter (\<lambda>a. ace_type a \<noteq> ACE_TYPE_ACCESS_DENIED) (aces acl @ [ace])"
proof -
  let ?allow = "\<lambda>a. ace_type a = ACE_TYPE_ACCESS_ALLOWED" and ?deny = "\<lambda>a. ace_type a = ACE_TYPE_ACCESS_DENIED"
  define pos where "pos = (case position ?allow (aces acl) of Some p \<Rightarrow> p | None \<Rightarrow> length (aces acl))"
  have pre: "\<forall>a\<in>set (take pos (aces acl)). \<not> ?allow a"
    by (auto simp: pos_def position_None_iff position_Some_iff in_set_conv_nth split: option.splits)
  have post: "\<forall>a\<in>set (drop pos (aces acl)). \<not> ?deny a"
  proof (cases "position ?allow (aces acl)")
    case None
    then show ?thesis by (simp add: pos_def)
  next
    case (Some p)
    then have p: "p < length (aces acl)" "?allow (aces acl ! p)" by (auto simp: position_Some_iff)
    then have "drop p (aces acl) = aces acl ! p # drop (Suc p) (aces acl)" by (simp add: Cons_nth_drop_Suc)
    moreover have "sorted_wrt (\<lambda>a b. \<not> (?allow a \<and> ?deny b)) (drop p (aces acl))"
      using assms by (simp add: acl_canonical_def sorted_wrt_drop)
    ultimately show ?thesis using p Some by (auto simp: pos_def)
  qed
  have split: "aces acl = take pos (aces acl) @ drop pos (aces acl)" by simp
  show "acl_canonical (insert_ace_canonical acl ace)"
  proof (cases "?deny ace")
    case True
    then have "aces (insert_ace_canonical acl ace) = take pos (aces acl) @ [ace] @ drop pos (aces acl)"
      by (simp add: insert_ace_canonical_def pos_def Let_def)
    moreover have "sorted_wrt (\<lambda>a b. \<not> (?allow a \<and> ?deny b)) (take pos (aces acl) @ drop pos (aces acl))"
      using assms by (simp add: acl_canonical_def)
    ultimately show ?thesis using True pre post
      by (auto simp: acl_canonical_def sorted_wrt_append)
  next
    case False
    then show ?thesis using assms
      by (auto simp: insert_ace_canonical_def acl_canonical_def sorted_wrt_append)
  qed
  have "filter ?deny (drop pos (aces acl)) = []" using post by (simp add: filter_empty_conv)
  then show "filter ?deny (aces (insert_ace_canonical acl ace)) = filter ?deny (aces acl @ [ace])"
    using arg_cong [OF split, of "filter ?deny"]
    by (simp add: insert_ace_canonical_def pos_def [symmetric] Let_def del: append_take_drop_id)
  show "filter (\<lambda>a. \<not> ?deny a) (aces (insert_ace_canonical acl ace)) = filter (\<lambda>a. \<not> ?deny a) (aces acl @ [ace])"
    using arg_cong [OF split, of "filter (\<lambda>a. \<not> ?deny a)"]
    by (simp add: insert_ace_canonical_def pos_def [symmetric] Let_def del: append_take_drop_id)
qed

text \<open>
  A list built by canonical insertion, from whatever sequence of entries, has every Deny before
  every Allow, loses no entry, and keeps the order of insertion within the Deny entries and within
  the others.
\<close>

lemma insert_ace_canonical_builds:
  "acl_canonical (foldl insert_ace_canonical acl_new as) \<and>
   filter (\<lambda>a. ace_type a = ACE_TYPE_ACCESS_DENIED) (aces (foldl insert_ace_canonical acl_new as))
     = filter (\<lambda>a. ace_type a = ACE_TYPE_ACCESS_DENIED) as \<and>
   filter (\<lambda>a. ace_type a \<noteq> ACE_TYPE_ACCESS_DENIED) (aces (foldl insert_ace_canonical acl_new as))
     = filter (\<lambda>a. ace_type a \<noteq> ACE_TYPE_ACCESS_DENIED) as"
proof (induction as rule: rev_induct)
  case Nil
  then show ?case by (simp add: acl_new_def acl_canonical_def)
next
  case (snoc a as)
  then show ?case
    using insert_ace_canonical_step [of "foldl insert_ace_canonical acl_new as" a] by simp
qed

text \<open>
  A Deny entry only counts when it covers the whole request: a user who is denied writing and
  allowed reading and writing is refused a write, yet granted a request for both at once.
\<close>

lemma partial_deny_is_ignored:
  "let dacl = foldl insert_ace_canonical acl_new
         [ace_allow sid_builtin_user (ACCESS_READ OR ACCESS_WRITE), ace_deny sid_builtin_user ACCESS_WRITE];
       sd = Some (with_dacl sd_new dacl);
       check = (\<lambda>want. fst (se_access_check False (token_new_user now) sd want))
   in \<not> check ACCESS_WRITE \<and> check (ACCESS_READ OR ACCESS_WRITE)"
  by (simp add: insert_ace_canonical_def acl_new_def ace_allow_def ace_deny_def
      with_dacl_def sd_new_def se_access_check_def se_access_check_inner_def token_new_user_def
      acl_is_empty_def check_dacl_def trustee_matches_def)

end
