(* ===== verification/Sam.thy ===== *)
theory Sam
  imports Security
begin

text \<open>
  The account database of neodos-kernel/src/security/sam.rs: the in-memory table and its binary
  form. The parser keeps the source's absolute offsets, its alignment steps and every error return;
  the main result is that it reads back what the serialiser writes.
\<close>

definition SAM_MAGIC :: bytes where "SAM_MAGIC = ascii ''SAM'' @ [0]"
abbreviation (input) SAM_VERSION :: u32 where "SAM_VERSION \<equiv> 1"
abbreviation (input) MAX_SAM_ENTRIES :: u32 where "MAX_SAM_ENTRIES \<equiv> 64"
abbreviation (input) SAM_FLAG_ADMIN :: u32 where "SAM_FLAG_ADMIN \<equiv> 1"
abbreviation (input) SAM_FLAG_DISABLED :: u32 where "SAM_FLAG_DISABLED \<equiv> 2"
abbreviation (input) SAM_FLAG_LOCKED :: u32 where "SAM_FLAG_LOCKED \<equiv> 4"

datatype SamError =
  BadMagic | BadVersion | Truncated | TooManyEntries | InvalidSid | UsernameTooLong | EntryNotFound

record SamEntry =
  sam_username :: bytes
  sam_sid :: Sid
  sam_flags :: u32
  sam_full_name :: bytes
  sam_comment :: bytes

definition sam_entry_new :: "bytes \<Rightarrow> Sid \<Rightarrow> bool \<Rightarrow> SamEntry" where
  "sam_entry_new username sid is_admin =
    \<lparr> sam_username = username, sam_sid = sid, sam_flags = (if is_admin then SAM_FLAG_ADMIN else 0),
      sam_full_name = [], sam_comment = [] \<rparr>"

definition sam_entry_is_admin :: "SamEntry \<Rightarrow> bool" where
  "sam_entry_is_admin e = (sam_flags e AND SAM_FLAG_ADMIN \<noteq> 0)"

definition sam_entry_is_disabled :: "SamEntry \<Rightarrow> bool" where
  "sam_entry_is_disabled e = (sam_flags e AND SAM_FLAG_DISABLED \<noteq> 0)"

definition sam_entry_is_locked :: "SamEntry \<Rightarrow> bool" where
  "sam_entry_is_locked e = (sam_flags e AND SAM_FLAG_LOCKED \<noteq> 0)"

section \<open>Table\<close>

type_synonym SamDatabase = "SamEntry list"

definition sam_add_user :: "SamDatabase \<Rightarrow> SamEntry \<Rightarrow> (unit, SamError) result \<times> SamDatabase" where
  "sam_add_user db e =
    (if length db \<ge> unat MAX_SAM_ENTRIES then (Err TooManyEntries, db) else (Ok (), db @ [e]))"

definition sam_with_builtins :: SamDatabase where
  "sam_with_builtins =
    (let db0 = [];
         admin = (sam_entry_new (ascii ''Administrator'') sid_builtin_administrator True)
           \<lparr> sam_full_name := ascii ''Administrator'', sam_comment := ascii ''Built-in administrative account'' \<rparr>;
         db1 = snd (sam_add_user db0 admin);
         guest0 = sam_entry_new (ascii ''Guest'') sid_builtin_guest False;
         guest = guest0 \<lparr> sam_flags := sam_flags guest0 OR SAM_FLAG_DISABLED, sam_full_name := ascii ''Guest'',
           sam_comment := ascii ''Built-in guest account (disabled)'' \<rparr>;
         db2 = snd (sam_add_user db1 guest);
         system = (sam_entry_new (ascii ''SYSTEM'') sid_builtin_system True)
           \<lparr> sam_full_name := ascii ''Local System'', sam_comment := ascii ''Operating system account'' \<rparr>
     in snd (sam_add_user db2 system))"

definition sam_find_by_username :: "SamDatabase \<Rightarrow> bytes \<Rightarrow> SamEntry option" where
  "sam_find_by_username db name = find (\<lambda>e. eq_ignore_ascii_case (sam_username e) name) db"

definition sam_find_by_sid :: "SamDatabase \<Rightarrow> Sid \<Rightarrow> SamEntry option" where
  "sam_find_by_sid db sid = find (\<lambda>e. sam_sid e = sid) db"

definition sam_remove_user :: "SamDatabase \<Rightarrow> bytes \<Rightarrow> bool \<times> SamDatabase" where
  "sam_remove_user db name =
    (case position (\<lambda>e. eq_ignore_ascii_case (sam_username e) name) db of
       Some i \<Rightarrow> (True, take i db @ drop (Suc i) db)
     | None \<Rightarrow> (False, db))"

definition sam_is_admin :: "SamDatabase \<Rightarrow> bytes \<Rightarrow> bool" where
  "sam_is_admin db name =
    (case sam_find_by_username db name of None \<Rightarrow> False | Some e \<Rightarrow> sam_entry_is_admin e)"

section \<open>Parsing\<close>

definition pad_to_4 :: "nat \<Rightarrow> nat" where
  "pad_to_4 n = 4 * ((n + 3) div 4)"

text \<open>
  A length-prefixed string at \<open>offset\<close>, followed by alignment; this is the code used for the user
  name, the full name and the comment.
\<close>

definition parse_sam_string :: "bytes \<Rightarrow> nat \<Rightarrow> (bytes \<times> nat, SamError) result" where
  "parse_sam_string data offset =
    (if offset + 2 > length data then Err Truncated else
     let n = unat (le_u16 (slice data offset (offset + 2))); offset = offset + 2 in
     if offset + n > length data then Err Truncated else
     let s = slice data offset (offset + n) in
     if \<not> utf8_valid s then Err InvalidSid else Ok (s, pad_to_4 (offset + n)))"

definition parse_sam_sid :: "bytes \<Rightarrow> nat \<Rightarrow> (Sid \<times> nat, SamError) result" where
  "parse_sam_sid data offset =
    (if offset + 8 > length data then Err Truncated else
     let revision = data ! offset;
         sub_count = unat (data ! (offset + 1));
         authority = slice data (offset + 2) (offset + 8);
         offset = offset + 8 in
     if sub_count > MAX_SUB_AUTHORITIES \<or> offset + sub_count * 4 > length data then Err Truncated else
     let subs = map (\<lambda>i. le_u32 (slice data (offset + i * 4) (offset + i * 4 + 4))) [0..<sub_count]
     in Ok (sid_from_parts revision authority subs, pad_to_4 (offset + sub_count * 4)))"

definition parse_sam_entry :: "bytes \<Rightarrow> nat \<Rightarrow> (SamEntry \<times> nat, SamError) result" where
  "parse_sam_entry data offset =
    result_bind (parse_sam_string data offset) (\<lambda>(username, offset).
    result_bind (parse_sam_sid data offset) (\<lambda>(sid, offset).
    if offset + 4 > length data then Err Truncated else
    let flags = le_u32 (slice data offset (offset + 4)); offset = offset + 4 in
    result_bind (parse_sam_string data offset) (\<lambda>(full_name, offset).
    result_bind (parse_sam_string data offset) (\<lambda>(comment, offset).
    Ok (\<lparr> sam_username = username, sam_sid = sid, sam_flags = flags, sam_full_name = full_name,
          sam_comment = comment \<rparr>, offset)))))"

fun parse_sam_loop :: "nat \<Rightarrow> bytes \<Rightarrow> nat \<Rightarrow> SamDatabase \<Rightarrow> (SamDatabase, SamError) result" where
  "parse_sam_loop 0 data offset db = Ok db"
| "parse_sam_loop (Suc count) data offset db =
    result_bind (parse_sam_entry data offset) (\<lambda>(e, offset). parse_sam_loop count data offset (db @ [e]))"

definition parse_sam :: "bytes \<Rightarrow> (SamDatabase, SamError) result" where
  "parse_sam data =
    (if length data < 16 then Err Truncated
     else if slice data 0 4 \<noteq> SAM_MAGIC then Err BadMagic
     else if le_u32 (slice data 4 8) \<noteq> SAM_VERSION then Err BadVersion
     else let count = le_u32 (slice data 8 12) in
       if count > MAX_SAM_ENTRIES then Err TooManyEntries
       else parse_sam_loop (unat count) data 16 [])"

section \<open>Serialising\<close>

definition pad_buf :: "bytes \<Rightarrow> bytes" where
  "pad_buf buf = buf @ replicate (pad_to_4 (length buf) - length buf) 0"

definition put_sam_string :: "bytes \<Rightarrow> bytes \<Rightarrow> bytes" where
  "put_sam_string buf s = pad_buf (buf @ u16_le (of_nat (length s)) @ s)"

definition put_sam_sid :: "bytes \<Rightarrow> Sid \<Rightarrow> bytes" where
  "put_sam_sid buf sid =
    pad_buf (buf @ [sid_revision sid, sub_authority_count sid] @ identifier_authority sid
      @ concat (map (\<lambda>i. u32_le (sub_authorities sid ! i)) [0..<unat (sub_authority_count sid)]))"

definition put_sam_entry :: "bytes \<Rightarrow> SamEntry \<Rightarrow> bytes" where
  "put_sam_entry buf e =
    (let buf = put_sam_string buf (sam_username e);
         buf = put_sam_sid buf (sam_sid e);
         buf = buf @ u32_le (sam_flags e);
         buf = put_sam_string buf (sam_full_name e)
     in put_sam_string buf (sam_comment e))"

definition serialize_sam :: "SamDatabase \<Rightarrow> (bytes, SamError) result" where
  "serialize_sam db =
    Ok (foldl put_sam_entry
      (SAM_MAGIC @ u32_le SAM_VERSION @ u32_le (of_nat (length db)) @ replicate 4 0) db)"

section \<open>Round trip\<close>

definition sam_entry_wf :: "SamEntry \<Rightarrow> bool" where
  "sam_entry_wf e \<longleftrightarrow> sid_wf (sam_sid e) \<and>
    (\<forall>s\<in>{sam_username e, sam_full_name e, sam_comment e}. utf8_valid s \<and> length s < 65536)"

lemma pad_buf_length [simp]: "length (pad_buf buf) = pad_to_4 (length buf)"
  by (simp add: pad_buf_def pad_to_4_def)

lemma pad_buf_prefix: "\<exists>zs. pad_buf buf = buf @ zs"
  by (simp add: pad_buf_def)

lemma pad_to_4_ge: "n \<le> pad_to_4 n"
  unfolding pad_to_4_def by linarith

lemma parse_put_sam_string:
  assumes "utf8_valid s" and "length s < 65536"
  shows "parse_sam_string (put_sam_string buf s @ rest) (length buf)
    = Ok (s, length (put_sam_string buf s))"
proof -
  obtain zs where zs: "put_sam_string buf s = buf @ u16_le (of_nat (length s)) @ s @ zs"
    using pad_buf_prefix [of "buf @ u16_le (of_nat (length s)) @ s"] by (auto simp: put_sam_string_def)
  have "slice ((buf @ u16_le (of_nat (length s))) @ s @ (zs @ rest)) (length buf + 2) (length buf + 2 + length s) = s"
    by (rule slice_append_mid) simp_all
  moreover have "length (put_sam_string buf s) = pad_to_4 (length buf + 2 + length s)"
    by (simp add: put_sam_string_def add.assoc)
  ultimately show ?thesis
    using assms by (simp add: parse_sam_string_def Let_def zs)
qed

lemma parse_put_sam_sid:
  assumes "sid_wf sid"
  shows "parse_sam_sid (put_sam_sid buf sid @ rest) (length buf) = Ok (sid, length (put_sam_sid buf sid))"
proof -
  define n where "n = unat (sub_authority_count sid)"
  define subs where "subs = take n (sub_authorities sid)"
  define head where "head = buf @ [sid_revision sid, sub_authority_count sid] @ identifier_authority sid"
  have wf: "length (identifier_authority sid) = 6" "n \<le> 8" "length subs = n"
    using assms by (auto simp: sid_wf_def n_def subs_def)
  have subs: "map (\<lambda>i. u32_le (sub_authorities sid ! i)) [0..<n] = map u32_le subs"
    using assms wf by (auto simp: sid_wf_def subs_def n_def intro: nth_equalityI)
  have len: "length (concat (map u32_le xs)) = 4 * length xs" for xs
    by (induction xs) auto
  obtain zs where zs: "put_sam_sid buf sid = head @ concat (map u32_le subs) @ zs"
    using pad_buf_prefix [of "head @ concat (map u32_le subs)"]
    by (auto simp: put_sam_sid_def head_def subs n_def [symmetric])
  have "slice (head @ concat (map u32_le subs) @ zs @ rest) (length head + i * 4) (length head + i * 4 + 4)
      = u32_le (subs ! i)" if "i < n" for i
    using that wf slice_shift [of head _ "i * 4" "i * 4 + 4"]
      slice_concat [where f = u32_le and xs = subs and k = 4 and r = "zs @ rest" and i = i]
    by (simp add: add.assoc)
  moreover have lh: "length head = length buf + 8" using wf by (simp add: head_def)
  ultimately have "map (\<lambda>i. le_u32 (slice (put_sam_sid buf sid @ rest) (length buf + 8 + i * 4)
      (length buf + 8 + i * 4 + 4))) [0..<n] = subs"
    using wf by (auto simp: zs intro: nth_equalityI)
  moreover have "slice (put_sam_sid buf sid @ rest) (length buf + 2) (length buf + 8) = identifier_authority sid"
    using wf slice_append_mid [of "length buf + 2" "buf @ [sid_revision sid, sub_authority_count sid]"
        "length buf + 8" "identifier_authority sid" "concat (map u32_le subs) @ zs @ rest"]
    by (simp add: zs head_def)
  moreover have "(put_sam_sid buf sid @ rest) ! length buf = sid_revision sid"
      "(put_sam_sid buf sid @ rest) ! (length buf + 1) = sub_authority_count sid"
    by (simp_all add: zs head_def nth_append)
  moreover have "length (put_sam_sid buf sid) = pad_to_4 (length buf + 8 + n * 4)"
    using wf by (simp add: put_sam_sid_def subs n_def [symmetric] len)
      (simp add: add.commute add.left_commute mult.commute)
  moreover have "length buf + 8 + n * 4 \<le> length (put_sam_sid buf sid @ rest)"
    using len [of subs] wf lh by (simp add: zs)
  moreover have "sid_from_parts (sid_revision sid) (identifier_authority sid) subs = sid"
    unfolding subs_def n_def by (rule sid_eq_from_parts [OF assms])
  ultimately show ?thesis
    using wf by (simp add: parse_sam_sid_def Let_def n_def [symmetric])
qed

lemma put_sam_string_prefix: "\<exists>ys. put_sam_string buf s = buf @ ys"
  using pad_buf_prefix [of "buf @ u16_le (of_nat (length s)) @ s"] by (auto simp: put_sam_string_def)

lemma put_sam_sid_prefix: "\<exists>ys. put_sam_sid buf s = buf @ ys"
  unfolding put_sam_sid_def using pad_buf_prefix by (metis append.assoc)

lemma parse_put_sam_entry:
  assumes "sam_entry_wf e"
  shows "parse_sam_entry (put_sam_entry buf e @ rest) (length buf) = Ok (e, length (put_sam_entry buf e))"
proof -
  define b1 where "b1 = put_sam_string buf (sam_username e)"
  define b2 where "b2 = put_sam_sid b1 (sam_sid e)"
  define b3 where "b3 = b2 @ u32_le (sam_flags e)"
  define b4 where "b4 = put_sam_string b3 (sam_full_name e)"
  define b5 where "b5 = put_sam_string b4 (sam_comment e)"
  have b5: "put_sam_entry buf e = b5"
    by (simp add: put_sam_entry_def Let_def b1_def b2_def b3_def b4_def b5_def)
  obtain y4 where y4: "b5 = b4 @ y4" using put_sam_string_prefix by (metis b5_def)
  obtain y3 where y3: "b4 = b3 @ y3" using put_sam_string_prefix by (metis b4_def)
  obtain y1 where y1: "b2 = b1 @ y1" using put_sam_sid_prefix by (metis b2_def)
  note wf = assms [unfolded sam_entry_wf_def]
  have "parse_sam_string (b5 @ rest) (length buf) = Ok (sam_username e, length b1)"
    using parse_put_sam_string [of "sam_username e" buf "y1 @ u32_le (sam_flags e) @ y3 @ y4 @ rest"] wf
    by (simp add: y4 y3 b3_def y1 flip: b1_def)
  moreover have "parse_sam_sid (b5 @ rest) (length b1) = Ok (sam_sid e, length b2)"
    using parse_put_sam_sid [of "sam_sid e" b1 "u32_le (sam_flags e) @ y3 @ y4 @ rest"] wf
    by (simp add: y4 y3 b3_def flip: b2_def)
  moreover have "le_u32 (slice (b5 @ rest) (length b2) (length b2 + 4)) = sam_flags e" "length b2 + 4 = length b3"
    by (simp_all add: y4 y3 b3_def)
  moreover have "length b3 \<le> length (b5 @ rest)" by (simp add: y4 y3)
  moreover have "parse_sam_string (b5 @ rest) (length b3) = Ok (sam_full_name e, length b4)"
    using parse_put_sam_string [of "sam_full_name e" b3 "y4 @ rest"] wf by (simp add: y4 flip: b4_def)
  moreover have "parse_sam_string (b5 @ rest) (length b4) = Ok (sam_comment e, length b5)"
    using parse_put_sam_string [of "sam_comment e" b4 rest] wf by (simp flip: b5_def)
  ultimately show ?thesis by (simp add: parse_sam_entry_def b5 Let_def)
qed

lemma put_sam_entry_prefix: "\<exists>ys. put_sam_entry buf e = buf @ ys"
  unfolding put_sam_entry_def Let_def
  by (metis append.assoc put_sam_string_prefix put_sam_sid_prefix)

lemma put_sam_entries_prefix: "\<exists>ys. foldl put_sam_entry buf es = buf @ ys"
proof (induction es arbitrary: buf)
  case Nil
  then show ?case by simp
next
  case (Cons e es)
  then show ?case using put_sam_entry_prefix [of buf e] by (metis append.assoc foldl_Cons)
qed

lemma parse_sam_loop_entries:
  "list_all sam_entry_wf es \<Longrightarrow>
   parse_sam_loop (length es) (foldl put_sam_entry buf es @ rest) (length buf) db = Ok (db @ es)"
proof (induction es arbitrary: buf db)
  case Nil
  then show ?case by simp
next
  case (Cons e es)
  obtain ys where ys: "foldl put_sam_entry (put_sam_entry buf e) es = put_sam_entry buf e @ ys"
    using put_sam_entries_prefix by blast
  have "parse_sam_entry (foldl put_sam_entry buf (e # es) @ rest) (length buf)
      = Ok (e, length (put_sam_entry buf e))"
    using parse_put_sam_entry [of e buf "ys @ rest"] Cons.prems by (simp add: ys)
  then show ?case using Cons.IH [of "put_sam_entry buf e" "db @ [e]"] Cons.prems by simp
qed

text \<open>
  C7. Loading what was saved gives the same account database, for every database of at most 64
  entries whose names and comments are valid strings shorter than 65536 bytes and whose identifiers
  are well formed.
\<close>

theorem parse_serialize_sam:
  assumes "length db \<le> 64" and "list_all sam_entry_wf db"
  shows "result_bind (serialize_sam db) parse_sam = Ok db"
proof -
  define hd where "hd = SAM_MAGIC @ u32_le SAM_VERSION @ u32_le (of_nat (length db)) @ replicate 4 (0::u8)"
  obtain ys where ys: "foldl put_sam_entry hd db = hd @ ys"
    using put_sam_entries_prefix by blast
  have magic: "length SAM_MAGIC = 4" by (simp add: SAM_MAGIC_def ascii_def)
  then have len: "length hd = 16" by (simp add: hd_def)
  have n: "unat (of_nat (length db) :: u32) = length db" using assms(1) by simp
  have s1: "slice (hd @ ys) 0 4 = SAM_MAGIC"
    using magic by (simp add: hd_def slice_def)
  have s2: "slice (hd @ ys) 4 8 = u32_le SAM_VERSION"
    using slice_append_mid [of 4 SAM_MAGIC 8 "u32_le SAM_VERSION"] magic by (simp add: hd_def)
  have s3: "slice (hd @ ys) 8 12 = u32_le (of_nat (length db))"
    using slice_append_mid [of 8 "SAM_MAGIC @ u32_le SAM_VERSION" 12 "u32_le (of_nat (length db))"] magic
    by (simp add: hd_def)
  have "parse_sam_loop (length db) (hd @ ys) 16 [] = Ok db"
    using parse_sam_loop_entries [OF assms(2), of hd "[]" "[]"] len ys by simp
  moreover have "\<not> of_nat (length db) > MAX_SAM_ENTRIES"
    using assms(1) n by (simp add: word_less_nat_alt)
  ultimately show ?thesis using len n
    by (simp add: serialize_sam_def parse_sam_def hd_def [symmetric] ys s1 s2 s3)
qed

lemma sam_with_builtins_wf: "list_all sam_entry_wf sam_with_builtins"
  by (simp add: sam_with_builtins_def sam_add_user_def Let_def sam_entry_new_def
      sam_entry_wf_def sid_builtin_administrator_def sid_builtin_guest_def sid_builtin_system_def
      sid_builtin_admin_def sid_from_parts_wf)
    (simp add: ascii_def ascii_utf8_valid)

theorem parse_serialize_sam_witness:
  "result_bind (serialize_sam sam_with_builtins) parse_sam = Ok sam_with_builtins"
  by (rule parse_serialize_sam [OF _ sam_with_builtins_wf])
    (simp add: sam_with_builtins_def sam_add_user_def Let_def)

end
