(* ===== verification/Buddy.thy ===== *)
theory Buddy
  imports Interfaces
begin

text \<open>
  The physical frame allocator of neodos-kernel/src/memory/buddy.rs. Addresses are 64-bit words,
  frame numbers and slot counts are natural numbers (\<open>usize\<close>), the bitmap is the list of its words.
  The free memory is read off the slot arrays as a multiset of frame numbers, \<open>free_frames_of\<close>: an
  operation that handed out a frame twice would show as a multiplicity above one.
\<close>

section \<open>Model\<close>

abbreviation (input) PAGE_SIZE :: u64 where "PAGE_SIZE \<equiv> 4096"
definition MAX_ORDER :: nat where "MAX_ORDER = 10"
abbreviation (input) MAX_FREE_SLOTS :: nat where "MAX_FREE_SLOTS \<equiv> 512"

record BuddyAllocator =
  free_counts :: "nat list"
  free_slots :: "u64 list list"
  bitmap :: "u64 list"
  free_pages :: u64
  total_pages :: u64

definition buddy_new :: BuddyAllocator where
  "buddy_new = \<lparr> free_counts = replicate 11 0, free_slots = replicate 11 (replicate MAX_FREE_SLOTS 0),
     bitmap = [], free_pages = 0, total_pages = 0 \<rparr>"

definition bitmap_set :: "BuddyAllocator \<Rightarrow> nat \<Rightarrow> BuddyAllocator" where
  "bitmap_set s frame = (if frame < length (bitmap s) * 64
     then s \<lparr> bitmap := (bitmap s)[frame div 64 := bitmap s ! (frame div 64) OR push_bit (frame mod 64) 1] \<rparr>
     else s)"

definition bitmap_clear :: "BuddyAllocator \<Rightarrow> nat \<Rightarrow> BuddyAllocator" where
  "bitmap_clear s frame = (if frame < length (bitmap s) * 64
     then s \<lparr> bitmap := (bitmap s)[frame div 64 := bitmap s ! (frame div 64) AND NOT (push_bit (frame mod 64) 1)] \<rparr>
     else s)"

definition bitmap_test :: "BuddyAllocator \<Rightarrow> nat \<Rightarrow> bool" where
  "bitmap_test s frame = (if frame < length (bitmap s) * 64
     then bitmap s ! (frame div 64) AND push_bit (frame mod 64) 1 \<noteq> 0 else True)"

definition page_to_frame :: "u64 \<Rightarrow> nat" where
  "page_to_frame page = unat (page div PAGE_SIZE)"

definition frame_to_page :: "nat \<Rightarrow> u64" where
  "frame_to_page frame = of_nat frame * PAGE_SIZE"

definition buddy_of :: "nat \<Rightarrow> nat \<Rightarrow> nat" where
  "buddy_of frame order = frame XOR 2 ^ order"

definition push_slot :: "BuddyAllocator \<Rightarrow> nat \<Rightarrow> u64 \<Rightarrow> BuddyAllocator" where
  "push_slot s order addr = (let count = free_counts s ! order in
     if count < MAX_FREE_SLOTS
     then s \<lparr> free_slots := (free_slots s)[order := (free_slots s ! order)[count := addr]],
              free_counts := (free_counts s)[order := count + 1] \<rparr>
     else s)"

definition pop_slot :: "BuddyAllocator \<Rightarrow> nat \<Rightarrow> u64 option \<times> BuddyAllocator" where
  "pop_slot s order = (let count = free_counts s ! order in
     if count = 0 then (None, s)
     else let new_count = count - 1 in
       (Some (free_slots s ! order ! new_count), s \<lparr> free_counts := (free_counts s)[order := new_count] \<rparr>))"

definition scan_for_buddy :: "BuddyAllocator \<Rightarrow> nat \<Rightarrow> u64 \<Rightarrow> nat option" where
  "scan_for_buddy s order buddy_addr =
    position (\<lambda>a. a = buddy_addr) (take (free_counts s ! order) (free_slots s ! order))"

definition remove_slot_at :: "BuddyAllocator \<Rightarrow> nat \<Rightarrow> nat \<Rightarrow> BuddyAllocator" where
  "remove_slot_at s order idx = (let count = free_counts s ! order in
     if idx < count then
       let last = count - 1 in
       s \<lparr> free_slots := (free_slots s)[order := (free_slots s ! order)[idx := free_slots s ! order ! last]],
           free_counts := (free_counts s)[order := last] \<rparr>
     else s)"

definition init_bitmap :: "BuddyAllocator \<Rightarrow> nat \<Rightarrow> BuddyAllocator" where
  "init_bitmap s nwords = s \<lparr> bitmap := replicate nwords (- 1) \<rparr>"

text \<open>The three loops of \<open>free_add_run\<close> that choose the order of the next block.\<close>

fun order_aligned :: "nat \<Rightarrow> nat \<Rightarrow> nat" where
  "order_aligned addr 0 = 0"
| "order_aligned addr (Suc k) =
    (if addr AND (2 ^ Suc k - 1) \<noteq> 0 then order_aligned addr k else Suc k)"

fun order_fitting :: "nat \<Rightarrow> nat \<Rightarrow> nat" where
  "order_fitting remaining 0 = 0"
| "order_fitting remaining (Suc k) =
    (if 2 ^ Suc k > remaining then order_fitting remaining k else Suc k)"

function order_raise :: "nat \<Rightarrow> nat \<Rightarrow> nat \<Rightarrow> nat" where
  "order_raise addr remaining order =
    (if order < MAX_ORDER \<and> 2 ^ (order + 1) \<le> remaining \<and> addr AND (2 ^ (order + 1) - 1) = 0
     then order_raise addr remaining (order + 1) else order)"
  by pat_completeness auto
termination by (relation "measure (\<lambda>(_, _, order). MAX_ORDER - order)") auto

definition run_order :: "nat \<Rightarrow> nat \<Rightarrow> nat" where
  "run_order addr remaining = (let order = order_fitting remaining (order_aligned addr MAX_ORDER) in
     if 2 ^ order > remaining then order_raise addr remaining 0 else order)"

function free_add_loop :: "BuddyAllocator \<Rightarrow> nat \<Rightarrow> nat \<Rightarrow> BuddyAllocator" where
  "free_add_loop s addr remaining =
    (if remaining > 0 then
       let order = run_order addr remaining; block_pages = 2 ^ order in
       free_add_loop (push_slot s order (frame_to_page addr)) (addr + block_pages) (remaining - block_pages)
     else s)"
  by pat_completeness auto
termination by (relation "measure (\<lambda>(_, _, remaining). remaining)") (auto simp: Let_def)

definition free_add_run :: "BuddyAllocator \<Rightarrow> nat \<Rightarrow> nat \<Rightarrow> BuddyAllocator" where
  "free_add_run s start_frame n = free_add_loop s start_frame n"

fun clear_frames :: "nat list \<Rightarrow> BuddyAllocator \<Rightarrow> BuddyAllocator" where
  "clear_frames [] s = s"
| "clear_frames (frame # rest) s = clear_frames rest (bitmap_clear s frame)"

definition div_ceil :: "u64 \<Rightarrow> u64 \<Rightarrow> u64" where
  "div_ceil a b = (if a mod b = 0 then a div b else a div b + 1)"

fun clear_regions :: "nat \<Rightarrow> (u64 \<times> u64) list \<Rightarrow> BuddyAllocator \<Rightarrow> u64 \<Rightarrow> BuddyAllocator \<times> u64" where
  "clear_regions limit [] s covered = (s, covered)"
| "clear_regions limit ((start, end_addr) # rest) s covered =
    (let first = unat (start div PAGE_SIZE);
         last = unat (div_ceil end_addr PAGE_SIZE);
         hi = min last limit
     in if hi > first
        then clear_regions limit rest (clear_frames [first..<hi] s) (covered + of_nat (hi - first))
        else clear_regions limit rest s covered)"

fun scan_frames :: "nat \<Rightarrow> nat list \<Rightarrow> nat option \<Rightarrow> BuddyAllocator \<Rightarrow> BuddyAllocator" where
  "scan_frames limit [] run_start s = s"
| "scan_frames limit (frame # rest) run_start s =
    (let is_free = (if frame < limit then \<not> bitmap_test s frame else False) in
     if is_free \<and> run_start = None then scan_frames limit rest (Some frame) s
     else if \<not> is_free then
       (case run_start of
          Some st \<Rightarrow>
            let count = frame - st;
                s' = (if count > 0
                      then free_add_run (s \<lparr> free_pages := free_pages s + of_nat count \<rparr>) st count else s)
            in scan_frames limit rest None s'
        | None \<Rightarrow> scan_frames limit rest run_start s)
     else scan_frames limit rest run_start s)"

definition init_from_regions :: "BuddyAllocator \<Rightarrow> (u64 \<times> u64) list \<Rightarrow> u64 \<Rightarrow> BuddyAllocator" where
  "init_from_regions s regions phys_max =
    (let max_frames = div_ceil (max phys_max 1) PAGE_SIZE;
         limit = min (unat max_frames) (length (bitmap s) * 64);
         (s1, covered) = clear_regions limit regions s 0;
         s2 = s1 \<lparr> total_pages := covered \<rparr>
     in scan_frames limit [0..<Suc limit] None s2)"

text \<open>The search for the first order that has a free block; \<open>os\<close> is \<open>order..=MAX_ORDER\<close>.\<close>

fun alloc_search :: "nat list \<Rightarrow> nat \<Rightarrow> BuddyAllocator \<Rightarrow> u64 option \<times> BuddyAllocator" where
  "alloc_search [] order s = (None, s)"
| "alloc_search (o1 # os) order s =
    (if free_counts s ! o1 > 0 then
       (case pop_slot s o1 of
          (None, s1) \<Rightarrow> (None, s1)
        | (Some addr, s1) \<Rightarrow>
            let frame = page_to_frame addr;
                s2 = bitmap_set s1 frame;
                allocated_pages = 2 ^ o1;
                needed_pages = 2 ^ order;
                s3 = (if allocated_pages > needed_pages
                      then free_add_run s2 (frame + needed_pages) (allocated_pages - needed_pages) else s2)
            in (Some addr, s3 \<lparr> free_pages := free_pages s3 - of_nat needed_pages \<rparr>))
     else alloc_search os order s)"

definition alloc_frames :: "BuddyAllocator \<Rightarrow> nat \<Rightarrow> u64 option \<times> BuddyAllocator" where
  "alloc_frames s order = (let order = min order MAX_ORDER in
     alloc_search [order..<Suc MAX_ORDER] order s)"

function merge_loop :: "BuddyAllocator \<Rightarrow> nat \<Rightarrow> nat \<Rightarrow> BuddyAllocator \<times> nat \<times> nat" where
  "merge_loop s frame cur_order =
    (if cur_order < MAX_ORDER then
       let buddy = buddy_of frame cur_order; buddy_addr = frame_to_page buddy in
       case scan_for_buddy s cur_order buddy_addr of
         Some idx \<Rightarrow>
           merge_loop (bitmap_set (remove_slot_at s cur_order idx) buddy) (min frame buddy) (cur_order + 1)
       | None \<Rightarrow> (s, frame, cur_order)
     else (s, frame, cur_order))"
  by pat_completeness auto
termination by (relation "measure (\<lambda>(_, _, cur_order). MAX_ORDER - cur_order)") auto

definition free_frames :: "BuddyAllocator \<Rightarrow> u64 \<Rightarrow> nat \<Rightarrow> BuddyAllocator" where
  "free_frames s addr order =
    (let order = min order MAX_ORDER;
         needed_pages = 2 ^ order :: nat;
         frame = page_to_frame addr;
         (s1, frame1, cur_order) = merge_loop (bitmap_set s frame) frame order;
         s2 = push_slot s1 cur_order (frame_to_page frame1)
     in s2 \<lparr> free_pages := free_pages s2 + of_nat needed_pages \<rparr>)"

definition allocate_frame :: "BuddyAllocator \<Rightarrow> u64 option \<times> BuddyAllocator" where
  "allocate_frame s = alloc_frames s 0"

definition free_frame :: "BuddyAllocator \<Rightarrow> u64 \<Rightarrow> BuddyAllocator" where
  "free_frame s addr = free_frames s addr 0"

fun mark_used_loop :: "nat list \<Rightarrow> BuddyAllocator \<Rightarrow> BuddyAllocator" where
  "mark_used_loop [] s = s"
| "mark_used_loop (frame # rest) s =
    (if \<not> bitmap_test s frame
     then mark_used_loop rest ((bitmap_set s frame) \<lparr> free_pages := saturating_sub (free_pages s) 1 \<rparr>)
     else mark_used_loop rest s)"

definition mark_used_region :: "BuddyAllocator \<Rightarrow> u64 \<Rightarrow> u64 \<Rightarrow> BuddyAllocator" where
  "mark_used_region s start size_bytes =
    (let first = unat (start div PAGE_SIZE);
         last = unat (div_ceil (start + size_bytes) PAGE_SIZE);
         limit = min (unat (total_pages s)) (length (bitmap s) * 64)
     in mark_used_loop [first..<min last limit] s)"

declare order_raise.simps [simp del] free_add_loop.simps [simp del] merge_loop.simps [simp del]

section \<open>Frames and addresses\<close>

definition MAX_FRAMES :: nat where "MAX_FRAMES = 2 ^ 52"

lemma page_to_frame_to_page: "f < MAX_FRAMES \<Longrightarrow> page_to_frame (frame_to_page f) = f"
proof -
  assume f: "f < MAX_FRAMES"
  have "unat (of_nat f * 4096 :: u64) = f * 4096"
    using f by (simp add: unat_word_ariths unat_of_nat MAX_FRAMES_def)
  then show ?thesis by (simp add: page_to_frame_def frame_to_page_def unat_div)
qed

lemma buddy_of_aligned:
  assumes "2 ^ k dvd f"
  shows "buddy_of f k = (if 2 ^ Suc k dvd f then f + 2 ^ k else f - 2 ^ k)"
proof -
  obtain q where q: "f = push_bit k q" using assms by (auto simp: push_bit_eq_mult mult.commute)
  have "2 ^ Suc k dvd f \<longleftrightarrow> even q"
    by (simp add: q push_bit_eq_mult mult.commute)
  moreover have "buddy_of f k = push_bit k (q XOR 1)"
    by (simp add: buddy_of_def q push_bit_xor push_bit_of_1)
  moreover have "push_bit k (q XOR 1) = (if even q then f + 2 ^ k else f - 2 ^ k)"
    by (simp add: xor_Suc_0_eq q push_bit_eq_mult algebra_simps)
  ultimately show ?thesis by simp
qed

section \<open>Free frames\<close>

definition block_frames :: "nat \<Rightarrow> nat \<Rightarrow> nat multiset" where
  "block_frames f k = mset [f..<f + 2 ^ k]"

definition slot_list :: "BuddyAllocator \<Rightarrow> nat \<Rightarrow> u64 list" where
  "slot_list s k = take (free_counts s ! k) (free_slots s ! k)"

definition order_frames :: "BuddyAllocator \<Rightarrow> nat \<Rightarrow> nat multiset" where
  "order_frames s k = (\<Sum>a\<in>#mset (slot_list s k). block_frames (page_to_frame a) k)"

definition free_frames_of :: "BuddyAllocator \<Rightarrow> nat multiset" where
  "free_frames_of s = (\<Sum>k<11. order_frames s k)"

text \<open>An address that a slot of order \<open>k\<close> may hold: page aligned, naturally aligned, in range.\<close>

definition slot_ok :: "nat \<Rightarrow> u64 \<Rightarrow> bool" where
  "slot_ok k a \<longleftrightarrow> a = frame_to_page (page_to_frame a) \<and> 2 ^ k dvd page_to_frame a \<and>
     page_to_frame a + 2 ^ k \<le> MAX_FRAMES"

definition buddy_inv :: "BuddyAllocator \<Rightarrow> bool" where
  "buddy_inv s \<longleftrightarrow> length (free_counts s) = 11 \<and> length (free_slots s) = 11 \<and>
     (\<forall>k<11. length (free_slots s ! k) = 512 \<and> free_counts s ! k \<le> 512 \<and>
        (\<forall>a\<in>set (slot_list s k). slot_ok k a))"

lemma slot_ok_frame:
  "f + 2 ^ k \<le> MAX_FRAMES \<Longrightarrow> 2 ^ k dvd f \<Longrightarrow>
   slot_ok k (frame_to_page f) \<and> page_to_frame (frame_to_page f) = f"
proof -
  assume f: "f + 2 ^ k \<le> MAX_FRAMES" "2 ^ k dvd f"
  have "f < f + 2 ^ k" by simp
  then have "f < MAX_FRAMES" using f(1) by (rule less_le_trans)
  then show ?thesis using page_to_frame_to_page [of f] f by (simp add: slot_ok_def)
qed

text \<open>Replacing the slots of one order changes the free frames at that order only.\<close>

lemma free_frames_of_change:
  assumes "k < 11" and "\<And>j. j \<noteq> k \<Longrightarrow> slot_list s' j = slot_list s j"
  shows "free_frames_of s' + order_frames s k = free_frames_of s + order_frames s' k"
proof -
  have "(\<Sum>j\<in>{..<11} - {k}. order_frames s' j) = (\<Sum>j\<in>{..<11} - {k}. order_frames s j)"
    using assms(2) by (intro sum.cong) (auto simp: order_frames_def)
  then show ?thesis
    using assms(1) sum.remove [of "{..<11}" k "order_frames s"] sum.remove [of "{..<11}" k "order_frames s'"]
    by (simp add: free_frames_of_def ac_simps)
qed

lemma same_slots:
  assumes "free_counts s' = free_counts s" and "free_slots s' = free_slots s"
  shows "free_frames_of s' = free_frames_of s" and "buddy_inv s' = buddy_inv s"
    and "slot_list s' k = slot_list s k"
  using assms by (simp_all add: free_frames_of_def order_frames_def slot_list_def buddy_inv_def)

lemma bitmap_set_slots [simp]:
  "free_counts (bitmap_set s f) = free_counts s" "free_slots (bitmap_set s f) = free_slots s"
  by (simp_all add: bitmap_set_def)

lemma push_slot_list:
  assumes "buddy_inv s" and "k < 11"
  shows "slot_list (push_slot s k a) j
    = (if j = k \<and> free_counts s ! k < 512 then slot_list s k @ [a] else slot_list s j)"
  using assms by (auto simp: push_slot_def slot_list_def buddy_inv_def Let_def
      take_Suc_conv_app_nth take_update_cancel)

lemma push_slot_inv:
  assumes "buddy_inv s" and "k < 11" and "slot_ok k a"
  shows "buddy_inv (push_slot s k a)"
proof -
  have "length (free_counts (push_slot s k a)) = 11" "length (free_slots (push_slot s k a)) = 11"
    using assms by (auto simp: push_slot_def buddy_inv_def Let_def)
  moreover have "length (free_slots (push_slot s k a) ! j) = 512 \<and> free_counts (push_slot s k a) ! j \<le> 512"
    if "j < 11" for j
    using assms that by (cases "j = k") (auto simp: push_slot_def buddy_inv_def Let_def)
  moreover have "\<forall>x\<in>set (slot_list (push_slot s k a) j). slot_ok j x" if "j < 11" for j
    using assms that unfolding push_slot_list [OF assms(1,2)] by (auto simp: buddy_inv_def)
  ultimately show ?thesis by (simp add: buddy_inv_def)
qed

lemma push_slot_frames:
  assumes "buddy_inv s" and "k < 11"
  shows "free_frames_of (push_slot s k a)
    = (if free_counts s ! k < 512 then free_frames_of s + block_frames (page_to_frame a) k
       else free_frames_of s)"
proof (cases "free_counts s ! k < 512")
  case True
  have "order_frames (push_slot s k a) k = order_frames s k + block_frames (page_to_frame a) k"
    using True by (simp add: order_frames_def push_slot_list [OF assms])
  then show ?thesis
    using True free_frames_of_change [OF assms(2), of "push_slot s k a" s]
    by (simp add: push_slot_list [OF assms] ac_simps)
next
  case False
  then show ?thesis by (simp add: push_slot_def Let_def)
qed

lemma push_slot_frames_le:
  assumes "buddy_inv s" and "k < 11"
  shows "free_frames_of (push_slot s k a) \<subseteq># free_frames_of s + block_frames (page_to_frame a) k"
  using push_slot_frames [OF assms] by simp

lemma pop_slot_Some:
  assumes "buddy_inv s" and "k < 11" and "pop_slot s k = (Some a, s')"
  shows "slot_list s k = slot_list s' k @ [a]" and "buddy_inv s'" and "slot_ok k a"
    and "free_frames_of s = free_frames_of s' + block_frames (page_to_frame a) k"
proof -
  let ?c = "free_counts s ! k"
  have c: "0 < ?c" "a = free_slots s ! k ! (?c - 1)"
      "s' = s \<lparr> free_counts := (free_counts s)[k := ?c - 1] \<rparr>"
    using assms(3) by (auto simp: pop_slot_def Let_def split: if_splits)
  have bound: "?c - 1 < length (free_slots s ! k)" "k < length (free_counts s)"
    using assms(1,2) c(1) by (auto simp: buddy_inv_def)
  have other: "slot_list s' j = slot_list s j" if "j \<noteq> k" for j
    using that by (simp add: slot_list_def c(3))
  have "take ?c (free_slots s ! k) = take (?c - 1) (free_slots s ! k) @ [a]"
    using take_Suc_conv_app_nth [OF bound(1)] c by simp
  then show sl: "slot_list s k = slot_list s' k @ [a]"
    using bound by (simp add: slot_list_def c(3))
  have ok: "\<forall>x\<in>set (slot_list s k). slot_ok k x" using assms(1,2) by (simp add: buddy_inv_def)
  then show "slot_ok k a" unfolding sl by simp
  have "\<forall>x\<in>set (slot_list s' j). slot_ok j x" if "j < 11" for j
    using that other [of j] ok assms(1) unfolding sl by (cases "j = k") (auto simp: buddy_inv_def)
  moreover have "free_counts s' ! j \<le> 512" if "j < 11" for j
    using assms(1) that bound(2) by (cases "j = k") (auto simp: buddy_inv_def c(3))
  ultimately show "buddy_inv s'" using assms(1) by (simp add: buddy_inv_def c(3))
  have "order_frames s k = order_frames s' k + block_frames (page_to_frame a) k"
    by (simp add: order_frames_def sl)
  then show "free_frames_of s = free_frames_of s' + block_frames (page_to_frame a) k"
    using free_frames_of_change [of k s' s, OF assms(2) other] by (simp add: ac_simps)
qed

lemma mset_swap_remove:
  assumes "i < n" and "n \<le> length xs"
  shows "add_mset (xs ! i) (mset (take (n - 1) (xs[i := xs ! (n - 1)]))) = mset (take n xs)"
proof -
  define ys where "ys = take n xs"
  have ys: "length ys = n" "ys \<noteq> []" using assms by (auto simp: ys_def)
  have l: "xs ! (n - 1) = last ys" "xs ! i = ys ! i"
    using assms ys by (auto simp: last_conv_nth ys_def)
  have "take (n - 1) (xs[i := last ys]) = butlast (ys[i := last ys])"
    using assms by (simp add: ys_def butlast_conv_take take_update_swap)
  moreover have "last (ys[i := last ys]) = last ys"
    using ys by (cases "i = n - 1") (auto simp: last_list_update last_conv_nth)
  ultimately have "add_mset (last ys) (mset (take (n - 1) (xs[i := last ys]))) = mset (ys[i := last ys])"
    using append_butlast_last_id [of "ys[i := last ys]"] ys(2)
    by (metis add.right_neutral list_update_nonempty mset.simps(2) mset_append mset_single_iff_right
        union_mset_add_mset_right mset.simps(1))
  also have "\<dots> = add_mset (last ys) (mset ys - {#ys ! i#})" using assms ys by (simp add: mset_update)
  finally show ?thesis using assms ys l by (simp add: ys_def [symmetric])
qed

lemma remove_slot_at_found:
  assumes "buddy_inv s" and "k < 11" and "scan_for_buddy s k a = Some i"
  shows "buddy_inv (remove_slot_at s k i)" and "slot_ok k a"
    and "free_frames_of s = free_frames_of (remove_slot_at s k i) + block_frames (page_to_frame a) k"
proof -
  let ?c = "free_counts s ! k" and ?s' = "remove_slot_at s k i"
  have len: "?c \<le> length (free_slots s ! k)" "k < length (free_counts s)" "k < length (free_slots s)"
    using assms(1,2) by (auto simp: buddy_inv_def)
  have i: "i < ?c" "free_slots s ! k ! i = a"
    using assms(3) len by (auto simp: scan_for_buddy_def position_Some_iff)
  have s': "?s' = s \<lparr> free_slots := (free_slots s)[k := (free_slots s ! k)[i := free_slots s ! k ! (?c - 1)]],
      free_counts := (free_counts s)[k := ?c - 1] \<rparr>"
    using i by (simp add: remove_slot_at_def Let_def)
  have other: "slot_list ?s' j = slot_list s j" if "j \<noteq> k" for j
    using that by (simp add: slot_list_def s')
  have "slot_list ?s' k = take (?c - 1) ((free_slots s ! k)[i := free_slots s ! k ! (?c - 1)])"
    using len by (simp add: slot_list_def s')
  then have ms: "mset (slot_list s k) = add_mset a (mset (slot_list ?s' k))"
    using mset_swap_remove [OF i(1) len(1)] i(2) by (simp add: slot_list_def)
  then have sub: "set (slot_list ?s' k) \<subseteq> set (slot_list s k)" "a \<in> set (slot_list s k)"
    by (metis set_mset_add_mset_insert set_mset_mset subset_insertI insertI1)+
  have ok: "\<forall>x\<in>set (slot_list s k). slot_ok k x" using assms(1,2) by (simp add: buddy_inv_def)
  then show "slot_ok k a" using sub by blast
  have "\<forall>x\<in>set (slot_list ?s' j). slot_ok j x" if "j < 11" for j
    using that other [of j] ok sub assms(1) by (cases "j = k") (auto simp: buddy_inv_def)
  moreover have "free_counts ?s' ! j \<le> 512" "length (free_slots ?s' ! j) = 512" if "j < 11" for j
    using assms(1) that len by (cases "j = k"; auto simp: buddy_inv_def s')+
  ultimately show "buddy_inv ?s'" using assms(1) by (simp add: buddy_inv_def) (simp add: s')
  have "order_frames s k = order_frames ?s' k + block_frames (page_to_frame a) k"
    by (simp add: order_frames_def ms ac_simps)
  then show "free_frames_of s = free_frames_of ?s' + block_frames (page_to_frame a) k"
    using free_frames_of_change [of k ?s' s, OF assms(2) other] by (simp add: ac_simps)
qed

section \<open>Tiling a run of frames\<close>

lemma order_aligned_dvd: "order_aligned addr k \<le> k \<and> 2 ^ order_aligned addr k dvd addr"
proof (induction k)
  case 0
  then show ?case by simp
next
  case (Suc k)
  have "addr AND (2 ^ Suc k - 1) = addr mod 2 ^ Suc k" by (rule and_mask_eq_mod [of _ "Suc k"]) simp
  then show ?case using Suc by (auto simp: dvd_eq_mod_eq_0)
qed

lemma order_fitting_le: "remaining > 0 \<Longrightarrow> order_fitting remaining k \<le> k \<and> 2 ^ order_fitting remaining k \<le> remaining"
  by (induction k) auto

lemma run_order_fits:
  assumes "remaining > 0"
  shows "run_order addr remaining < 11" and "2 ^ run_order addr remaining dvd addr"
    and "2 ^ run_order addr remaining \<le> remaining"
proof -
  let ?a = "order_aligned addr MAX_ORDER"
  have f: "order_fitting remaining ?a \<le> ?a" "2 ^ order_fitting remaining ?a \<le> remaining"
    using order_fitting_le [OF assms] by auto
  then have r: "run_order addr remaining = order_fitting remaining ?a"
    by (simp add: run_order_def Let_def)
  show "run_order addr remaining < 11" "2 ^ run_order addr remaining \<le> remaining"
    using f order_aligned_dvd [of addr MAX_ORDER] r by (auto simp: MAX_ORDER_def)
  show "2 ^ run_order addr remaining dvd addr"
    using f(1) order_aligned_dvd [of addr MAX_ORDER] r by (metis dvd_trans le_imp_power_dvd)
qed

lemma upt_mset_split: "a \<le> b \<Longrightarrow> b \<le> c \<Longrightarrow> mset [a..<c] = mset [a..<b] + mset [b..<c]"
  by (metis mset_append upt_add_eq_append le_add_diff_inverse)

lemma free_add_loop_tiles:
  assumes "buddy_inv s" and "addr + remaining \<le> MAX_FRAMES"
  shows "buddy_inv (free_add_loop s addr remaining) \<and>
    free_frames_of (free_add_loop s addr remaining) \<subseteq># free_frames_of s + mset [addr..<addr + remaining]"
  using assms
proof (induction s addr remaining rule: free_add_loop.induct)
  case (1 s addr remaining)
  show ?case
  proof (cases "remaining > 0")
    case True
    define k where "k = run_order addr remaining"
    define s1 where "s1 = push_slot s k (frame_to_page addr)"
    have k: "k < 11" "2 ^ k dvd addr" "2 ^ k \<le> remaining"
      using run_order_fits [OF True] by (auto simp: k_def)
    have "addr + 2 ^ k \<le> MAX_FRAMES" using k(3) "1.prems"(2) by linarith
    then have slot: "slot_ok k (frame_to_page addr)" "page_to_frame (frame_to_page addr) = addr"
      using slot_ok_frame k(2) by auto
    have s1: "buddy_inv s1" "free_frames_of s1 \<subseteq># free_frames_of s + mset [addr..<addr + 2 ^ k]"
      using push_slot_inv [OF "1.prems"(1) k(1) slot(1)]
        push_slot_frames_le [OF "1.prems"(1) k(1), of "frame_to_page addr"] slot(2)
      by (auto simp: s1_def block_frames_def)
    have loop: "free_add_loop s addr remaining = free_add_loop s1 (addr + 2 ^ k) (remaining - 2 ^ k)"
      using True by (subst free_add_loop.simps) (simp add: k_def s1_def Let_def)
    have sum: "addr + 2 ^ k + (remaining - 2 ^ k) = addr + remaining" using k(3) by simp
    have "buddy_inv (free_add_loop s1 (addr + 2 ^ k) (remaining - 2 ^ k)) \<and>
      free_frames_of (free_add_loop s1 (addr + 2 ^ k) (remaining - 2 ^ k))
        \<subseteq># free_frames_of s1 + mset [addr + 2 ^ k..<addr + remaining]"
      using "1.IH" [OF True k_def refl] s1(1) "1.prems"(2) sum by (simp add: s1_def)
    moreover have "free_frames_of s1 + mset [addr + 2 ^ k..<addr + remaining]
        \<subseteq># free_frames_of s + mset [addr..<addr + remaining]"
      using subset_mset.add_right_mono [OF s1(2)] k(3)
        upt_mset_split [of addr "addr + 2 ^ k" "addr + remaining"] by (simp add: ac_simps)
    ultimately show ?thesis unfolding loop using subset_mset.order_trans by blast
  next
    case False
    then show ?thesis using "1.prems" by (subst (1 2) free_add_loop.simps) simp
  qed
qed

section \<open>Allocation\<close>

lemma slot_ok_mono: "slot_ok k a \<Longrightarrow> j \<le> k \<Longrightarrow> slot_ok j a"
proof -
  assume k: "slot_ok k a" and "j \<le> k"
  then have pw: "(2::nat) ^ j dvd 2 ^ k" "(2::nat) ^ j \<le> 2 ^ k" by (auto intro: le_imp_power_dvd)
  have "page_to_frame a + 2 ^ j \<le> MAX_FRAMES" using k pw(2) unfolding slot_ok_def by linarith
  then show ?thesis using k pw(1) dvd_trans unfolding slot_ok_def by blast
qed

lemma alloc_search_frames:
  assumes "buddy_inv s" and "\<forall>k\<in>set ks. order \<le> k \<and> k < 11"
  shows "alloc_search ks order s = (Some a, s') \<Longrightarrow> buddy_inv s' \<and> slot_ok order a \<and>
      free_frames_of s' + block_frames (page_to_frame a) order \<subseteq># free_frames_of s"
    and "alloc_search ks order s = (None, s') \<Longrightarrow> s' = s"
  using assms
proof (induction ks)
  case Nil
  {
    case 1
    then show ?case by simp
  next
    case 2
    then show ?case by simp
  }
next
  case (Cons k ks)
  {
    case 1
    show ?case
    proof (cases "free_counts s ! k > 0")
      case False
      then show ?thesis using 1 Cons.IH(1) by simp
    next
      case True
      have k: "order \<le> k" "k < 11" using 1 by auto
      obtain s1 where pop: "pop_slot s k = (Some a, s1)"
        using True "1"(1) by (auto simp: pop_slot_def Let_def)
      note pop_facts = pop_slot_Some [OF "1"(2) k(2) pop]
      define f where "f = page_to_frame a"
      define s2 where "s2 = bitmap_set s1 f"
      have s2: "buddy_inv s2" "free_frames_of s2 = free_frames_of s1"
        using pop_facts(2) same_slots [of s2 s1] by (auto simp: s2_def)
      have pw: "(2::nat) ^ order \<le> 2 ^ k" using k(1) by simp
      have top: "f + 2 ^ k \<le> MAX_FRAMES" using pop_facts(3) by (simp add: slot_ok_def f_def)
      define s3 where "s3 = (if (2::nat) ^ k > 2 ^ order
        then free_add_run s2 (f + 2 ^ order) (2 ^ k - 2 ^ order) else s2)"
      have s3: "buddy_inv s3 \<and> free_frames_of s3 \<subseteq># free_frames_of s1 + mset [f + 2 ^ order..<f + 2 ^ k]"
        using free_add_loop_tiles [OF s2(1), of "f + 2 ^ order" "2 ^ k - 2 ^ order"] s2 pw top
        by (auto simp: s3_def free_add_run_def add.assoc)
      have s': "s' = s3 \<lparr> free_pages := free_pages s3 - of_nat (2 ^ order) \<rparr>"
        using True "1"(1) pop by (auto simp: s3_def s2_def f_def Let_def split: if_splits)
      have "block_frames f k = block_frames f order + mset [f + 2 ^ order..<f + 2 ^ k]"
        using upt_mset_split [of f "f + 2 ^ order" "f + 2 ^ k"] pw by (simp add: block_frames_def)
      then have "free_frames_of s3 + block_frames f order \<subseteq># free_frames_of s"
        using s3 pop_facts(4) subset_mset.add_right_mono [of "free_frames_of s3" _ "block_frames f order"]
        by (simp add: f_def [symmetric] ac_simps)
      moreover have "buddy_inv s'" "free_frames_of s' = free_frames_of s3"
        using s3 same_slots [of s' s3] by (auto simp: s')
      ultimately show ?thesis using slot_ok_mono [OF pop_facts(3) k(1)] by (simp add: f_def)
    qed
  next
    case 2
    show ?case
    proof (cases "free_counts s ! k > 0")
      case False
      then show ?thesis using 2 Cons.IH(2) by simp
    next
      case True
      then show ?thesis using "2"(1) by (simp add: pop_slot_def Let_def)
    qed
  }
qed

section \<open>Deallocation\<close>

text \<open>Two buddies of one order are the two halves of an aligned block of the next order.\<close>

lemma buddies_make_block:
  assumes "2 ^ k dvd f"
  shows "block_frames f k + block_frames (buddy_of f k) k = block_frames (min f (buddy_of f k)) (Suc k)"
    and "2 ^ Suc k dvd min f (buddy_of f k)"
proof -
  have odd: "2 ^ k \<le> f \<and> 2 ^ Suc k dvd f - 2 ^ k" if "\<not> 2 ^ Suc k dvd f"
  proof -
    obtain q where q: "f = 2 ^ k * q" using assms by (elim dvdE)
    then have "odd q" using that by auto
    then obtain r where "q = 2 * r + 1" by (elim oddE)
    then show ?thesis using q by (simp add: algebra_simps)
  qed
  show "block_frames f k + block_frames (buddy_of f k) k = block_frames (min f (buddy_of f k)) (Suc k)"
  proof (cases "2 ^ Suc k dvd f")
    case True
    then show ?thesis using upt_mset_split [of f "f + 2 ^ k" "f + 2 ^ Suc k"]
      by (simp add: buddy_of_aligned [OF assms] block_frames_def mult_2 add.assoc)
  next
    case False
    then show ?thesis using odd upt_mset_split [of "f - 2 ^ k" f "f + 2 ^ k"]
      by (simp add: buddy_of_aligned [OF assms] block_frames_def ac_simps)
  qed
  show "2 ^ Suc k dvd min f (buddy_of f k)"
  proof (cases "2 ^ Suc k dvd f")
    case True
    then show ?thesis by (simp add: buddy_of_aligned [OF assms])
  next
    case False
    moreover have "min f (f - 2 ^ k) = f - 2 ^ k" by simp
    ultimately show ?thesis using odd by (simp add: buddy_of_aligned [OF assms])
  qed
qed

lemma aligned_below:
  assumes "2 ^ j dvd f" and "f < 2 ^ m" and "j \<le> m"
  shows "f + 2 ^ j \<le> (2::nat) ^ m"
proof -
  have "2 ^ j dvd 2 ^ m - f" using assms by (intro dvd_diff_nat) (simp_all add: le_imp_power_dvd)
  then have "2 ^ j \<le> 2 ^ m - f" using assms(2) by (intro dvd_imp_le) auto
  then show ?thesis using assms(2) by linarith
qed

lemma merge_loop_frames:
  assumes "buddy_inv s" and "k < 11" and "2 ^ k dvd f" and "f + 2 ^ k \<le> MAX_FRAMES"
    and "merge_loop s f k = (s', f', k')"
  shows "buddy_inv s' \<and> k' < 11 \<and> 2 ^ k' dvd f' \<and> f' + 2 ^ k' \<le> MAX_FRAMES \<and>
    free_frames_of s' + block_frames f' k' = free_frames_of s + block_frames f k"
  using assms
proof (induction s f k rule: merge_loop.induct)
  case (1 s f k)
  let ?b = "buddy_of f k"
  show ?case
  proof (cases "k < MAX_ORDER \<and> scan_for_buddy s k (frame_to_page ?b) \<noteq> None")
    case False
    then have "merge_loop s f k = (s, f, k)"
      by (subst merge_loop.simps) (auto simp: Let_def)
    then show ?thesis using "1.prems" by simp
  next
    case True
    then obtain i where i: "scan_for_buddy s k (frame_to_page ?b) = Some i" by auto
    define s1 where "s1 = bitmap_set (remove_slot_at s k i) ?b"
    note found = remove_slot_at_found [OF "1.prems"(1,2) i]
    have "?b < 2 ^ 52"
    proof (cases "2 ^ Suc k dvd f")
      case True
      have "f < f + 2 ^ k" by simp
      then have "f < MAX_FRAMES" using "1.prems"(4) by (rule less_le_trans)
      then have "f + 2 ^ Suc k \<le> 2 ^ 52"
        using aligned_below [OF True, of 52] "1.prems"(2) unfolding MAX_FRAMES_def by simp
      moreover have "f + 2 ^ k < f + 2 ^ Suc k" by simp
      ultimately have "f + 2 ^ k < 2 ^ 52" by linarith
      then show ?thesis using True buddy_of_aligned [OF "1.prems"(3)] by simp
    next
      case False
      have "f - 2 ^ k < f + 2 ^ k" by (simp add: less_imp_diff_less)
      then show ?thesis using False buddy_of_aligned [OF "1.prems"(3)] "1.prems"(4)
        unfolding MAX_FRAMES_def by simp
    qed
    then have pb: "page_to_frame (frame_to_page ?b) = ?b" by (simp add: page_to_frame_to_page MAX_FRAMES_def)
    have s1: "buddy_inv s1" "free_frames_of s = free_frames_of s1 + block_frames ?b k"
      using found same_slots [of s1 "remove_slot_at s k i"] pb by (auto simp: s1_def)
    have "min f ?b + 2 ^ Suc k \<le> MAX_FRAMES"
      using aligned_below [OF buddies_make_block(2) [OF "1.prems"(3)], of 52] \<open>?b < 2 ^ 52\<close> "1.prems"(2)
      by (simp add: MAX_FRAMES_def min_less_iff_disj)
    moreover have "merge_loop s1 (min f ?b) (k + 1) = (s', f', k')"
      using "1.prems"(5) True i by (subst (asm) merge_loop.simps) (simp add: s1_def Let_def)
    moreover have "k + 1 < 11" using True by (simp add: MAX_ORDER_def)
    ultimately have "buddy_inv s' \<and> k' < 11 \<and> 2 ^ k' dvd f' \<and> f' + 2 ^ k' \<le> MAX_FRAMES \<and>
        free_frames_of s' + block_frames f' k' = free_frames_of s1 + block_frames (min f ?b) (k + 1)"
      using "1.IH" [OF _ refl refl i] True s1(1) buddies_make_block(2) [OF "1.prems"(3)]
      by (simp add: s1_def)
    then show ?thesis using buddies_make_block(1) [OF "1.prems"(3)] s1(2) by (simp add: ac_simps)
  qed
qed

lemma free_frames_frames:
  assumes "buddy_inv s" and "slot_ok (min k MAX_ORDER) a"
  shows "buddy_inv (free_frames s a k) \<and>
    free_frames_of (free_frames s a k) \<subseteq># free_frames_of s + block_frames (page_to_frame a) (min k MAX_ORDER)"
proof -
  let ?k = "min k MAX_ORDER" and ?f = "page_to_frame a"
  obtain s1 f1 k1 where m: "merge_loop (bitmap_set s ?f) ?f ?k = (s1, f1, k1)" by (metis prod_cases3)
  have "buddy_inv (bitmap_set s ?f)" "free_frames_of (bitmap_set s ?f) = free_frames_of s"
    using assms(1) same_slots [of "bitmap_set s ?f" s] by auto
  then have r: "buddy_inv s1" "k1 < 11" "2 ^ k1 dvd f1" "f1 + 2 ^ k1 \<le> MAX_FRAMES"
      "free_frames_of s1 + block_frames f1 k1 = free_frames_of s + block_frames ?f ?k"
    using merge_loop_frames [OF _ _ _ _ m] assms(2) by (auto simp: slot_ok_def MAX_ORDER_def)
  define s2 where "s2 = push_slot s1 k1 (frame_to_page f1)"
  have s2: "buddy_inv s2" "free_frames_of s2 \<subseteq># free_frames_of s1 + block_frames f1 k1"
    using push_slot_inv [OF r(1,2)] push_slot_frames_le [OF r(1,2), of "frame_to_page f1"]
      slot_ok_frame [OF r(4,3)] by (auto simp: s2_def)
  have res: "free_frames s a k = s2 \<lparr> free_pages := free_pages s2 + of_nat (2 ^ ?k) \<rparr>"
    using m by (simp add: free_frames_def s2_def Let_def)
  then show ?thesis using s2 r(5) same_slots [of "free_frames s a k" s2] by simp
qed

interpretation buddy: unit_alloc buddy_inv free_frames_of
  "\<lambda>k a. block_frames (page_to_frame a) (min k MAX_ORDER)" "\<lambda>k. slot_ok (min k MAX_ORDER)"
  alloc_frames "\<lambda>s k a. free_frames s a k"
proof
  fix s k a s'
  assume inv: "buddy_inv s"
  have ks: "\<forall>j\<in>set [min k MAX_ORDER..<Suc MAX_ORDER]. min k MAX_ORDER \<le> j \<and> j < 11"
    by (auto simp: MAX_ORDER_def)
  show "alloc_frames s k = (Some a, s') \<Longrightarrow> buddy_inv s' \<and> slot_ok (min k MAX_ORDER) a \<and>
      free_frames_of s' + block_frames (page_to_frame a) (min k MAX_ORDER) \<subseteq># free_frames_of s"
    using alloc_search_frames(1) [OF inv ks] by (simp add: alloc_frames_def Let_def)
  show "alloc_frames s k = (None, s') \<Longrightarrow> buddy_inv s' \<and> free_frames_of s' \<subseteq># free_frames_of s"
    using alloc_search_frames(2) [OF inv ks] inv by (auto simp: alloc_frames_def Let_def)
  show "slot_ok (min k MAX_ORDER) a \<Longrightarrow> buddy_inv (free_frames s a k) \<and>
      free_frames_of (free_frames s a k) \<subseteq># free_frames_of s + block_frames (page_to_frame a) (min k MAX_ORDER)"
    by (rule free_frames_frames [OF inv])
qed

section \<open>Initialisation\<close>

lemma bitmap_test_bit:
  "bitmap_test s x = (if x < length (bitmap s) * 64 then bit (bitmap s ! (x div 64)) (x mod 64) else True)"
  using and_exp_eq_0_iff_not_bit [of "bitmap s ! (x div 64)" "x mod 64"]
  by (simp add: bitmap_test_def push_bit_of_1)

lemma bitmap_clear_simps [simp]:
  "length (bitmap (bitmap_clear s f)) = length (bitmap s)"
  "free_counts (bitmap_clear s f) = free_counts s" "free_slots (bitmap_clear s f) = free_slots s"
  by (simp_all add: bitmap_clear_def)

lemma bitmap_test_clear:
  "bitmap_test s x \<Longrightarrow> x \<noteq> f \<Longrightarrow> bitmap_test (bitmap_clear s f) x"
proof (cases "x div 64 = f div 64 \<and> f < length (bitmap s) * 64")
  case True
  assume t: "bitmap_test s x" and "x \<noteq> f"
  then have "x mod 64 \<noteq> f mod 64" using True by (metis mult_div_mod_eq)
  moreover have "f div 64 < length (bitmap s)" using True by (simp add: less_mult_imp_div_less)
  ultimately show ?thesis using t True
    by (auto simp: bitmap_test_bit bitmap_clear_def bit_and_iff bit_not_iff bit_exp_iff split: if_splits)
next
  case False
  assume "bitmap_test s x"
  then show ?thesis using False by (auto simp: bitmap_test_bit bitmap_clear_def)
qed

lemma clear_frames_facts:
  "length (bitmap (clear_frames fs s)) = length (bitmap s) \<and> free_counts (clear_frames fs s) = free_counts s \<and>
   free_slots (clear_frames fs s) = free_slots s \<and>
   (\<forall>x. bitmap_test s x \<longrightarrow> x \<notin> set fs \<longrightarrow> bitmap_test (clear_frames fs s) x)"
proof (induction fs arbitrary: s)
  case Nil
  then show ?case by simp
next
  case (Cons f fs)
  then show ?case using bitmap_test_clear [of s _ f] by simp
qed

definition region_frames :: "u64 \<times> u64 \<Rightarrow> nat set" where
  "region_frames r = {unat (fst r div PAGE_SIZE)..<unat (div_ceil (snd r) PAGE_SIZE)}"

lemma clear_regions_facts:
  assumes "clear_regions limit rs s c = (s', c')"
  shows "length (bitmap s') = length (bitmap s) \<and> free_counts s' = free_counts s \<and>
    free_slots s' = free_slots s \<and>
    (\<forall>x. bitmap_test s x \<longrightarrow> x \<notin> \<Union> (region_frames ` set rs) \<longrightarrow> bitmap_test s' x)"
  using assms
proof (induction rs arbitrary: s c)
  case Nil
  then show ?case by simp
next
  case (Cons r rs)
  obtain a b where r: "r = (a, b)" by fastforce
  let ?first = "unat (a div PAGE_SIZE)" and ?hi = "min (unat (div_ceil b PAGE_SIZE)) limit"
  show ?case
  proof (cases "?hi > ?first")
    case True
    let ?s1 = "clear_frames [?first..<?hi] s"
    have "clear_regions limit rs ?s1 (c + of_nat (?hi - ?first)) = (s', c')"
      using Cons.prems True r by (simp add: Let_def)
    from Cons.IH [OF this] clear_frames_facts [of "[?first..<?hi]" s]
    show ?thesis by (auto simp: r region_frames_def)
  next
    case False
    then show ?thesis using Cons.IH [of s c] Cons.prems r by (auto simp: Let_def)
  qed
qed

lemma bitmap_push_slot [simp]: "bitmap (push_slot s k a) = bitmap s"
  by (simp add: push_slot_def Let_def)

lemma bitmap_free_add_loop [simp]: "bitmap (free_add_loop s a n) = bitmap s"
  by (induction s a n rule: free_add_loop.induct) (subst free_add_loop.simps, simp add: Let_def)

text \<open>Scanning from frame \<open>f\<close> with an open run adds only clear frames, each once.\<close>

lemma scan_frames_free:
  assumes "buddy_inv s" and "limit \<le> MAX_FRAMES" and "f \<le> Suc limit"
    and "\<forall>st. rs = Some st \<longrightarrow> st < f \<and> f \<le> limit \<and> (\<forall>x. st \<le> x \<longrightarrow> x < f \<longrightarrow> \<not> bitmap_test s x)"
  shows "buddy_inv (scan_frames limit [f..<Suc limit] rs s) \<and>
    free_frames_of (scan_frames limit [f..<Suc limit] rs s) \<subseteq># free_frames_of s
      + mset (filter (\<lambda>x. \<not> bitmap_test s x) [case rs of None \<Rightarrow> f | Some st \<Rightarrow> st..<limit])"
  using assms
proof (induction "Suc limit - f" arbitrary: f rs s)
  case 0
  then show ?case by (cases rs) auto
next
  case (Suc n)
  then have f: "f \<le> limit" "[f..<Suc limit] = f # [Suc f..<Suc limit]" by (auto simp: upt_conv_Cons)
  define free where "free = (f < limit \<and> \<not> bitmap_test s f)"
  have drop_f: "filter (\<lambda>x. \<not> bitmap_test s x) [f..<limit] = filter (\<lambda>x. \<not> bitmap_test s x) [Suc f..<limit]" if "\<not> free"
    using that f(1) by (cases "f < limit") (auto simp: free_def upt_conv_Cons)
  show ?case
  proof (cases rs)
    case None
    then have "scan_frames limit [f..<Suc limit] rs s = scan_frames limit [Suc f..<Suc limit] (if free then Some f else None) s"
      unfolding f(2) by (auto simp: free_def)
    moreover have "buddy_inv (scan_frames limit [Suc f..<Suc limit] (if free then Some f else None) s) \<and>
        free_frames_of (scan_frames limit [Suc f..<Suc limit] (if free then Some f else None) s) \<subseteq># free_frames_of s
        + mset (filter (\<lambda>x. \<not> bitmap_test s x) [case (if free then Some f else None) of None \<Rightarrow> Suc f | Some st \<Rightarrow> st..<limit])"
    proof (rule Suc.hyps(1))
      show "n = Suc limit - Suc f" "Suc f \<le> Suc limit" using Suc.hyps(2) f(1) by auto
      show "\<forall>st. (if free then Some f else None) = Some st \<longrightarrow> st < Suc f \<and> Suc f \<le> limit \<and>
          (\<forall>x. st \<le> x \<longrightarrow> x < Suc f \<longrightarrow> \<not> bitmap_test s x)"
        by (auto simp: free_def less_Suc_eq)
    qed (use Suc.prems in auto)
    ultimately show ?thesis using drop_f None by (cases free) auto
  next
    case (Some st)
    then have st: "st < f" "\<And>x. st \<le> x \<Longrightarrow> x < f \<Longrightarrow> \<not> bitmap_test s x" using Suc.prems(4) by auto
    show ?thesis
    proof (cases free)
      case True
      have "\<not> bitmap_test s x" if "st \<le> x" "x < Suc f" for x
        using that st(2) [of x] True by (cases "x = f") (auto simp: free_def)
      then have "buddy_inv (scan_frames limit [Suc f..<Suc limit] (Some st) s) \<and>
        free_frames_of (scan_frames limit [Suc f..<Suc limit] (Some st) s) \<subseteq># free_frames_of s
        + mset (filter (\<lambda>x. \<not> bitmap_test s x) [case Some st of None \<Rightarrow> Suc f | Some st \<Rightarrow> st..<limit])"
        using st(1) True Suc.hyps(2) Suc.prems(1,2) f(1) by (intro Suc.hyps(1)) (auto simp: free_def)
      then show ?thesis using True Some unfolding f(2) by (simp add: free_def)
    next
      case False
      define s0 where "s0 = s \<lparr> free_pages := free_pages s + of_nat (f - st) \<rparr>"
      define s1 where "s1 = free_add_run s0 st (f - st)"
      have s0: "buddy_inv s0" "free_frames_of s0 = free_frames_of s"
        using same_slots [of s0 s] Suc.prems(1) by (auto simp: s0_def)
      have s1: "buddy_inv s1" "free_frames_of s1 \<subseteq># free_frames_of s + mset [st..<f]"
        using free_add_loop_tiles [OF s0(1), of st "f - st"] st(1) f(1) Suc.prems(2) s0(2)
        by (auto simp: s1_def free_add_run_def)
      have bm: "bitmap_test s1 x = bitmap_test s x" for x
        by (simp add: bitmap_test_def s1_def s0_def free_add_run_def)
      have eq: "scan_frames limit [f..<Suc limit] rs s = scan_frames limit [Suc f..<Suc limit] None s1"
        using False st(1) Some unfolding f(2) by (auto simp: free_def s1_def s0_def Let_def)
      have ih: "buddy_inv (scan_frames limit [Suc f..<Suc limit] None s1)"
          "free_frames_of (scan_frames limit [Suc f..<Suc limit] None s1)
            \<subseteq># free_frames_of s1 + mset (filter (\<lambda>x. \<not> bitmap_test s x) [Suc f..<limit])"
        using Suc.hyps(1) [of "Suc f" s1 None] Suc.hyps(2) Suc.prems(2) s1(1) f(1) by (simp_all add: bm)
      have "[st..<limit] = [st..<f] @ [f..<limit]"
        using st(1) f(1) by (metis less_imp_le upt_add_eq_append le_add_diff_inverse)
      then have split: "mset (filter (\<lambda>x. \<not> bitmap_test s x) [st..<limit])
          = mset [st..<f] + mset (filter (\<lambda>x. \<not> bitmap_test s x) [Suc f..<limit])"
        using drop_f [OF False] st(2) by (simp add: filter_id_conv)
      have "free_frames_of (scan_frames limit [Suc f..<Suc limit] None s1) \<subseteq># free_frames_of s
          + mset (filter (\<lambda>x. \<not> bitmap_test s x) [st..<limit])"
        using subset_mset.order_trans [OF ih(2) subset_mset.add_right_mono [OF s1(2)]]
        unfolding split add.assoc .
      then show ?thesis using ih(1) eq Some by (simp del: upt_Suc)
    qed
  qed
qed

lemma div_ceil_page_le: "unat (div_ceil x PAGE_SIZE) \<le> MAX_FRAMES"
proof -
  have d: "unat (x div 4096) = unat x div 4096" "unat (x mod 4096) = unat x mod 4096"
    by (simp_all add: unat_div unat_mod)
  have b: "unat x < 2 ^ 64" using unat_bound [of x] by simp
  then have "unat x div 4096 < 2 ^ 52" by (simp add: less_mult_imp_div_less)
  moreover have "unat (x div 4096 + 1) \<le> unat (x div 4096) + 1" by (simp add: unat_word_ariths)
  ultimately have "unat (x div 4096 + 1) \<le> 2 ^ 52" "unat (x div 4096) \<le> 2 ^ 52"
    unfolding d(1) by linarith+
  then show ?thesis by (simp add: div_ceil_def MAX_FRAMES_def)
qed

lemma buddy_new_facts:
  "buddy_inv (init_bitmap buddy_new n)" "free_frames_of (init_bitmap buddy_new n) = {#}"
  "bitmap_test (init_bitmap buddy_new n) x"
proof -
  have sl: "slot_list (init_bitmap buddy_new n) k = []" if "k < 11" for k
    using that by (simp add: slot_list_def init_bitmap_def buddy_new_def)
  then show "buddy_inv (init_bitmap buddy_new n)"
    by (auto simp: buddy_inv_def) (simp_all add: init_bitmap_def buddy_new_def)
  show "free_frames_of (init_bitmap buddy_new n) = {#}"
    using sl by (simp add: free_frames_of_def order_frames_def)
  show "bitmap_test (init_bitmap buddy_new n) x"
    by (auto simp: bitmap_test_bit init_bitmap_def less_mult_imp_div_less)
qed

lemma init_from_regions_free:
  fixes nwords regions phys_max
  defines "s \<equiv> init_from_regions (init_bitmap buddy_new nwords) regions phys_max"
  shows "buddy_inv s" and "count (free_frames_of s) x \<le> 1"
    and "set_mset (free_frames_of s) \<subseteq> \<Union> (region_frames ` set regions)"
proof -
  let ?s0 = "init_bitmap buddy_new nwords"
  define limit where "limit = min (unat (div_ceil (max phys_max 1) PAGE_SIZE)) (length (bitmap ?s0) * 64)"
  obtain s1 c where s1: "clear_regions limit regions ?s0 0 = (s1, c)" by fastforce
  define s2 where "s2 = s1 \<lparr> total_pages := c \<rparr>"
  note facts = clear_regions_facts [OF s1]
  have s: "s = scan_frames limit [0..<Suc limit] None s2"
    using s1 by (simp add: s_def init_from_regions_def limit_def s2_def Let_def)
  have s2: "buddy_inv s2" "free_frames_of s2 = {#}"
    using same_slots [of s2 ?s0] buddy_new_facts(1,2) [of nwords] facts by (auto simp: s2_def)
  have "limit \<le> MAX_FRAMES" using div_ceil_page_le [of "max phys_max 1"] by (simp add: limit_def)
  then have scan: "buddy_inv s"
      "free_frames_of s \<subseteq># mset (filter (\<lambda>x. \<not> bitmap_test s2 x) [0..<limit])"
    using scan_frames_free [OF s2(1), of limit 0 None] s2(2) unfolding s by auto
  show "buddy_inv s" by (rule scan(1))
  have "count (mset (filter (\<lambda>x. \<not> bitmap_test s2 x) [0..<limit])) x \<le> 1"
    using distinct_count_atmost_1 [of "filter (\<lambda>x. \<not> bitmap_test s2 x) [0..<limit]"]
    by (metis distinct_filter distinct_upt le_refl zero_le)
  then show "count (free_frames_of s) x \<le> 1"
    using mset_subset_eq_count [OF scan(2), of x] by (rule le_trans [rotated])
  have "x \<in> \<Union> (region_frames ` set regions)" if "\<not> bitmap_test s2 x" for x
  proof -
    have "bitmap_test s2 x = bitmap_test s1 x" by (simp add: s2_def bitmap_test_def)
    then show ?thesis using that facts buddy_new_facts(3) [of nwords x] by blast
  qed
  then show "set_mset (free_frames_of s) \<subseteq> \<Union> (region_frames ` set regions)"
    using set_mset_mono [OF scan(2)] by auto
qed

section \<open>Properties\<close>

text \<open>
  C3. No frame is ever handed out twice. After initialising the allocator from any list of memory
  regions and any sequence of allocations and frees of held blocks, the frames on the free lists and
  the frames of the blocks still held are all different, and all of them lie in the given regions.
\<close>

theorem buddy_no_double_allocation:
  "let (s, held) = alloc_run alloc_frames (\<lambda>s k a. free_frames s a k) ops
         (init_from_regions (init_bitmap buddy_new nwords) regions phys_max, []);
       frames = free_frames_of s + held_units (\<lambda>k a. block_frames (page_to_frame a) (min k MAX_ORDER)) held
   in (\<forall>f. count frames f \<le> 1) \<and> set_mset frames \<subseteq> \<Union> (region_frames ` set regions)"
proof -
  let ?s0 = "init_from_regions (init_bitmap buddy_new nwords) regions phys_max"
  note init = init_from_regions_free [of nwords regions phys_max]
  obtain s held where run: "alloc_run alloc_frames (\<lambda>s k a. free_frames s a k) ops (?s0, []) = (s, held)"
    by fastforce
  have once: "\<forall>u. count (free_frames_of ?s0) u \<le> 1" using init(2) by blast
  note safe = buddy.run_no_double [OF init(1) once run]
  show ?thesis using safe(2) set_mset_mono [OF safe(1)] init(3) unfolding run by auto
qed

section \<open>Splitting a block loses nothing\<close>

lemma order_aligned_exact:
  "2 ^ k dvd addr \<Longrightarrow> \<not> 2 ^ Suc k dvd addr \<Longrightarrow> k \<le> m \<Longrightarrow> order_aligned addr m = k"
proof (induction m)
  case 0
  then show ?case by simp
next
  case (Suc m)
  have "addr AND (2 ^ Suc m - 1) = addr mod 2 ^ Suc m" by (rule and_mask_eq_mod [of _ "Suc m"]) simp
  then have "addr AND (2 ^ Suc m - 1) \<noteq> 0 \<longleftrightarrow> \<not> 2 ^ Suc m dvd addr" by (simp add: dvd_eq_mod_eq_0)
  moreover have "\<not> 2 ^ Suc m dvd addr" if "k \<le> m"
    using Suc.prems(2) that dvd_trans [OF le_imp_power_dvd [of "Suc k" "Suc m" "2::nat"]] by auto
  ultimately show ?case using Suc by (cases "k = Suc m") auto
qed

lemma order_fitting_exact: "2 ^ k \<le> remaining \<Longrightarrow> order_fitting remaining k = k"
  by (cases k) auto

lemma split_exact:
  assumes "buddy_inv s" and "2 ^ k dvd f" and "f + 2 ^ k \<le> MAX_FRAMES" and "j \<le> k" and "k < 11"
    and "\<forall>i. j \<le> i \<longrightarrow> i < k \<longrightarrow> free_counts s ! i < 512"
  shows "free_frames_of (free_add_loop s (f + 2 ^ j) (2 ^ k - 2 ^ j)) = free_frames_of s + mset [f + 2 ^ j..<f + 2 ^ k]"
  using assms
proof (induction "k - j" arbitrary: j s)
  case 0
  then show ?case by (subst free_add_loop.simps) simp
next
  case (Suc n)
  then have jk: "j < k" by simp
  have pw: "(2::nat) ^ Suc j \<le> 2 ^ k" using jk by (simp add: Suc_leI power_increasing del: power_Suc)
  have dvd: "2 ^ Suc j dvd f" using Suc.prems(2) jk dvd_trans le_imp_power_dvd [of "Suc j" k "2::nat"] by (metis Suc_leI)
  have al: "2 ^ j dvd f + 2 ^ j" "\<not> 2 ^ Suc j dvd f + 2 ^ j"
    using dvd by (auto intro: dvd_add dvd_trans [of "2 ^ j" "2 ^ Suc j"] simp: dvd_add_right_iff dest: dvd_imp_le)
  have fit: "2 ^ j \<le> (2 ^ k - 2 ^ j :: nat)" using pw unfolding power_Suc by linarith
  have "order_aligned (f + 2 ^ j) MAX_ORDER = j"
    using order_aligned_exact [OF al] jk Suc.prems(5) by (simp add: MAX_ORDER_def)
  then have "run_order (f + 2 ^ j) (2 ^ k - 2 ^ j) = j"
    using order_fitting_exact [OF fit] fit by (simp add: run_order_def Let_def)
  moreover define s1 where "s1 = push_slot s j (frame_to_page (f + 2 ^ j))"
  moreover have "2 ^ k - 2 ^ j - 2 ^ j = (2 ^ k - 2 ^ Suc j :: nat)" "f + 2 ^ j + 2 ^ j = f + 2 ^ Suc j" by simp_all
  moreover have "0 < (2 ^ k - 2 ^ j :: nat)" using jk by simp
  ultimately have loop: "free_add_loop s (f + 2 ^ j) (2 ^ k - 2 ^ j) = free_add_loop s1 (f + 2 ^ Suc j) (2 ^ k - 2 ^ Suc j)"
    by (subst free_add_loop.simps) (simp add: Let_def mult_2 add.assoc)
  have "f + 2 ^ j + 2 ^ j \<le> MAX_FRAMES" using pw Suc.prems(3) unfolding power_Suc by linarith
  then have slot: "slot_ok j (frame_to_page (f + 2 ^ j))" "page_to_frame (frame_to_page (f + 2 ^ j)) = f + 2 ^ j"
    using slot_ok_frame [of "f + 2 ^ j" j] al(1) by auto
  have j11: "j < 11" using jk Suc.prems(5) by simp
  have s1: "buddy_inv s1" "free_frames_of s1 = free_frames_of s + mset [f + 2 ^ j..<f + 2 ^ Suc j]"
    using push_slot_inv [OF Suc.prems(1) j11 slot(1)] push_slot_frames [OF Suc.prems(1) j11] slot(2) Suc.prems(6) jk
    by (auto simp: s1_def block_frames_def mult_2 add.assoc)
  have "free_counts s1 ! i = free_counts s ! i" if "i \<noteq> j" for i
    using that by (simp add: s1_def push_slot_def Let_def)
  then have "free_frames_of (free_add_loop s1 (f + 2 ^ Suc j) (2 ^ k - 2 ^ Suc j))
      = free_frames_of s1 + mset [f + 2 ^ Suc j..<f + 2 ^ k]"
    using Suc.hyps(2) jk Suc.prems s1(1) by (intro Suc.hyps(1)) auto
  then show ?case using loop s1(2) upt_mset_split [of "f + 2 ^ j" "f + 2 ^ Suc j" "f + 2 ^ k"] pw
    by (simp add: ac_simps)
qed

lemma alloc_search_exact:
  assumes "buddy_inv s" and "ks = [m..<11]" and "order \<le> m" and "\<forall>i. order \<le> i \<longrightarrow> i < m \<longrightarrow> free_counts s ! i = 0"
  shows "case alloc_search ks order s of
      (Some a, s') \<Rightarrow> free_frames_of s = free_frames_of s' + block_frames (page_to_frame a) order
    | (None, s') \<Rightarrow> s' = s \<and> (\<forall>i. order \<le> i \<longrightarrow> i < 11 \<longrightarrow> free_counts s ! i = 0)"
  using assms(2-)
proof (induction ks arbitrary: m)
  case Nil
  then have "11 \<le> m" by (metis not_le upt_conv_Nil upt_rec list.distinct(1))
  then show ?case using Nil.prems by simp
next
  case (Cons k ks)
  have k: "k = m" "ks = [Suc m..<11]" "k < 11"
    using Cons.prems(1) [symmetric] by (auto simp: upt_eq_Cons_conv)
  show ?case
  proof (cases "free_counts s ! k > 0")
    case False
    then have step: "alloc_search (k # ks) order s = alloc_search ks order s" by simp
    show ?thesis unfolding step
      by (rule Cons.IH [of "Suc m"]) (use Cons.prems(2,3) k False in \<open>auto simp: less_Suc_eq\<close>)
  next
    case True
    obtain a s1 where pop: "pop_slot s k = (Some a, s1)" using True by (auto simp: pop_slot_def Let_def)
    note pf = pop_slot_Some [OF assms(1) k(3) pop]
    define f where "f = page_to_frame a"
    define s2 where "s2 = bitmap_set s1 f"
    have s2: "buddy_inv s2" "free_frames_of s2 = free_frames_of s1"
      using pf(2) same_slots [of s2 s1] by (auto simp: s2_def)
    have slot: "2 ^ k dvd f" "f + 2 ^ k \<le> MAX_FRAMES" using pf(3) by (auto simp: slot_ok_def f_def)
    have room: "\<forall>i. order \<le> i \<longrightarrow> i < k \<longrightarrow> free_counts s2 ! i < 512"
      using pop Cons.prems(3) k(1) by (auto simp: s2_def pop_slot_def Let_def split: if_splits)
    have le: "order \<le> k" using Cons.prems(2) k(1) by simp
    define s3 where "s3 = (if (2::nat) ^ k > 2 ^ order
        then free_add_run s2 (f + 2 ^ order) (2 ^ k - 2 ^ order) else s2)"
    have s3: "free_frames_of s3 = free_frames_of s1 + mset [f + 2 ^ order..<f + 2 ^ k]"
      using split_exact [OF s2(1) slot le k(3) room] s2(2) le by (auto simp: s3_def free_add_run_def)
    have res: "alloc_search (k # ks) order s
        = (Some a, s3 \<lparr> free_pages := free_pages s3 - of_nat (2 ^ order) \<rparr>)"
      using True pop by (simp add: s3_def s2_def f_def Let_def)
    have "block_frames f k = block_frames f order + mset [f + 2 ^ order..<f + 2 ^ k]"
      using upt_mset_split [of f "f + 2 ^ order" "f + 2 ^ k"] le by (simp add: block_frames_def)
    then show ?thesis using s3 pf(4) same_slots [of "s3 \<lparr> free_pages := free_pages s3 - of_nat (2 ^ order) \<rparr>" s3]
      unfolding res by (simp add: f_def [symmetric] ac_simps)
  qed
qed

text \<open>
  C19. Allocation is exact and complete: a success takes precisely the returned block, which is
  naturally aligned, out of the free frames (splitting never loses a frame), and a failure means that
  no block of the wanted or a larger order exists and changes nothing.
\<close>

theorem alloc_frames_exact:
  assumes "buddy_inv s"
  shows "case alloc_frames s k of
      (Some a, s') \<Rightarrow> free_frames_of s = free_frames_of s' + block_frames (page_to_frame a) (min k MAX_ORDER)
        \<and> slot_ok (min k MAX_ORDER) a
    | (None, s') \<Rightarrow> s' = s \<and> (\<forall>i. min k MAX_ORDER \<le> i \<longrightarrow> i \<le> MAX_ORDER \<longrightarrow> slot_list s i = [])"
proof -
  let ?k = "min k MAX_ORDER"
  have ks: "alloc_frames s k = alloc_search [?k..<11] ?k s" by (simp add: alloc_frames_def MAX_ORDER_def Let_def)
  have exact: "case alloc_search [?k..<11] ?k s of
      (Some a, s') \<Rightarrow> free_frames_of s = free_frames_of s' + block_frames (page_to_frame a) ?k
    | (None, s') \<Rightarrow> s' = s \<and> (\<forall>i. ?k \<le> i \<longrightarrow> i < 11 \<longrightarrow> free_counts s ! i = 0)"
    by (rule alloc_search_exact [OF assms refl]) auto
  obtain x s' where run: "alloc_search [?k..<11] ?k s = (x, s')" by fastforce
  show ?thesis
    using exact alloc_search_frames(1) [OF assms, of "[?k..<11]" ?k]
    unfolding ks run by (cases x) (auto simp: slot_list_def MAX_ORDER_def run)
qed

definition buddy_example :: BuddyAllocator where
  "buddy_example = push_slot buddy_new 2 (frame_to_page 4)"

theorem alloc_frames_exact_witness:
  "\<exists>a s'. alloc_frames buddy_example 0 = (Some a, s') \<and> page_to_frame a = 4 \<and>
     free_frames_of buddy_example = free_frames_of s' + {#4#}"
proof -
  have "buddy_inv buddy_new" using buddy_new_facts(1) [of 0] same_slots(2) [of "init_bitmap buddy_new 0" buddy_new]
    by (simp add: init_bitmap_def)
  then have inv: "buddy_inv buddy_example"
    unfolding buddy_example_def using slot_ok_frame [of 4 2] by (intro push_slot_inv) (simp_all add: MAX_FRAMES_def)
  have "fst (alloc_frames buddy_example 0) = Some (frame_to_page 4)"
    by (simp add: alloc_frames_def MAX_ORDER_def buddy_example_def push_slot_def buddy_new_def
        upt_rec pop_slot_def Let_def nth_list_update)
  then obtain s' where "alloc_frames buddy_example 0 = (Some (frame_to_page 4), s')" by (metis prod.collapse)
  moreover have "page_to_frame (frame_to_page 4) = 4" by (simp add: page_to_frame_to_page MAX_FRAMES_def)
  ultimately show ?thesis using alloc_frames_exact [OF inv, of 0] by (simp add: block_frames_def)
qed

lemma mark_used_loop_slots:
  "free_counts (mark_used_loop fs s) = free_counts s \<and> free_slots (mark_used_loop fs s) = free_slots s"
  by (induction fs arbitrary: s) auto

text \<open>
  Reserving a region of memory has no effect on what the allocator hands out: the slots, and with
  them the frames that allocations are served from, stay as they were.
\<close>

lemma mark_used_region_keeps_free_frames:
  "free_frames_of (mark_used_region s start n) = free_frames_of s \<and>
   fst (alloc_frames (mark_used_region s start n) k) = fst (alloc_frames s k)"
proof -
  let ?s = "mark_used_region s start n"
  have eq: "free_counts ?s = free_counts s" "free_slots ?s = free_slots s"
    using mark_used_loop_slots by (auto simp: mark_used_region_def Let_def)
  have "fst (alloc_search ks j ?s) = fst (alloc_search ks j s)" for ks j
    by (induction ks) (auto simp: pop_slot_def eq Let_def)
  then show ?thesis using same_slots(1) [OF eq] by (simp add: alloc_frames_def Let_def)
qed

text \<open>
  When the 512 slots of the largest order are taken, freeing another block of that order loses
  it: no frame becomes free, although the counter of free pages grows by 1024.
\<close>

lemma free_frames_full_list_leaks:
  assumes "free_counts s ! 10 = 512" and "length (free_counts s) = 11"
  shows "free_frames_of (free_frames s a 10) = free_frames_of s \<and>
    free_pages (free_frames s a 10) = free_pages s + 1024"
proof -
  let ?s1 = "bitmap_set s (page_to_frame a)"
  have "free_frames s a 10 = ?s1 \<lparr> free_pages := free_pages s + 1024 \<rparr>"
    using assms by (simp add: free_frames_def merge_loop.simps MAX_ORDER_def push_slot_def Let_def)
      (simp add: bitmap_set_def)
  then show ?thesis using same_slots(1) [of "free_frames s a 10" s] by simp
qed

end
