(* ===== verification/FreeList.thy ===== *)
theory FreeList
  imports Interfaces Bytes
begin

text \<open>
  The free-block list of the NeoFS file system (neodos-kernel/src/fs/neofs/freelist.rs) with its
  checksummed on-disk node (fs/crc32.rs). Block addresses are 64-bit and region lengths 32-bit words;
  sums wrap as they do in the source. \<open>DISK_LIMIT\<close> is the volume size up to which no sum wraps.
\<close>

section \<open>Checksum\<close>

fun crc32_bits :: "nat \<Rightarrow> u32 \<Rightarrow> u32" where
  "crc32_bits 0 crc = crc"
| "crc32_bits (Suc n) crc =
    crc32_bits n (if crc AND 1 \<noteq> 0 then drop_bit 1 crc XOR 0xEDB88320 else drop_bit 1 crc)"

definition crc32 :: "bytes \<Rightarrow> u32" where
  "crc32 data = NOT (foldl (\<lambda>crc b. crc32_bits 8 (crc XOR ucast b)) (NOT 0) data)"

section \<open>Model\<close>

abbreviation (input) REGION_SIZE :: nat where "REGION_SIZE \<equiv> 12"
abbreviation (input) REGIONS_PER_NODE :: nat where "REGIONS_PER_NODE \<equiv> 340"
abbreviation (input) NODE_SIZE :: nat where "NODE_SIZE \<equiv> 4096"

record FreeRegion =
  fr_start :: u64
  fr_length :: u32

record FreeList =
  fl_regions :: "FreeRegion list"
  fl_dirty :: bool

definition region :: "u64 \<Rightarrow> u32 \<Rightarrow> FreeRegion" where
  "region s l = \<lparr> fr_start = s, fr_length = l \<rparr>"

definition fl_new :: FreeList where
  "fl_new = \<lparr> fl_regions = [], fl_dirty = False \<rparr>"

definition fl_with_range :: "u64 \<Rightarrow> u64 \<Rightarrow> FreeList" where
  "fl_with_range start_lba total_blocks =
    fl_new \<lparr> fl_regions := [region start_lba (ucast total_blocks)], fl_dirty := True \<rparr>"

text \<open>The best-fit scan: \<open>i\<close> is the index of the head of the remaining list.\<close>

fun fl_best :: "FreeRegion list \<Rightarrow> u32 \<Rightarrow> nat \<Rightarrow> FreeRegion list \<Rightarrow> nat option \<Rightarrow> nat option" where
  "fl_best all n i [] best = best"
| "fl_best all n i (r # rest) best =
    (if fr_length r \<ge> n then
       (case best of
          Some b \<Rightarrow> if fr_length (all ! b) \<le> fr_length r then fl_best all n (i + 1) rest best
                    else fl_best all n (i + 1) rest (Some i)
        | None \<Rightarrow> fl_best all n (i + 1) rest (Some i))
     else fl_best all n (i + 1) rest best)"

definition fl_alloc :: "FreeList \<Rightarrow> u32 \<Rightarrow> (u64 \<times> u32) option \<times> FreeList" where
  "fl_alloc fl n =
    (if n = 0 then (None, fl) else
     case fl_best (fl_regions fl) n 0 (fl_regions fl) None of
       None \<Rightarrow> (None, fl)
     | Some i \<Rightarrow>
         let r = fl_regions fl ! i;
             rs = (if fr_length r = n then take i (fl_regions fl) @ drop (Suc i) (fl_regions fl)
                   else (fl_regions fl)[i := region (fr_start r + ucast n) (fr_length r - n)])
         in (Some (fr_start r, n), fl \<lparr> fl_dirty := True, fl_regions := rs \<rparr>))"

definition fl_alloc_blocks :: "FreeList \<Rightarrow> u32 \<Rightarrow> u64 option \<times> FreeList" where
  "fl_alloc_blocks fl n = (let (r, fl') = fl_alloc fl n in (map_option fst r, fl'))"

definition fr_end :: "FreeRegion \<Rightarrow> u64" where
  "fr_end r = fr_start r + ucast (fr_length r)"

function fl_free_loop :: "FreeRegion list \<Rightarrow> nat \<Rightarrow> FreeRegion \<Rightarrow> FreeRegion list" where
  "fl_free_loop rs i merged =
    (if i < length rs then
       let r = rs ! i in
       if fr_end r = fr_start merged then
         fl_free_loop (take i rs @ drop (Suc i) rs) i
           (region (fr_start r) (fr_length r + fr_length merged))
       else if fr_end merged = fr_start r then
         fl_free_loop (take i rs @ drop (Suc i) rs) i
           (region (fr_start merged) (fr_length merged + fr_length r))
       else if fr_end merged \<le> fr_start r then take i rs @ [merged] @ drop i rs
       else fl_free_loop rs (i + 1) merged
     else rs @ [merged])"
  by pat_completeness auto
termination by (relation "measure (\<lambda>(rs, i, _). length rs - i)") auto

declare fl_free_loop.simps [simp del]

definition fl_free :: "FreeList \<Rightarrow> u64 \<Rightarrow> u32 \<Rightarrow> FreeList" where
  "fl_free fl start_lba len =
    fl \<lparr> fl_dirty := True, fl_regions := fl_free_loop (fl_regions fl) 0 (region start_lba len) \<rparr>"

definition fl_total_free :: "FreeList \<Rightarrow> u64" where
  "fl_total_free fl = foldl (\<lambda>t r. t + ucast (fr_length r)) 0 (fl_regions fl)"

fun fl_valid_loop :: "FreeRegion list \<Rightarrow> u64 \<Rightarrow> u64 \<Rightarrow> bool" where
  "fl_valid_loop [] prev_end total_blocks = True"
| "fl_valid_loop (r # rs) prev_end total_blocks =
    (if fr_length r = 0 \<or> fr_start r < prev_end then False else
     case checked_add (fr_start r) (ucast (fr_length r)) of
       Some e \<Rightarrow> if e \<le> total_blocks then fl_valid_loop rs e total_blocks else False
     | None \<Rightarrow> False)"

definition fl_is_valid :: "FreeList \<Rightarrow> u64 \<Rightarrow> bool" where
  "fl_is_valid fl total_blocks = fl_valid_loop (fl_regions fl) 2 total_blocks"

section \<open>On-disk node\<close>

text \<open>Overwriting part of a buffer (\<open>copy_from_slice\<close> into a subrange).\<close>

definition put :: "bytes \<Rightarrow> nat \<Rightarrow> bytes \<Rightarrow> bytes" where
  "put buf off bs = take off buf @ bs @ drop (off + length bs) buf"

fun fl_put_regions :: "FreeRegion list \<Rightarrow> nat \<Rightarrow> bytes \<Rightarrow> nat \<times> bytes" where
  "fl_put_regions [] offset buf = (offset, buf)"
| "fl_put_regions (r # rs) offset buf =
    fl_put_regions rs (offset + REGION_SIZE)
      (put (put buf offset (u64_le (fr_start r))) (offset + 8) (u32_le (fr_length r)))"

definition fl_serialize :: "FreeList \<Rightarrow> u64 \<Rightarrow> bytes" where
  "fl_serialize fl next_lba =
    (let buf = replicate NODE_SIZE 0;
         buf = put buf 0 (u16_le 3);
         n = min (length (fl_regions fl)) REGIONS_PER_NODE;
         buf = put buf 2 (u16_le (of_nat n));
         (offset, buf) = fl_put_regions (take n (fl_regions fl)) 8 buf;
         buf = (if offset + 8 \<le> NODE_SIZE then put buf offset (u64_le next_lba) else buf)
     in put buf 4 (u32_le (crc32 (drop 8 buf))))"

fun fl_get_regions :: "nat \<Rightarrow> nat \<Rightarrow> bytes \<Rightarrow> FreeRegion list \<Rightarrow> nat \<times> FreeRegion list" where
  "fl_get_regions 0 offset buf acc = (offset, acc)"
| "fl_get_regions (Suc n) offset buf acc =
    (if offset + 12 > NODE_SIZE then (offset, acc)
     else fl_get_regions n (offset + REGION_SIZE) buf
       (acc @ [region (le_u64 (slice buf offset (offset + 8))) (le_u32 (slice buf (offset + 8) (offset + 12)))]))"

definition fl_deserialize :: "bytes \<Rightarrow> (FreeList \<times> u64) option" where
  "fl_deserialize buf =
    (let cksum = crc32 (drop 8 buf);
         stored = le_u32 (slice buf 4 8) in
     if stored \<noteq> 0 \<and> stored \<noteq> cksum then None else
     let n = unat (le_u16 (slice buf 2 4));
         (offset, rs) = fl_get_regions (min n REGIONS_PER_NODE) 8 buf [];
         next_lba = (if offset + 8 \<le> NODE_SIZE then le_u64 (slice buf offset (offset + 8)) else 0)
     in Some (\<lparr> fl_regions = rs, fl_dirty = False \<rparr>, next_lba))"

section \<open>Valid lists\<close>

definition DISK_LIMIT :: nat where "DISK_LIMIT = 2 ^ 32"

fun regions_ok :: "nat \<Rightarrow> FreeRegion list \<Rightarrow> bool" where
  "regions_ok lo [] = True"
| "regions_ok lo (r # rs) =
    (fr_length r \<noteq> 0 \<and> lo \<le> unat (fr_start r) \<and> unat (fr_start r) + unat (fr_length r) \<le> DISK_LIMIT \<and>
     regions_ok (unat (fr_start r) + unat (fr_length r)) rs)"

definition fl_inv :: "FreeList \<Rightarrow> bool" where
  "fl_inv fl \<longleftrightarrow> regions_ok 2 (fl_regions fl)"

definition region_units :: "FreeRegion \<Rightarrow> nat multiset" where
  "region_units r = mset [unat (fr_start r)..<unat (fr_start r) + unat (fr_length r)]"

definition regions_units :: "FreeRegion list \<Rightarrow> nat multiset" where
  "regions_units rs = (\<Sum>r\<leftarrow>rs. region_units r)"

lemma ucast_len: "unat (ucast (l::u32) :: u64) = unat l"
proof -
  have "unat l < 2 ^ 32" using unat_bound [of l] by simp
  then show ?thesis by (simp add: unsigned_ucast_eq take_bit_nat_eq_self)
qed

lemma fr_end_unat:
  "unat (fr_start r) + unat (fr_length r) \<le> DISK_LIMIT \<Longrightarrow>
   unat (fr_end r) = unat (fr_start r) + unat (fr_length r)"
  unfolding fr_end_def by (subst unat_add_no_wrap) (auto simp: ucast_len DISK_LIMIT_def)

lemma fl_valid_loop_ok:
  "unat T \<le> DISK_LIMIT \<Longrightarrow> fl_valid_loop rs prev T \<Longrightarrow> regions_ok (unat prev) rs"
proof (induction rs arbitrary: prev)
  case Nil
  then show ?case by simp
next
  case (Cons r rs)
  have "unat (fr_start r) + unat (fr_length r) < 2 ^ 64" "fl_valid_loop rs (fr_end r) T" "fr_end r \<le> T"
      "prev \<le> fr_start r" "fr_length r \<noteq> 0"
    using Cons.prems(2) by (auto simp: checked_add_def fr_end_def ucast_len split: if_splits)
  moreover from this have "unat (fr_end r) = unat (fr_start r) + unat (fr_length r)"
    unfolding fr_end_def by (subst unat_add_no_wrap) (auto simp: ucast_len)
  ultimately show ?case
    using Cons.IH [of "fr_end r"] Cons.prems(1) by (auto simp: word_le_nat_alt)
qed

lemma mset_upt_split: "mset [a..<a + (b + c)] = mset [a..<a + b] + mset [a + b..<a + b + c]"
  by (metis add.assoc le_add1 mset_append upt_add_eq_append)

lemma regions_ok_mono: "regions_ok lo rs \<Longrightarrow> lo' \<le> lo \<Longrightarrow> regions_ok lo' rs"
  by (cases rs) auto

lemma regions_units_simps [simp]:
  "regions_units [] = {#}" "regions_units (r # rs) = region_units r + regions_units rs"
  "regions_units (xs @ ys) = regions_units xs + regions_units ys"
  by (simp_all add: regions_units_def)

lemma regions_ok_bounds: "regions_ok lo rs \<Longrightarrow> u \<in># regions_units rs \<Longrightarrow> lo \<le> u \<and> u < DISK_LIMIT"
proof (induction rs arbitrary: lo)
  case Nil
  then show ?case by simp
next
  case (Cons r rs)
  show ?case
  proof (cases "u \<in># region_units r")
    case True
    then show ?thesis using Cons.prems(1) by (auto simp: region_units_def)
  next
    case False
    then have "u \<in># regions_units rs" using Cons.prems(2) by simp
    then show ?thesis using Cons.IH [of "unat (fr_start r) + unat (fr_length r)"] Cons.prems(1) by auto
  qed
qed

lemma regions_units_once: "regions_ok lo rs \<Longrightarrow> count (regions_units rs) u \<le> 1"
proof (induction rs arbitrary: lo)
  case Nil
  then show ?case by simp
next
  case (Cons r rs)
  let ?e = "unat (fr_start r) + unat (fr_length r)"
  have ok: "regions_ok ?e rs" using Cons.prems by simp
  have "count (region_units r) u \<le> 1"
    unfolding region_units_def using distinct_count_atmost_1 [of "[unat (fr_start r)..<?e]"]
    by (metis distinct_upt le_refl zero_le)
  moreover have "count (region_units r) u = 0 \<or> count (regions_units rs) u = 0"
    using regions_ok_bounds [OF ok, of u] by (auto simp: region_units_def not_in_iff [symmetric] count_eq_zero_iff)
  ultimately show ?case using Cons.IH [OF ok] by auto
qed

section \<open>Freeing\<close>

text \<open>The scan over the part of the list that has not been passed yet.\<close>

fun free_scan :: "FreeRegion list \<Rightarrow> FreeRegion \<Rightarrow> FreeRegion list" where
  "free_scan [] m = [m]"
| "free_scan (r # rs) m =
    (if fr_end r = fr_start m then free_scan rs (region (fr_start r) (fr_length r + fr_length m))
     else if fr_end m = fr_start r then free_scan rs (region (fr_start m) (fr_length m + fr_length r))
     else if fr_end m \<le> fr_start r then m # r # rs
     else r # free_scan rs m)"

lemma fl_free_loop_scan: "fl_free_loop (pre @ rs) (length pre) m = pre @ free_scan rs m"
proof (induction rs arbitrary: pre m)
  case Nil
  then show ?case by (subst fl_free_loop.simps) simp
next
  case (Cons r rs)
  then show ?case
    using Cons.IH [of "pre @ [r]" m] Cons.IH [of pre]
    by (subst fl_free_loop.simps) (simp add: Let_def)
qed

lemma u32_add_len:
  "unat (a::u32) + unat b < 2 ^ 32 \<Longrightarrow> unat (a + b) = unat a + unat b"
  by (simp add: unat_word_ariths)

lemma region_sel [simp]: "fr_start (region s l) = s" "fr_length (region s l) = l"
  by (simp_all add: region_def)

lemma region_eta: "region (fr_start r) (fr_length r) = r"
  by (simp add: region_def)

lemma free_scan_ok:
  assumes "2 \<le> lo" and "regions_ok lo rs" and "fr_length m \<noteq> 0" and "lo \<le> unat (fr_start m)"
    and "unat (fr_start m) + unat (fr_length m) \<le> DISK_LIMIT"
    and "\<forall>u. u \<in># region_units m \<longrightarrow> u \<notin># regions_units rs"
  shows "regions_ok lo (free_scan rs m) \<and> regions_units (free_scan rs m) = regions_units rs + region_units m"
  using assms
proof (induction rs arbitrary: lo m)
  case Nil
  then show ?case by simp
next
  case (Cons r rs)
  let ?rs = "unat (fr_start r)" and ?rl = "unat (fr_length r)" and ?ms = "unat (fr_start m)" and ?ml = "unat (fr_length m)"
  have r: "0 < ?rl" "lo \<le> ?rs" "?rs + ?rl \<le> DISK_LIMIT" "regions_ok (?rs + ?rl) rs"
    using Cons.prems(2) by (auto simp: unat_gt_0)
  have m: "0 < ?ml" using Cons.prems(3) by (simp add: unat_gt_0)
  have ends: "unat (fr_end r) = ?rs + ?rl" "unat (fr_end m) = ?ms + ?ml"
    using fr_end_unat r(3) Cons.prems(5) by auto
  have disj: "?ms + ?ml \<le> ?rs \<or> ?rs + ?rl \<le> ?ms"
  proof (rule ccontr)
    assume "\<not> ?thesis"
    then have "max ?rs ?ms \<in># region_units m" "max ?rs ?ms \<in># region_units r"
      using r(1) m by (auto simp: region_units_def)
    then show False using Cons.prems(6) by auto
  qed
  have rs_ok: "regions_ok lo rs" using regions_ok_mono [OF r(4)] r(2) by simp
  have nonzero: "x \<noteq> 0" if "0 < unat x" for x :: u32 using that by auto
  consider (before) "fr_end r = fr_start m" | (after) "fr_end r \<noteq> fr_start m" "fr_end m = fr_start r"
    | (insert) "fr_end r \<noteq> fr_start m" "fr_end m \<noteq> fr_start r" "fr_end m \<le> fr_start r"
    | (skip) "fr_end r \<noteq> fr_start m" "fr_end m \<noteq> fr_start r" "\<not> fr_end m \<le> fr_start r" by blast
  then show ?case
  proof cases
    case before
    let ?m = "region (fr_start r) (fr_length r + fr_length m)"
    have ms: "?ms = ?rs + ?rl" using before ends(1) by simp
    then have len: "unat (fr_length ?m) = ?rl + ?ml"
      using Cons.prems(1,5) r(2) by (simp add: u32_add_len DISK_LIMIT_def)
    have units: "region_units ?m = region_units r + region_units m"
      using ms len by (simp add: region_units_def mset_upt_split add.assoc del: mset_upt)
    have "u \<notin># regions_units rs" if "u \<in># region_units ?m" for u
      using that Cons.prems(6) regions_ok_bounds [OF r(4), of u] unfolding units
      by (auto simp: region_units_def)
    then have "regions_ok lo (free_scan rs ?m) \<and> regions_units (free_scan rs ?m) = regions_units rs + region_units ?m"
      using Cons.IH [of lo ?m] Cons.prems(1,5) rs_ok r ms len nonzero by simp
    then show ?thesis using before units by (simp add: ac_simps)
  next
    case after
    let ?m = "region (fr_start m) (fr_length m + fr_length r)"
    have ms: "?rs = ?ms + ?ml" using after ends(2) by simp
    then have len: "unat (fr_length ?m) = ?ml + ?rl"
      using Cons.prems(1,4) r(3) by (simp add: u32_add_len DISK_LIMIT_def)
    have units: "region_units ?m = region_units m + region_units r"
      using ms len by (simp add: region_units_def mset_upt_split add.assoc del: mset_upt)
    have "u \<notin># regions_units rs" if "u \<in># region_units ?m" for u
      using that Cons.prems(6) regions_ok_bounds [OF r(4), of u] unfolding units
      by (auto simp: region_units_def)
    then have "regions_ok lo (free_scan rs ?m) \<and> regions_units (free_scan rs ?m) = regions_units rs + region_units ?m"
      using Cons.IH [of lo ?m] Cons.prems(1,4) rs_ok r ms len nonzero by simp
    then show ?thesis using after units by (simp add: ac_simps)
  next
    case insert
    then have "?ms + ?ml \<le> ?rs" using ends(2) by (simp add: word_le_nat_alt)
    then show ?thesis using insert Cons.prems r by (simp add: ac_simps)
  next
    case skip
    then have "?rs + ?rl \<le> ?ms" using disj ends by (auto simp: word_le_nat_alt)
    moreover have "2 \<le> ?rs + ?rl" using Cons.prems(1) r(2) by simp
    ultimately show ?thesis using skip Cons.IH [of "?rs + ?rl" m] Cons.prems r by (simp add: ac_simps)
  qed
qed

section \<open>Allocating\<close>

lemma fl_best_min:
  assumes "rest = drop i all" and "i \<le> length all"
    and "best = None \<Longrightarrow> \<forall>j<i. fr_length (all ! j) < n"
    and "\<And>b. best = Some b \<Longrightarrow> b < i \<and> n \<le> fr_length (all ! b) \<and>
      (\<forall>j<i. n \<le> fr_length (all ! j) \<longrightarrow> fr_length (all ! b) \<le> fr_length (all ! j))"
  shows "case fl_best all n i rest best of
      None \<Rightarrow> \<forall>j<length all. fr_length (all ! j) < n
    | Some b \<Rightarrow> b < length all \<and> n \<le> fr_length (all ! b) \<and>
        (\<forall>j<length all. n \<le> fr_length (all ! j) \<longrightarrow> fr_length (all ! b) \<le> fr_length (all ! j))"
  using assms
proof (induction rest arbitrary: i best)
  case Nil
  then have "i = length all" by simp
  then show ?case using Nil by (cases best) auto
next
  case (Cons r rest)
  have i: "i < length all" "r = all ! i" "rest = drop (Suc i) all"
    using Cons.prems(1) by (metis drop_all list.distinct(1) not_le)
      (metis Cons.prems(1) Cons_nth_drop_Suc drop_all list.distinct(1) list.inject not_le)+
  define best' where "best' = (if n \<le> fr_length r \<and>
      (\<forall>b. best = Some b \<longrightarrow> \<not> fr_length (all ! b) \<le> fr_length r) then Some i else best)"
  have step: "fl_best all n i (r # rest) best = fl_best all n (Suc i) rest best'"
    by (auto simp: best'_def split: option.split)
  show ?case unfolding step
  proof (rule Cons.IH [OF i(3)])
    show "Suc i \<le> length all" using i(1) by simp
    show "\<forall>j<Suc i. fr_length (all ! j) < n" if "best' = None"
      using that Cons.prems(3) i(2) by (auto simp: best'_def less_Suc_eq split: if_splits)
    show "b < Suc i \<and> n \<le> fr_length (all ! b) \<and>
        (\<forall>j<Suc i. n \<le> fr_length (all ! j) \<longrightarrow> fr_length (all ! b) \<le> fr_length (all ! j))"
      if b: "best' = Some b" for b
    proof (cases "best' = best")
      case True
      then show ?thesis using Cons.prems(4) [of b] b i(2)
        by (auto simp: best'_def less_Suc_eq not_le split: if_splits)
    next
      case False
      then have new: "b = i" "n \<le> fr_length r" "\<forall>c. best = Some c \<longrightarrow> fr_length r < fr_length (all ! c)"
        using b by (auto simp: best'_def not_le split: if_splits)
      have "fr_length r \<le> fr_length (all ! j)" if "j < i" "n \<le> fr_length (all ! j)" for j
        using that new(3) Cons.prems(3,4)
        by (cases best) (auto simp: not_less [symmetric] dest: less_le_trans)
      then show ?thesis using new i(2) by (auto simp: less_Suc_eq)
    qed
  qed
qed

definition take_blocks :: "FreeRegion list \<Rightarrow> nat \<Rightarrow> u32 \<Rightarrow> FreeRegion list" where
  "take_blocks rs i n = (let r = rs ! i in
     if fr_length r = n then take i rs @ drop (Suc i) rs
     else rs[i := region (fr_start r + ucast n) (fr_length r - n)])"

lemma take_blocks_ok:
  assumes "regions_ok lo rs" and "i < length rs" and "n \<noteq> 0" and "n \<le> fr_length (rs ! i)"
  shows "regions_ok lo (take_blocks rs i n) \<and>
    regions_units rs = regions_units (take_blocks rs i n) + region_units (region (fr_start (rs ! i)) n) \<and>
    lo \<le> unat (fr_start (rs ! i)) \<and> unat (fr_start (rs ! i)) + unat n \<le> DISK_LIMIT"
  using assms
proof (induction rs arbitrary: lo i)
  case Nil
  then show ?case by simp
next
  case (Cons r rs)
  let ?s = "unat (fr_start r)" and ?l = "unat (fr_length r)"
  have ok: "lo \<le> ?s" "?s + ?l \<le> DISK_LIMIT" "regions_ok (?s + ?l) rs" "fr_length r \<noteq> 0"
    using Cons.prems(1) by auto
  show ?case
  proof (cases i)
    case (Suc j)
    have "regions_ok (?s + ?l) (take_blocks rs j n) \<and>
      regions_units rs = regions_units (take_blocks rs j n) + region_units (region (fr_start (rs ! j)) n) \<and>
      ?s + ?l \<le> unat (fr_start (rs ! j)) \<and> unat (fr_start (rs ! j)) + unat n \<le> DISK_LIMIT"
      using Cons.IH [OF ok(3), of j] Cons.prems Suc by simp
    moreover have "take_blocks (r # rs) i n = r # take_blocks rs j n"
      by (simp add: take_blocks_def Suc Let_def)
    ultimately show ?thesis using ok Suc by (auto simp: add.assoc)
  next
    case 0
    have n: "0 < unat n" "unat n \<le> ?l" using Cons.prems(3,4) 0 by (auto simp: unat_gt_0 word_le_nat_alt)
    show ?thesis
    proof (cases "fr_length r = n")
      case True
      then show ?thesis using ok 0 regions_ok_mono [OF ok(3), of lo]
        by (simp add: take_blocks_def Let_def region_units_def ac_simps)
    next
      case False
      let ?r = "region (fr_start r + ucast n) (fr_length r - n)"
      have len: "unat (fr_length r - n) = ?l - unat n" using n(2) by (simp add: unat_sub word_le_nat_alt)
      have start: "unat (fr_start r + ucast n) = ?s + unat n"
        using ok(2) n(2) by (subst unat_add_no_wrap) (auto simp: ucast_len DISK_LIMIT_def)
      have "?l \<noteq> unat n" using False by (simp add: word_unat_eq_iff)
      then have "fr_length r - n \<noteq> 0" using len n(2) by auto
      moreover have "region_units r = region_units ?r + region_units (region (fr_start r) n)"
        using mset_upt_split [of ?s "unat n" "?l - unat n"] n(2) len start
        by (simp add: region_units_def add.assoc ac_simps del: mset_upt)
      ultimately show ?thesis using ok 0 n len start False
        by (simp add: take_blocks_def Let_def ac_simps)
    qed
  qed
qed

lemma fl_alloc_blocks_cases:
  assumes "fl_inv fl"
  shows "fl_alloc_blocks fl n = (Some a, fl') \<Longrightarrow> fl_inv fl' \<and> n \<noteq> 0 \<and> 2 \<le> unat a \<and>
      unat a + unat n \<le> DISK_LIMIT \<and>
      regions_units (fl_regions fl) = regions_units (fl_regions fl') + region_units (region a n)"
    and "fl_alloc_blocks fl n = (None, fl') \<Longrightarrow> fl' = fl"
proof -
  let ?rs = "fl_regions fl"
  note best = fl_best_min [of ?rs 0 ?rs None n, simplified]
  {
    assume al: "fl_alloc_blocks fl n = (Some a, fl')"
    then obtain i where i: "n \<noteq> 0" "fl_best ?rs n 0 ?rs None = Some i" "a = fr_start (?rs ! i)"
        "fl_regions fl' = take_blocks ?rs i n"
      by (auto simp: fl_alloc_blocks_def fl_alloc_def take_blocks_def Let_def split: if_splits option.splits)
    then have "i < length ?rs" "n \<le> fr_length (?rs ! i)" using best by auto
    then show "fl_inv fl' \<and> n \<noteq> 0 \<and> 2 \<le> unat a \<and> unat a + unat n \<le> DISK_LIMIT \<and>
        regions_units ?rs = regions_units (fl_regions fl') + region_units (region a n)"
      using take_blocks_ok [of 2 ?rs i n] assms i by (simp add: fl_inv_def)
  next
    assume "fl_alloc_blocks fl n = (None, fl')"
    then show "fl' = fl"
      by (auto simp: fl_alloc_blocks_def fl_alloc_def Let_def split: if_splits option.splits)
  }
qed

definition block_valid :: "u32 \<Rightarrow> u64 \<Rightarrow> bool" where
  "block_valid n a \<longleftrightarrow> n \<noteq> 0 \<and> 2 \<le> unat a \<and> unat a + unat n \<le> DISK_LIMIT"

lemma fl_free_units:
  assumes "fl_inv fl" and "block_valid n a"
    and "\<forall>u. count (regions_units (fl_regions fl) + region_units (region a n)) u \<le> 1"
  shows "fl_inv (fl_free fl a n) \<and>
    regions_units (fl_regions (fl_free fl a n)) = regions_units (fl_regions fl) + region_units (region a n)"
proof -
  have "\<forall>u. u \<in># region_units (region a n) \<longrightarrow> u \<notin># regions_units (fl_regions fl)"
  proof (intro allI impI notI)
    fix u assume "u \<in># region_units (region a n)" "u \<in># regions_units (fl_regions fl)"
    then have "2 \<le> count (regions_units (fl_regions fl) + region_units (region a n)) u"
      by (simp add: Suc_le_eq add_mono [of 1 _ 1, simplified] flip: count_greater_zero_iff one_add_one)
    then show False using assms(3) by (metis numeral_le_one_iff order_trans semiring_norm(69))
  qed
  then show ?thesis
    using free_scan_ok [of 2 "fl_regions fl" "region a n"] assms fl_free_loop_scan [of "[]" "fl_regions fl" "region a n"]
    by (simp add: fl_inv_def fl_free_def block_valid_def)
qed

interpretation fl: exact_alloc fl_inv "\<lambda>fl. regions_units (fl_regions fl)" "\<lambda>n a. region_units (region a n)"
  block_valid fl_alloc_blocks "\<lambda>fl n a. fl_free fl a n"
  by unfold_locales (auto simp: fl_alloc_blocks_cases fl_free_units block_valid_def dest: fl_alloc_blocks_cases)

section \<open>Reading a node back\<close>

definition region_bytes :: "FreeRegion \<Rightarrow> bytes" where
  "region_bytes r = u64_le (fr_start r) @ u32_le (fr_length r)"

lemma length_region_bytes [simp]: "length (region_bytes r) = 12"
  by (simp add: region_bytes_def)

lemma length_regions_bytes [simp]: "length (concat (map region_bytes rs)) = 12 * length rs"
  by (induction rs) auto

lemma put_append: "off = length pre \<Longrightarrow> put (pre @ junk) off bs = pre @ bs @ drop (length bs) junk"
  by (simp add: put_def)

lemma fl_put_regions_bytes:
  "12 * length rs \<le> length junk \<Longrightarrow>
   fl_put_regions rs (length pre) (pre @ junk)
     = (length pre + 12 * length rs, pre @ concat (map region_bytes rs) @ drop (12 * length rs) junk)"
proof (induction rs arbitrary: pre junk)
  case Nil
  then show ?case by simp
next
  case (Cons r rs)
  have "put (put (pre @ junk) (length pre) (u64_le (fr_start r))) (length pre + 8) (u32_le (fr_length r))
      = (pre @ region_bytes r) @ drop 12 junk"
    using put_append [of "length pre + 8" "pre @ u64_le (fr_start r)" "drop 8 junk" "u32_le (fr_length r)"]
    by (simp add: put_append region_bytes_def)
  then show ?case using Cons.IH [of "drop 12 junk" "pre @ region_bytes r"] Cons.prems
    by (simp add: ac_simps)
qed

lemma fl_get_regions_bytes:
  "length pre + 12 * length rs \<le> NODE_SIZE \<Longrightarrow>
   fl_get_regions (length rs) (length pre) (pre @ concat (map region_bytes rs) @ rest) acc
     = (length pre + 12 * length rs, acc @ rs)"
proof (induction rs arbitrary: pre acc)
  case Nil
  then show ?case by simp
next
  case (Cons r rs)
  let ?tail = "concat (map region_bytes rs) @ rest"
  have "slice (pre @ region_bytes r @ ?tail) (length pre) (length pre + 8) = u64_le (fr_start r)"
    unfolding region_bytes_def [of r] append.assoc by (rule slice_append_mid) simp_all
  moreover have "slice (pre @ region_bytes r @ ?tail) (length pre + 8) (length pre + 12) = u32_le (fr_length r)"
    using slice_append_mid [of "length pre + 8" "pre @ u64_le (fr_start r)" "length pre + 12" "u32_le (fr_length r)" ?tail]
    by (simp add: region_bytes_def [of r])
  ultimately show ?case
    using Cons.IH [of "pre @ region_bytes r" "acc @ [r]"] Cons.prems
    by (simp add: region_eta add.assoc)
qed

lemma fl_serialize_layout:
  assumes "length (fl_regions fl) \<le> 340"
  shows "\<exists>payload junk. fl_serialize fl next
      = u16_le 3 @ u16_le (of_nat (length (fl_regions fl))) @ u32_le (crc32 payload) @ payload \<and>
    payload = concat (map region_bytes (fl_regions fl)) @ u64_le next @ junk \<and> length payload = 4088"
proof -
  let ?rs = "fl_regions fl" and ?n = "length (fl_regions fl)"
  define hd where "hd = u16_le 3 @ u16_le (of_nat ?n) @ replicate 4 (0::u8)"
  have lh: "length hd = 8" by (simp add: hd_def)
  have b1: "put (put (replicate NODE_SIZE 0) 0 (u16_le 3)) 2 (u16_le (of_nat ?n)) = hd @ replicate 4088 0"
    using put_append [of 2 "u16_le 3" "replicate 4094 0" "u16_le (of_nat ?n)"]
      replicate_add [of 4 4088 "0::u8"] by (simp add: put_def hd_def)
  define junk where "junk = replicate (4080 - 12 * ?n) (0::u8)"
  have b2: "fl_put_regions ?rs 8 (hd @ replicate 4088 0)
      = (8 + 12 * ?n, hd @ concat (map region_bytes ?rs) @ replicate (4088 - 12 * ?n) 0)"
    using fl_put_regions_bytes [of ?rs "replicate 4088 0" hd] lh assms by simp
  define payload where "payload = concat (map region_bytes ?rs) @ u64_le next @ junk"
  have b3: "put (hd @ concat (map region_bytes ?rs) @ replicate (4088 - 12 * ?n) 0) (8 + 12 * ?n) (u64_le next)
      = hd @ payload"
    using put_append [of "8 + 12 * ?n" "hd @ concat (map region_bytes ?rs)" "replicate (4088 - 12 * ?n) 0" "u64_le next"] lh
    by (simp add: payload_def junk_def)
  have lp: "length payload = 4088" using assms by (simp add: payload_def junk_def)
  have b4: "put (hd @ payload) 4 (u32_le (crc32 (drop 8 (hd @ payload))))
      = u16_le 3 @ u16_le (of_nat ?n) @ u32_le (crc32 payload) @ payload"
    using put_append [of 4 "u16_le 3 @ u16_le (of_nat ?n)" "replicate 4 0 @ payload" "u32_le (crc32 payload)"] lh
    by (simp add: hd_def)
  have "fl_serialize fl next = put (hd @ payload) 4 (u32_le (crc32 (drop 8 (hd @ payload))))"
    using assms b1 b2 b3 by (simp add: fl_serialize_def Let_def)
  then show ?thesis using b4 lp payload_def by auto
qed

text \<open>
  C21. A free-list node written to disk is accepted when read back and gives the same regions and the
  same link to the next node, for every list that fits in one node.
\<close>

theorem fl_deserialize_serialize:
  assumes "length (fl_regions fl) \<le> 340"
  shows "length (fl_serialize fl next) = 4096 \<and>
    fl_deserialize (fl_serialize fl next) = Some (fl \<lparr> fl_dirty := False \<rparr>, next)"
proof -
  let ?rs = "fl_regions fl" and ?n = "length (fl_regions fl)"
  obtain payload junk where ser: "fl_serialize fl next
      = u16_le 3 @ u16_le (of_nat ?n) @ u32_le (crc32 payload) @ payload"
      and pl: "payload = concat (map region_bytes ?rs) @ u64_le next @ junk" "length payload = 4088"
    using fl_serialize_layout [OF assms, of "next"] by blast
  define hd where "hd = u16_le 3 @ u16_le (of_nat ?n) @ u32_le (crc32 payload)"
  have lh: "length hd = 8" by (simp add: hd_def)
  have ser': "fl_serialize fl next = hd @ payload" by (simp add: ser hd_def)
  have "slice (hd @ payload) 4 8 = u32_le (crc32 payload)"
    using slice_append_mid [of 4 "u16_le 3 @ u16_le (of_nat ?n)" 8 "u32_le (crc32 payload)" payload] by (simp add: hd_def)
  moreover have "slice (hd @ payload) 2 4 = u16_le (of_nat ?n)"
    using slice_append_mid [of 2 "u16_le 3" 4 "u16_le (of_nat ?n)" "u32_le (crc32 payload) @ payload"] by (simp add: hd_def)
  moreover have "fl_get_regions ?n 8 (hd @ payload) [] = (8 + 12 * ?n, ?rs)"
    using fl_get_regions_bytes [of hd ?rs "u64_le next @ junk" "[]"] lh assms pl(1) by simp
  moreover have "slice (hd @ payload) (8 + 12 * ?n) (8 + 12 * ?n + 8) = u64_le next"
    using slice_append_mid [of "8 + 12 * ?n" "hd @ concat (map region_bytes ?rs)" "8 + 12 * ?n + 8" "u64_le next" junk] lh
    by (simp add: pl(1))
  ultimately have "fl_deserialize (hd @ payload) = Some (\<lparr> fl_regions = ?rs, fl_dirty = False \<rparr>, next)"
    using assms lh by (simp add: fl_deserialize_def Let_def)
  then show ?thesis using ser' lh pl(2) by simp
qed

theorem fl_deserialize_serialize_witness:
  "fl_deserialize (fl_serialize (fl_with_range 2 100) 7) = Some ((fl_with_range 2 100) \<lparr> fl_dirty := False \<rparr>, 7)"
  using fl_deserialize_serialize [of "fl_with_range 2 100" 7] by (simp add: fl_with_range_def)

section \<open>Properties\<close>

text \<open>
  C4. Disk blocks are neither lost nor handed out twice. From a list that passes the mount-time
  validation of a volume of at most 2^32 blocks, after any sequence of allocations and frees of held
  extents, the free blocks and the held blocks together are exactly the blocks that were free at the
  start, each once, and none of them is one of the two reserved blocks 0 and 1.
\<close>

theorem fl_conserves_blocks:
  assumes "fl_is_valid fl total_blocks" and "unat total_blocks \<le> DISK_LIMIT"
  shows "let (fl', held) = alloc_run fl_alloc_blocks (\<lambda>fl n a. fl_free fl a n) ops (fl, []);
             blocks = regions_units (fl_regions fl') + held_units (\<lambda>n a. region_units (region a n)) held
         in blocks = regions_units (fl_regions fl) \<and> (\<forall>b. count blocks b \<le> 1) \<and> 0 \<notin># blocks \<and> 1 \<notin># blocks"
proof -
  have ok: "regions_ok 2 (fl_regions fl)" using fl_valid_loop_ok [OF assms(2)] assms(1) by (fastforce simp: fl_is_valid_def)
  then have inv: "fl_inv fl" by (simp add: fl_inv_def)
  have once: "\<forall>u. count (regions_units (fl_regions fl)) u \<le> 1" using regions_units_once [OF ok] by blast
  obtain fl' held where run: "alloc_run fl_alloc_blocks (\<lambda>fl n a. fl_free fl a n) ops (fl, []) = (fl', held)" by fastforce
  have "0 \<notin># regions_units (fl_regions fl)" "1 \<notin># regions_units (fl_regions fl)"
    using regions_ok_bounds [OF ok] by fastforce+
  then show ?thesis using once unfolding run Let_def prod.case fl.run_exact [OF inv once run] by blast
qed

theorem fl_conserves_blocks_witness:
  "case alloc_run fl_alloc_blocks (\<lambda>fl n a. fl_free fl a n) [AllocOp 3, AllocOp 5, FreeOp 0]
         (fl_with_range 2 100, []) of (fl', held) \<Rightarrow>
     regions_units (fl_regions fl') + held_units (\<lambda>n a. region_units (region a n)) held
       = regions_units (fl_regions (fl_with_range 2 100))"
proof -
  have "fl_is_valid (fl_with_range 2 100) 1000"
    by (simp add: fl_with_range_def fl_is_valid_def checked_add_def)
  moreover have "unat (1000::u64) \<le> DISK_LIMIT" by (simp add: DISK_LIMIT_def)
  ultimately show ?thesis
    using fl_conserves_blocks [of "fl_with_range 2 100" 1000 "[AllocOp 3, AllocOp 5, FreeOp 0]"]
    unfolding Let_def case_prod_beta by blast
qed

text \<open>
  Allocation is best fit and complete: a request succeeds exactly when it is non-empty and some
  region is long enough, and then it is served from the start of a region whose length is minimal among
  those that suffice.
\<close>

lemma fl_alloc_best_fit:
  "case fst (fl_alloc fl n) of
     None \<Rightarrow> n = 0 \<or> list_all (\<lambda>r. fr_length r < n) (fl_regions fl)
   | Some (start, len) \<Rightarrow> len = n \<and> (\<exists>r\<in>set (fl_regions fl). fr_start r = start \<and> n \<le> fr_length r \<and>
       list_all (\<lambda>r'. fr_length r' < n \<or> fr_length r \<le> fr_length r') (fl_regions fl))"
proof (cases "n = 0")
  case True
  then show ?thesis by (simp add: fl_alloc_def)
next
  case False
  let ?rs = "fl_regions fl"
  note best = fl_best_min [of ?rs 0 ?rs None n, simplified]
  show ?thesis
  proof (cases "fl_best ?rs n 0 ?rs None")
    case None
    then show ?thesis using best False by (auto simp: fl_alloc_def list_all_length)
  next
    case (Some i)
    then have "i < length ?rs" "n \<le> fr_length (?rs ! i)"
        "\<forall>j<length ?rs. n \<le> fr_length (?rs ! j) \<longrightarrow> fr_length (?rs ! i) \<le> fr_length (?rs ! j)"
      using best by auto
    then show ?thesis using Some False
      by (auto simp: fl_alloc_def Let_def list_all_length not_le intro!: bexI [of _ "?rs ! i"])
  qed
qed

section \<open>Rebuilding the list from the used blocks\<close>

function skip_used :: "u64 list \<Rightarrow> nat \<Rightarrow> nat \<Rightarrow> nat" where
  "skip_used used block idx =
    (if idx < length used \<and> unat (used ! idx) < block then skip_used used block (idx + 1) else idx)"
  by pat_completeness auto
termination by (relation "measure (\<lambda>(used, _, idx). length used - idx)") auto

declare skip_used.simps [simp del]

lemma skip_used_stops:
  "\<not> (skip_used used b i < length used \<and> unat (used ! skip_used used b i) < b)"
proof (induction used b i rule: skip_used.induct)
  case (1 used b i)
  show ?case
  proof (cases "i < length used \<and> unat (used ! i) < b")
    case True
    then have "skip_used used b i = skip_used used b (i + 1)" by (subst skip_used.simps) simp
    then show ?thesis using "1.IH" [OF True] by simp
  next
    case False
    then have "skip_used used b i = i" by (subst skip_used.simps) auto
    then show ?thesis using False by simp
  qed
qed

lemma skip_used_idem [simp]: "skip_used used b (skip_used used b i) = skip_used used b i"
  using skip_used_stops [of used b i] by (subst skip_used.simps) auto

function run_end :: "u64 list \<Rightarrow> nat \<Rightarrow> nat \<Rightarrow> nat \<Rightarrow> nat \<times> nat" where
  "run_end used total_blocks block idx =
    (if block < total_blocks then
       let idx = skip_used used block idx in
       if idx < length used \<and> unat (used ! idx) = block then (block, idx)
       else run_end used total_blocks (block + 1) idx
     else (block, idx))"
  by pat_completeness auto
termination by (relation "measure (\<lambda>(_, t, b, _). t - b)") auto

declare run_end.simps [simp del]

lemma run_end_ge: "b \<le> fst (run_end used t b i)"
proof (induction used t b i rule: run_end.induct)
  case (1 used t b i)
  then show ?case by (subst run_end.simps) (auto simp: Let_def)
qed

lemma run_end_progress:
  assumes "b < t" and "\<not> (i < length used \<and> unat (used ! i) = b)" and "i = skip_used used b i"
  shows "b < fst (run_end used t b i)"
  using assms run_end_ge [of "Suc b" used t i] by (subst run_end.simps) (auto simp: Let_def)

function from_used_loop ::
  "u64 list \<Rightarrow> nat \<Rightarrow> nat \<Rightarrow> nat \<Rightarrow> FreeRegion list \<Rightarrow> FreeRegion list" where
  "from_used_loop used total_blocks block idx acc =
    (if block < total_blocks then
       let idx = skip_used used block idx in
       if idx < length used \<and> unat (used ! idx) = block
       then from_used_loop used total_blocks (block + 1) idx acc
       else let r = run_end used total_blocks block idx in
         from_used_loop used total_blocks (fst r) (snd r)
           (acc @ [region (of_nat block) (of_nat (fst r - block))])
     else acc)"
  by pat_completeness auto
termination
proof (relation "measure (\<lambda>(_, t, b, _). t - b)")
  fix used :: "u64 list" and t b idx i r acc
  assume "b < t" "i = skip_used used b idx" "\<not> (i < length used \<and> unat (used ! i) = b)" "r = run_end used t b i"
  then have "b < fst r" using run_end_progress [of b t i used] by simp
  then show "((used, t, fst r, snd r, acc @ [region (of_nat b) (of_nat (fst r - b))]), used, t, b, idx, acc)
      \<in> measure (\<lambda>(_, t, b, _). t - b)"
    using \<open>b < t\<close> by simp
qed auto

declare from_used_loop.simps [simp del]

definition fl_from_used :: "u64 list \<Rightarrow> u64 \<Rightarrow> FreeList" where
  "fl_from_used used total_blocks =
    \<lparr> fl_regions = from_used_loop used (unat total_blocks) 0 0 [], fl_dirty = True \<rparr>"

text \<open>The scan position is behind every used block that is smaller than the current block.\<close>

definition scan_at :: "u64 list \<Rightarrow> nat \<Rightarrow> nat \<Rightarrow> bool" where
  "scan_at used b i \<longleftrightarrow> (\<forall>j<i. j < length used \<longrightarrow> unat (used ! j) < b)"

lemma scan_at_skip: "scan_at used b i \<Longrightarrow> scan_at used b (skip_used used b i)"
proof (induction used b i rule: skip_used.induct)
  case (1 used b i)
  show ?case
  proof (cases "i < length used \<and> unat (used ! i) < b")
    case True
    then have "scan_at used b (i + 1)" using "1.prems" by (auto simp: scan_at_def less_Suc_eq)
    then show ?thesis using "1.IH" [OF True] True by (subst skip_used.simps) simp
  next
    case False
    then show ?thesis using "1.prems" by (subst skip_used.simps) auto
  qed
qed

lemma scan_at_Suc: "scan_at used b i \<Longrightarrow> scan_at used (Suc b) i"
  by (auto simp: scan_at_def less_Suc_eq)

lemma skip_used_member:
  assumes "sorted used" and "scan_at used b i" and "i = skip_used used b i"
  shows "(i < length used \<and> unat (used ! i) = b) \<longleftrightarrow> b \<in> unat ` set used"
proof
  assume "b \<in> unat ` set used"
  then obtain j where j: "j < length used" "unat (used ! j) = b" by (auto simp: in_set_conv_nth)
  then have "i \<le> j" using assms(2) by (auto simp: scan_at_def not_less [symmetric])
  then have "unat (used ! i) \<le> b" "i < length used"
    using sorted_nth_mono [OF assms(1), of i j] j by (auto simp: word_le_nat_alt)
  moreover have "\<not> (i < length used \<and> unat (used ! i) < b)" using skip_used_stops [of used b i] assms(3) by simp
  ultimately show "i < length used \<and> unat (used ! i) = b" by auto
qed auto

lemma run_end_spec:
  assumes "sorted used" and "scan_at used b i" and "b \<le> t" and "run_end used t b i = (b', i')"
  shows "b' \<le> t \<and> scan_at used b' i' \<and> (\<forall>x. b \<le> x \<longrightarrow> x < b' \<longrightarrow> x \<notin> unat ` set used)"
  using assms
proof (induction used t b i rule: run_end.induct)
  case (1 used t b i)
  let ?i = "skip_used used b i"
  have at: "scan_at used b ?i" by (rule scan_at_skip [OF "1.prems"(2)])
  note mem = skip_used_member [OF "1.prems"(1) at] 
  show ?case
  proof (cases "b < t \<and> \<not> (?i < length used \<and> unat (used ! ?i) = b)")
    case True
    then have notin: "b \<notin> unat ` set used" using mem by simp
    have run: "run_end used t (b + 1) ?i = (b', i')" using "1.prems"(4) True by (subst (asm) run_end.simps) (auto simp: Let_def)
    have "b' \<le> t \<and> scan_at used b' i' \<and> (\<forall>x. b + 1 \<le> x \<longrightarrow> x < b' \<longrightarrow> x \<notin> unat ` set used)"
      using "1.IH" [OF _ refl] True "1.prems"(1) scan_at_Suc [OF at] run by simp
    then show ?thesis using notin by (metis Suc_eq_plus1 Suc_leI le_neq_implies_less)
  next
    case False
    then have "b' = b \<and> (i' = i \<or> i' = ?i)"
      using "1.prems"(4) by (auto simp: run_end.simps [of used t b i] Let_def split: if_splits)
    then show ?thesis using "1.prems"(2,3) at by auto
  qed
qed

lemma from_used_loop_spec:
  assumes "sorted used" and "scan_at used b i" and "b \<le> t" and "t < 2 ^ 32"
  shows "\<exists>rs. from_used_loop used t b i acc = acc @ rs \<and> regions_ok b rs \<and>
    regions_units rs = mset (filter (\<lambda>x. x \<notin> unat ` set used) [b..<t])"
  using assms
proof (induction used t b i acc rule: from_used_loop.induct)
  case (1 used t b i acc)
  let ?i = "skip_used used b i" and ?free = "\<lambda>x. x \<notin> unat ` set used"
  have at: "scan_at used b ?i" by (rule scan_at_skip [OF "1.prems"(2)])
  note mem = skip_used_member [OF "1.prems"(1) at]
  consider (stop) "\<not> b < t" | (used) "b < t" "?i < length used \<and> unat (used ! ?i) = b"
    | (run) "b < t" "\<not> (?i < length used \<and> unat (used ! ?i) = b)" by blast
  then show ?case
  proof cases
    case stop
    then show ?thesis by (subst from_used_loop.simps) simp
  next
    case used
    have "from_used_loop used t b i acc = from_used_loop used t (b + 1) ?i acc"
      using used by (subst from_used_loop.simps) (simp add: Let_def)
    moreover have "filter ?free [b..<t] = filter ?free [b + 1..<t]"
      using used mem by (simp add: upt_conv_Cons)
    moreover have "\<exists>rs. from_used_loop used t (b + 1) ?i acc = acc @ rs \<and> regions_ok (b + 1) rs \<and>
        regions_units rs = mset (filter ?free [b + 1..<t])"
      using "1.IH"(1) [OF used(1) refl used(2)] "1.prems" scan_at_Suc [OF at] used(1) by simp
    ultimately show ?thesis using regions_ok_mono by (metis le_add1)
  next
    case run
    obtain b' i' where r: "run_end used t b ?i = (b', i')" by fastforce
    have spec: "b' \<le> t" "scan_at used b' i'" "\<forall>x. b \<le> x \<longrightarrow> x < b' \<longrightarrow> ?free x"
      using run_end_spec [OF "1.prems"(1) at _ r] run(1) by auto
    have lt: "b < b'" using run_end_progress [OF run] r by simp
    let ?r = "region (of_nat b) (of_nat (b' - b))"
    have "from_used_loop used t b i acc = from_used_loop used t b' i' (acc @ [?r])"
      using run r by (subst from_used_loop.simps) (auto simp: Let_def)
    moreover obtain rs where rs: "from_used_loop used t b' i' (acc @ [?r]) = (acc @ [?r]) @ rs"
        "regions_ok b' rs" "regions_units rs = mset (filter ?free [b'..<t])"
      using "1.IH"(2) [OF run(1) refl run(2) refl] r spec(1,2) "1.prems"(1,4) by auto
    moreover have vals: "unat (fr_start ?r) = b" "unat (fr_length ?r) = b' - b"
      using lt spec(1) "1.prems"(4) by (simp_all add: unat_of_nat del: of_nat_diff)
    then have "regions_ok b (?r # rs)"
      using rs(2) lt spec(1) "1.prems"(4) by (auto simp: DISK_LIMIT_def simp flip: unat_gt_0)
    moreover have "[b..<t] = [b..<b'] @ [b'..<t]"
      using lt spec(1) by (metis less_imp_le upt_add_eq_append le_add_diff_inverse)
    then have "regions_units (?r # rs) = mset (filter ?free [b..<t])"
      using rs(3) vals lt spec(3) by (simp add: region_units_def filter_id_conv del: mset_upt)
    ultimately show ?thesis by (metis append.assoc append_Cons append_Nil)
  qed
qed

lemma regions_ok_valid:
  "regions_ok (unat prev) rs \<Longrightarrow> \<forall>u. u \<in># regions_units rs \<longrightarrow> u < unat t \<Longrightarrow> fl_valid_loop rs prev t"
proof (induction rs arbitrary: prev)
  case Nil
  then show ?case by simp
next
  case (Cons r rs)
  let ?e = "unat (fr_start r) + unat (fr_length r)"
  have l: "0 < unat (fr_length r)" using Cons.prems(1) by (simp add: unat_gt_0)
  have e: "unat (fr_end r) = ?e" using fr_end_unat Cons.prems(1) by simp
  have "?e - 1 \<in># region_units r" using l by (auto simp: region_units_def)
  then have "?e - 1 < unat t" using Cons.prems(2) by simp
  then have "fr_end r \<le> t" using e l by (simp add: word_le_nat_alt)
  moreover have "checked_add (fr_start r) (ucast (fr_length r)) = Some (fr_end r)"
    using Cons.prems(1) by (simp add: checked_add_def fr_end_def ucast_len DISK_LIMIT_def)
  ultimately show ?case
    using Cons.IH [of "fr_end r"] Cons.prems e by (simp add: word_le_nat_alt not_less)
qed

text \<open>
  C20. The list rebuilt at mount from the sorted used blocks of a volume of fewer than 2^32 blocks
  holds exactly the blocks that are not used, each once, and when the two reserved blocks are among
  the used ones it passes the validation.
\<close>

theorem fl_from_used_complement:
  assumes "sorted used" and "unat total_blocks < 2 ^ 32" and "0 \<in> set used" and "1 \<in> set used"
  shows "regions_units (fl_regions (fl_from_used used total_blocks))
      = mset (filter (\<lambda>x. x \<notin> unat ` set used) [0..<unat total_blocks])
    \<and> fl_is_valid (fl_from_used used total_blocks) total_blocks"
proof -
  let ?rs = "fl_regions (fl_from_used used total_blocks)" and ?t = "unat total_blocks"
  have ok: "regions_ok 0 ?rs" and units: "regions_units ?rs = mset (filter (\<lambda>x. x \<notin> unat ` set used) [0..<?t])"
    using from_used_loop_spec [OF assms(1) _ _ assms(2), of 0 0 "[]"]
    by (auto simp: fl_from_used_def scan_at_def)
  have "(0::nat) \<in> unat ` set used" "(1::nat) \<in> unat ` set used" using assms(3,4) by force+
  then have bounds: "2 \<le> u \<and> u < ?t" if "u \<in># regions_units ?rs" for u
    using that unfolding units by (cases "u = 0 \<or> u = 1") auto
  have "regions_ok 2 ?rs"
  proof (cases ?rs)
    case (Cons r rs)
    then have "unat (fr_start r) \<in># regions_units ?rs"
      using ok by (auto simp: region_units_def unat_gt_0)
    then show ?thesis using ok Cons bounds by auto
  qed simp
  then have "fl_valid_loop ?rs 2 total_blocks" using bounds by (intro regions_ok_valid) simp_all
  then show ?thesis using units unfolding fl_is_valid_def by blast
qed

theorem fl_from_used_complement_witness:
  "regions_units (fl_regions (fl_from_used [0, 1, 4] 6)) = mset [2, 3, 5] \<and>
   fl_is_valid (fl_from_used [0, 1, 4] 6) 6"
proof -
  have "[0..<6] = [0, 1, 2, 3, 4, 5::nat]" by code_simp
  then have "filter (\<lambda>x. x \<notin> unat ` set [0, 1, 4::u64]) [0..<unat (6::u64)] = [2, 3, 5]" by simp
  then show ?thesis using fl_from_used_complement [of "[0, 1, 4]" 6] by simp
qed

end
