(* ===== verification/RunQueue.thy ===== *)
theory RunQueue
  imports Interfaces
begin

text \<open>
  The per-CPU run queue (arch/x64/cpu_local.rs, \<open>PrioritySubQueue\<close> and \<open>CpuRunQueue\<close>): four rings of
  64 thread identifiers with wrapping 16-bit indices, a bitmap of the non-empty levels and a counter.
  The rings are proved to be bounded FIFO queues, and the whole run queue to refine four lists from
  which a pop takes the oldest entry of the first non-empty level.
\<close>

section \<open>One priority level\<close>

definition RUNQUEUE_PRIO_CAP :: nat where "RUNQUEUE_PRIO_CAP = 64"

record PrioritySubQueue =
  sq_entries :: "u32 list"
  sq_head_idx :: u16
  sq_tail_idx :: u16
  sq_count :: u16

definition psq_new :: PrioritySubQueue where
  "psq_new = \<lparr> sq_entries = replicate RUNQUEUE_PRIO_CAP 0, sq_head_idx = 0, sq_tail_idx = 0, sq_count = 0 \<rparr>"

definition psq_push :: "PrioritySubQueue \<Rightarrow> u32 \<Rightarrow> bool \<times> PrioritySubQueue" where
  "psq_push q tid = (if unat (sq_count q) \<ge> RUNQUEUE_PRIO_CAP then (False, q)
     else (True, q \<lparr> sq_entries := (sq_entries q)[unat (sq_tail_idx q) mod RUNQUEUE_PRIO_CAP := tid],
                    sq_tail_idx := sq_tail_idx q + 1, sq_count := sq_count q + 1 \<rparr>))"

definition psq_pop :: "PrioritySubQueue \<Rightarrow> u32 option \<times> PrioritySubQueue" where
  "psq_pop q = (if sq_count q = 0 then (None, q)
     else (Some (sq_entries q ! (unat (sq_head_idx q) mod RUNQUEUE_PRIO_CAP)),
           q \<lparr> sq_head_idx := sq_head_idx q + 1, sq_count := sq_count q - 1 \<rparr>))"

definition psq_peek :: "PrioritySubQueue \<Rightarrow> u32 option" where
  "psq_peek q = (if sq_count q = 0 then None
     else Some (sq_entries q ! (unat (sq_head_idx q) mod RUNQUEUE_PRIO_CAP)))"

text \<open>The search loop of \<open>contains\<close>: \<open>n\<close> entries from index \<open>idx\<close> on.\<close>

fun psq_contains_loop :: "u32 list \<Rightarrow> u32 \<Rightarrow> nat \<Rightarrow> nat \<Rightarrow> bool" where
  "psq_contains_loop es tid idx 0 = False"
| "psq_contains_loop es tid idx (Suc n) =
    (es ! idx = tid \<or> psq_contains_loop es tid ((idx + 1) mod RUNQUEUE_PRIO_CAP) n)"

definition psq_contains :: "PrioritySubQueue \<Rightarrow> u32 \<Rightarrow> bool" where
  "psq_contains q tid = (if sq_count q = 0 then False
     else psq_contains_loop (sq_entries q) tid (unat (sq_head_idx q) mod RUNQUEUE_PRIO_CAP) (unat (sq_count q)))"

text \<open>\<open>remove\<close> copies the live entries into a buffer, closes the gap there and writes the buffer back.\<close>

definition psq_copy :: "u32 list \<Rightarrow> nat \<Rightarrow> nat \<Rightarrow> u32 list" where
  "psq_copy es idx n = fst (foldl (\<lambda>(buf, idx) i. (buf[i := es ! idx], (idx + 1) mod RUNQUEUE_PRIO_CAP))
     (replicate RUNQUEUE_PRIO_CAP 0, idx) [0..<n])"

definition psq_shift :: "u32 list \<Rightarrow> nat \<Rightarrow> nat \<Rightarrow> u32 list" where
  "psq_shift buf p n = foldl (\<lambda>b i. b[i := b ! (i + 1)]) buf [p..<n - 1]"

definition psq_write_back :: "u32 list \<Rightarrow> u32 list \<Rightarrow> nat \<Rightarrow> u32 list" where
  "psq_write_back es buf n = foldl (\<lambda>e i. e[i := buf ! i]) es [0..<n]"

definition psq_remove :: "PrioritySubQueue \<Rightarrow> u32 \<Rightarrow> bool \<times> PrioritySubQueue" where
  "psq_remove q tid = (if sq_count q = 0 then (False, q)
     else let n = unat (sq_count q);
              buf = psq_copy (sq_entries q) (unat (sq_head_idx q) mod RUNQUEUE_PRIO_CAP) n
          in case position (\<lambda>t. t = tid) (take n buf) of
               None \<Rightarrow> (False, q)
             | Some p \<Rightarrow>
                 let buf' = psq_shift buf p n; c = sq_count q - 1
                 in (True, q \<lparr> sq_entries := psq_write_back (sq_entries q) buf' (unat c),
                              sq_head_idx := 0, sq_tail_idx := c, sq_count := c \<rparr>))"

section \<open>The run queue of a CPU\<close>

record CpuRunQueue =
  rq_active_bitmap :: u8
  rq_count :: u16
  rq_queues :: "PrioritySubQueue list"

definition rq_new :: CpuRunQueue where
  "rq_new = \<lparr> rq_active_bitmap = 0, rq_count = 0, rq_queues = [psq_new, psq_new, psq_new, psq_new] \<rparr>"

definition push_priority :: "CpuRunQueue \<Rightarrow> u32 \<Rightarrow> u8 \<Rightarrow> bool \<times> CpuRunQueue" where
  "push_priority rq tid prio =
    (let p = min (unat prio) 3; (ok, q) = psq_push (rq_queues rq ! p) tid
     in if ok then (True, rq \<lparr> rq_queues := (rq_queues rq)[p := q],
                              rq_active_bitmap := rq_active_bitmap rq OR push_bit p 1,
                              rq_count := rq_count rq + 1 \<rparr>)
        else (False, rq))"

abbreviation (input) PRIORITY_HIGH :: u8 where "PRIORITY_HIGH \<equiv> 0"
abbreviation (input) PRIORITY_NORMAL :: u8 where "PRIORITY_NORMAL \<equiv> 2"
abbreviation (input) PRIORITY_IDLE :: u8 where "PRIORITY_IDLE \<equiv> 3"
abbreviation (input) PRIORITY_COUNT :: u8 where "PRIORITY_COUNT \<equiv> 4"

definition rq_push :: "CpuRunQueue \<Rightarrow> u32 \<Rightarrow> bool \<times> CpuRunQueue" where
  "rq_push rq tid = push_priority rq tid PRIORITY_NORMAL"

definition rq_pop :: "CpuRunQueue \<Rightarrow> u32 option \<times> CpuRunQueue" where
  "rq_pop rq =
    (let bm = rq_active_bitmap rq; p = trailing_zeros bm
     in if rq_count rq = 0 \<or> bm = 0 then (None, rq)
        else if p \<ge> 4 then (None, rq)
        else case psq_pop (rq_queues rq ! p) of
               (None, q) \<Rightarrow> (None, rq \<lparr> rq_queues := (rq_queues rq)[p := q] \<rparr>)
             | (Some tid, q) \<Rightarrow>
                 (Some tid, rq \<lparr> rq_queues := (rq_queues rq)[p := q],
                    rq_active_bitmap := (if sq_count q = 0 then bm AND NOT (push_bit p 1) else bm),
                    rq_count := rq_count rq - 1 \<rparr>))"

definition peek_highest :: "CpuRunQueue \<Rightarrow> u32 option" where
  "peek_highest rq =
    (let bm = rq_active_bitmap rq; p = trailing_zeros bm
     in if rq_count rq = 0 \<or> bm = 0 then None
        else if p < 4 then psq_peek (rq_queues rq ! p) else None)"

definition rq_is_empty :: "CpuRunQueue \<Rightarrow> bool" where
  "rq_is_empty rq = (rq_count rq = 0)"

definition rq_clear :: "CpuRunQueue \<Rightarrow> CpuRunQueue" where
  "rq_clear rq = rq \<lparr> rq_active_bitmap := 0, rq_count := 0,
     rq_queues := map (\<lambda>q. q \<lparr> sq_head_idx := 0, sq_tail_idx := 0, sq_count := 0 \<rparr>) (rq_queues rq) \<rparr>"

definition rq_contains :: "CpuRunQueue \<Rightarrow> u32 \<Rightarrow> bool" where
  "rq_contains rq tid = (if rq_count rq = 0 then False else list_ex (\<lambda>q. psq_contains q tid) (rq_queues rq))"

text \<open>The loop of \<open>remove\<close> over the levels still to be tried.\<close>

fun rq_remove_loop :: "nat list \<Rightarrow> u32 \<Rightarrow> CpuRunQueue \<Rightarrow> bool \<times> CpuRunQueue" where
  "rq_remove_loop [] tid rq = (False, rq)"
| "rq_remove_loop (p # ps) tid rq =
    (case psq_remove (rq_queues rq ! p) tid of
       (True, q) \<Rightarrow> (True, rq \<lparr> rq_queues := (rq_queues rq)[p := q],
          rq_active_bitmap := (if sq_count q = 0 then rq_active_bitmap rq AND NOT (push_bit p 1)
                               else rq_active_bitmap rq),
          rq_count := rq_count rq - 1 \<rparr>)
     | (False, q) \<Rightarrow> rq_remove_loop ps tid (rq \<lparr> rq_queues := (rq_queues rq)[p := q] \<rparr>))"

definition rq_remove :: "CpuRunQueue \<Rightarrow> u32 \<Rightarrow> bool \<times> CpuRunQueue" where
  "rq_remove rq tid = (if rq_count rq = 0 then (False, rq)
     else rq_remove_loop [0..<length (rq_queues rq)] tid rq)"

definition rq_len :: "CpuRunQueue \<Rightarrow> u16" where
  "rq_len rq = rq_count rq"

fun psq_entries_loop :: "u32 list \<Rightarrow> nat \<Rightarrow> nat \<Rightarrow> u32 list" where
  "psq_entries_loop es idx 0 = []"
| "psq_entries_loop es idx (Suc n) = es ! idx # psq_entries_loop es ((idx + 1) mod RUNQUEUE_PRIO_CAP) n"

definition entries_vec :: "CpuRunQueue \<Rightarrow> u32 list" where
  "entries_vec rq = concat (map (\<lambda>q.
     psq_entries_loop (sq_entries q) (unat (sq_head_idx q) mod RUNQUEUE_PRIO_CAP) (unat (sq_count q))) (rq_queues rq))"


section \<open>A level is a bounded FIFO queue\<close>

definition psq_inv [inv_defs]: "psq_inv q \<longleftrightarrow> length (sq_entries q) = 64 \<and> unat (sq_count q) \<le> 64 \<and>
  sq_tail_idx q = sq_head_idx q + sq_count q"

definition psq_abs :: "PrioritySubQueue \<Rightarrow> u32 list" where
  "psq_abs q = ring_list (sq_entries q) (unat (sq_head_idx q)) (unat (sq_count q))"

lemma psq_push_refines:
  assumes "psq_inv q"
  shows "psq_inv (snd (psq_push q tid))"
    and "map_prod id psq_abs (psq_push q tid) = list_push 64 (psq_abs q) tid"
proof -
  note inv = assms [unfolded psq_inv]
  have small: "unat (sq_count q + 1) = Suc (unat (sq_count q))"
    using inv by (intro unat_Suc_small) simp
  with inv show "psq_inv (snd (psq_push q tid))"
    by (auto simp: psq_inv psq_push_def RUNQUEUE_PRIO_CAP_def)
  have "unat (sq_tail_idx q) mod 64 = (unat (sq_head_idx q) + unat (sq_count q)) mod 64"
    using inv by (simp add: unat_add_mod)
  then show "map_prod id psq_abs (psq_push q tid) = list_push 64 (psq_abs q) tid"
    using inv small ring_list_push [of "unat (sq_count q)" "sq_entries q" "unat (sq_head_idx q)" tid]
    by (auto simp: psq_abs_def psq_push_def list_push_def RUNQUEUE_PRIO_CAP_def)
qed

lemma psq_pop_refines:
  assumes "psq_inv q"
  shows "psq_inv (snd (psq_pop q))"
    and "map_prod id psq_abs (psq_pop q) = list_pop (psq_abs q)"
proof -
  note inv = assms [unfolded psq_inv]
  have pred: "unat (sq_count q) = Suc (unat (sq_count q - 1))" if "sq_count q \<noteq> 0"
    using that by (rule unat_pred_pos)
  show "psq_inv (snd (psq_pop q))" using inv pred by (auto simp: psq_inv psq_pop_def)
  have "ring_list (sq_entries q) (unat (sq_head_idx q + 1)) n = ring_list (sq_entries q) (Suc (unat (sq_head_idx q))) n" for n
    using inv unat_add_mod [of 64 "sq_head_idx q" 1] by (intro ring_list_cong) simp
  then show "map_prod id psq_abs (psq_pop q) = list_pop (psq_abs q)"
    using inv pred by (auto simp: psq_abs_def psq_pop_def RUNQUEUE_PRIO_CAP_def ring_list_pop)
qed

interpretation psq: bounded_fifo psq_inv psq_abs 64 psq_push psq_pop
  by unfold_locales (auto simp: psq_push_refines psq_pop_refines psq_abs_def, simp add: psq_inv)

lemma psq_new_inv [simp]: "psq_inv psq_new" and psq_new_abs [simp]: "psq_abs psq_new = []"
  by (simp_all add: psq_inv psq_new_def psq_abs_def RUNQUEUE_PRIO_CAP_def)

lemma psq_count_abs: "unat (sq_count q) = length (psq_abs q)"
  by (simp add: psq_abs_def)

lemma psq_count_0_iff: "sq_count q = 0 \<longleftrightarrow> psq_abs q = []"
  by (simp add: psq_abs_def unat_eq_0)

lemma psq_peek_abs: "psq_inv q \<Longrightarrow> psq_peek q = (case psq_abs q of [] \<Rightarrow> None | t # ts \<Rightarrow> Some t)"
  using psq_pop_refines(2) [of q] by (auto simp: psq_peek_def psq_pop_def psq_count_0_iff split: list.splits)

lemma psq_contains_loop_iff:
  "length es = 64 \<Longrightarrow> psq_contains_loop es tid (h mod 64) n \<longleftrightarrow> tid \<in> set (ring_list es h n)"
proof (induction n arbitrary: h)
  case (Suc n)
  then show ?case using Suc.IH [of "Suc h"] by (auto simp: ring_list_pop RUNQUEUE_PRIO_CAP_def mod_Suc_eq)
qed simp

lemma psq_contains_iff: "psq_inv q \<Longrightarrow> psq_contains q tid \<longleftrightarrow> tid \<in> set (psq_abs q)"
  by (simp add: psq_contains_def psq_contains_loop_iff psq_abs_def psq_inv RUNQUEUE_PRIO_CAP_def unat_eq_0)

lemma psq_entries_loop_eq: "length es = 64 \<Longrightarrow> psq_entries_loop es (h mod 64) n = ring_list es h n"
proof (induction n arbitrary: h)
  case (Suc n)
  then show ?case using Suc.IH [of "Suc h"] by (simp add: ring_list_pop RUNQUEUE_PRIO_CAP_def mod_Suc_eq)
qed simp

subsection \<open>Removal\<close>

lemma ring_list_Suc: "ring_list es h (Suc n) = ring_list es h n @ [es ! ((h + n) mod length es)]"
  by (simp add: ring_list_def)

lemma psq_copy_eq:
  assumes "length es = 64" and "n \<le> 64"
  shows "psq_copy es (h mod 64) n = ring_list es h n @ replicate (64 - n) 0"
proof -
  have "foldl (\<lambda>(buf, idx) i. (buf[i := es ! idx], (idx + 1) mod RUNQUEUE_PRIO_CAP))
      (replicate RUNQUEUE_PRIO_CAP 0, h mod 64) [0..<n]
    = (ring_list es h n @ replicate (64 - n) 0, (h + n) mod 64)"
    using assms(2)
  proof (induction n)
    case (Suc n)
    then have "replicate (64 - n) (0::u32) = 0 # replicate (64 - Suc n) 0"
      by (metis Suc_diff_Suc Suc_le_lessD replicate_Suc)
    with Suc show ?case
      by (simp add: ring_list_Suc assms(1) RUNQUEUE_PRIO_CAP_def list_update_append mod_Suc_eq)
  qed (simp add: RUNQUEUE_PRIO_CAP_def)
  then show ?thesis by (simp add: psq_copy_def)
qed

lemma psq_shift_run:
  assumes "p \<le> k" and "k < length buf"
  shows "foldl (\<lambda>b i. b[i := b ! (i + 1)]) buf [p..<k] = take p buf @ take (k - p) (drop (Suc p) buf) @ drop k buf"
  using assms
proof (induction k rule: dec_induct)
  case base
  then show ?case by simp
next
  case (step k)
  let ?b = "take p buf @ take (k - p) (drop (Suc p) buf) @ drop k buf"
  have len: "length (take p buf @ take (k - p) (drop (Suc p) buf)) = k" using step by simp
  have dk: "drop k buf = buf ! k # buf ! Suc k # drop (Suc (Suc k)) buf"
    using step.prems by (metis Cons_nth_drop_Suc Suc_lessD)
  have dk1: "drop k buf = buf ! k # drop (Suc k) buf"
    using step.prems by (metis Cons_nth_drop_Suc Suc_lessD)
  have nth: "?b ! Suc k = buf ! Suc k" by (subst append_assoc [symmetric], subst nth_append) (simp only: len dk, simp)
  have "take (Suc k - p) (drop (Suc p) buf) = take (k - p) (drop (Suc p) buf) @ [buf ! Suc k]"
    using step by (simp add: Suc_diff_le take_Suc_conv_app_nth)
  moreover have "?b[k := buf ! Suc k] = take p buf @ take (k - p) (drop (Suc p) buf) @ (drop k buf)[0 := buf ! Suc k]"
    using len by (metis append_assoc diff_self_eq_0 list_update_append less_irrefl)
  ultimately have "?b[k := buf ! Suc k] = take p buf @ take (Suc k - p) (drop (Suc p) buf) @ drop (Suc k) buf"
    by (simp add: dk1)
  then show ?case using step nth by simp
qed

lemma psq_shift_take:
  assumes "p < n" and "n \<le> length buf"
  shows "take (n - 1) (psq_shift buf p n) = take p (take n buf) @ drop (Suc p) (take n buf)"
    and "length (psq_shift buf p n) = length buf"
proof -
  have eq: "psq_shift buf p n = take p buf @ take (n - 1 - p) (drop (Suc p) buf) @ drop (n - 1) buf"
    using psq_shift_run [of p "n - 1" buf] assms by (simp add: psq_shift_def)
  have "length (take p buf @ take (n - 1 - p) (drop (Suc p) buf)) = n - 1" using assms by simp
  then have "take (n - 1) (psq_shift buf p n) = take p buf @ take (n - 1 - p) (drop (Suc p) buf)"
    unfolding eq by (metis append_assoc append_eq_conv_conj)
  then show "take (n - 1) (psq_shift buf p n) = take p (take n buf) @ drop (Suc p) (take n buf)"
    using assms by (simp add: drop_take)
  show "length (psq_shift buf p n) = length buf" using assms by (simp add: eq)
qed

lemma psq_write_back_eq:
  "n \<le> length es \<Longrightarrow> n \<le> length buf \<Longrightarrow> psq_write_back es buf n = take n buf @ drop n es"
proof (induction n)
  case 0
  then show ?case by (simp add: psq_write_back_def)
next
  case (Suc n)
  then have "psq_write_back es buf (Suc n) = (take n buf @ drop n es)[n := buf ! n]"
    by (simp add: psq_write_back_def)
  moreover have "drop n es = es ! n # drop (Suc n) es" using Suc.prems by (simp add: Cons_nth_drop_Suc)
  ultimately show ?case using Suc.prems by (simp add: list_update_append take_Suc_conv_app_nth)
qed

lemma position_remove1: "position (\<lambda>t. t = x) xs = Some p \<Longrightarrow> remove1 x xs = take p xs @ drop (Suc p) xs"
  by (induction xs arbitrary: p) (auto split: if_splits)


lemma psq_remove_refines:
  assumes "psq_inv q"
  shows "psq_inv (snd (psq_remove q tid)) \<and> fst (psq_remove q tid) = (tid \<in> set (psq_abs q)) \<and>
    psq_abs (snd (psq_remove q tid)) = remove1 tid (psq_abs q)"
proof (cases "sq_count q = 0")
  case True
  then show ?thesis using assms by (simp add: psq_remove_def psq_abs_def)
next
  case False
  let ?n = "unat (sq_count q)" and ?c = "sq_count q - 1"
  let ?buf = "psq_copy (sq_entries q) (unat (sq_head_idx q) mod RUNQUEUE_PRIO_CAP) ?n"
  note inv = assms [unfolded psq_inv]
  have n: "?n = Suc (unat ?c)" using False by (rule unat_pred_pos)
  have buf: "take ?n ?buf = psq_abs q" "length ?buf = 64"
    using inv by (simp_all add: psq_copy_eq psq_abs_def RUNQUEUE_PRIO_CAP_def)
  have rem: "psq_remove q tid = (case position (\<lambda>t. t = tid) (psq_abs q) of None \<Rightarrow> (False, q)
      | Some p \<Rightarrow> (True, q \<lparr> sq_entries := psq_write_back (sq_entries q) (psq_shift ?buf p ?n) (unat ?c),
                          sq_head_idx := 0, sq_tail_idx := ?c, sq_count := ?c \<rparr>))"
    using False buf(1) by (simp add: psq_remove_def Let_def cong: option.case_cong)
  show ?thesis
  proof (cases "position (\<lambda>t. t = tid) (psq_abs q)")
    case None
    then have "tid \<notin> set (psq_abs q)" by (auto simp: position_None_iff)
    then show ?thesis using None rem assms by (simp add: remove1_idem)
  next
    case (Some p)
    let ?es = "psq_write_back (sq_entries q) (psq_shift ?buf p ?n) (unat ?c)"
    have p: "p < ?n" "tid \<in> set (psq_abs q)"
      using position_SomeD [OF Some] by (auto simp: psq_count_abs)
    have le: "?n \<le> length ?buf" using inv buf(2) by simp
    note sh = psq_shift_take [OF p(1) le, unfolded buf]
    have c: "unat ?c = ?n - 1" using n by simp
    have shift: "take (unat ?c) (psq_shift ?buf p ?n) = remove1 tid (psq_abs q)" "length (psq_shift ?buf p ?n) = 64"
      using sh position_remove1 [OF Some] c by auto
    have es: "?es = remove1 tid (psq_abs q) @ drop (unat ?c) (sq_entries q)"
      using psq_write_back_eq [of "unat ?c" "sq_entries q" "psq_shift ?buf p ?n"] shift inv n by simp
    have "length (remove1 tid (psq_abs q)) = unat ?c" using p(2) n by (simp add: length_remove1 psq_count_abs)
    then have "ring_list ?es 0 (unat ?c) = remove1 tid (psq_abs q)" "length ?es = 64"
      using es inv n by (auto simp: ring_list_def nth_append intro!: nth_equalityI)
    then show ?thesis
      using Some rem p(2) inv n by (simp add: psq_abs_def psq_inv)
  qed
qed

section \<open>The run queue refines four lists\<close>

definition rq_abs :: "CpuRunQueue \<Rightarrow> u32 list list" where
  "rq_abs rq = map psq_abs (rq_queues rq)"

definition rq_inv [inv_defs]: "rq_inv rq \<longleftrightarrow> length (rq_queues rq) = 4 \<and> list_all psq_inv (rq_queues rq) \<and>
  (\<forall>p. bit (rq_active_bitmap rq) p \<longleftrightarrow> p < 4 \<and> rq_abs rq ! p \<noteq> []) \<and>
  unat (rq_count rq) = sum_list (map length (rq_abs rq))"

text \<open>The specification: four lists.\<close>

definition levels_push :: "u32 list list \<Rightarrow> u32 \<Rightarrow> nat \<Rightarrow> bool \<times> u32 list list" where
  "levels_push ls tid p = (if length (ls ! p) < 64 then (True, ls[p := ls ! p @ [tid]]) else (False, ls))"

definition levels_pop :: "u32 list list \<Rightarrow> u32 option \<times> u32 list list" where
  "levels_pop ls = (case position (\<lambda>l. l \<noteq> []) ls of
     None \<Rightarrow> (None, ls) | Some p \<Rightarrow> (Some (hd (ls ! p)), ls[p := tl (ls ! p)]))"

definition levels_remove :: "u32 list list \<Rightarrow> u32 \<Rightarrow> bool \<times> u32 list list" where
  "levels_remove ls tid = (case position (\<lambda>l. tid \<in> set l) ls of
     None \<Rightarrow> (False, ls) | Some p \<Rightarrow> (True, ls[p := remove1 tid (ls ! p)]))"

lemma rq_abs_length [simp]: "length (rq_abs rq) = length (rq_queues rq)"
  by (simp add: rq_abs_def)

lemma rq_new_abs: "rq_abs rq_new = replicate 4 []"
  by (simp add: rq_new_def rq_abs_def numeral_eq_Suc)

lemma rq_new_inv [simp]: "rq_inv rq_new"
  by (auto simp: rq_inv rq_new_abs) (simp_all add: rq_new_def)

lemma rq_level:
  assumes "rq_inv rq" and "p < 4"
  shows "psq_inv (rq_queues rq ! p)" and "psq_abs (rq_queues rq ! p) = rq_abs rq ! p"
  using assms by (auto simp: rq_inv rq_abs_def list_all_length)

lemma rq_abs_update [simp]: "rq_abs (rq \<lparr> rq_queues := (rq_queues rq)[p := q] \<rparr>) = (rq_abs rq)[p := psq_abs q]"
  by (simp add: rq_abs_def map_update)

lemma rq_abs_other [simp]:
  "rq_abs (rq \<lparr> rq_active_bitmap := b \<rparr>) = rq_abs rq" "rq_abs (rq \<lparr> rq_count := c \<rparr>) = rq_abs rq"
  by (simp_all add: rq_abs_def)

lemma rq_level_bound:
  assumes "rq_inv rq" and "p < 4"
  shows "length (rq_abs rq ! p) \<le> 64"
  using rq_level [OF assms] psq_count_abs [of "rq_queues rq ! p"] by (simp add: psq_inv)

lemma rq_total_bound: "rq_inv rq \<Longrightarrow> unat (rq_count rq) \<le> 256"
proof -
  assume inv: "rq_inv rq"
  have "sum_list (map length ls) \<le> 64 * length ls" if "\<forall>l\<in>set ls. length l \<le> 64" for ls :: "u32 list list"
    using that by (induction ls) auto
  moreover have "\<forall>l\<in>set (rq_abs rq). length l \<le> 64"
    using rq_level_bound [OF inv] inv by (auto simp: in_set_conv_nth rq_inv)
  ultimately show ?thesis using inv by (fastforce simp: rq_inv)
qed


lemma levels_count_update:
  "p < length ls \<Longrightarrow> sum_list (map length (ls[p := l])) + length (ls ! p) = sum_list (map length ls) + length (l :: 'a list)"
proof (induction ls arbitrary: p)
  case (Cons a ls)
  then show ?case by (cases p) auto
qed simp

text \<open>A write to one level keeps the invariant when bitmap and counter follow it.\<close>

lemma rq_inv_update:
  assumes inv: "rq_inv rq" and p: "p < 4" and "psq_inv q"
    and bm: "\<forall>i. bit bm i \<longleftrightarrow> (if i = p then psq_abs q \<noteq> [] else bit (rq_active_bitmap rq) i)"
    and cnt: "unat c + length (rq_abs rq ! p) = unat (rq_count rq) + length (psq_abs q)"
  shows "rq_inv (rq \<lparr> rq_queues := (rq_queues rq)[p := q], rq_active_bitmap := bm, rq_count := c \<rparr>)"
proof -
  let ?rq = "rq \<lparr> rq_queues := (rq_queues rq)[p := q], rq_active_bitmap := bm, rq_count := c \<rparr>"
  have ls: "rq_abs ?rq = (rq_abs rq)[p := psq_abs q]" by (simp add: rq_abs_def map_update)
  have len: "length (rq_abs rq) = 4" using inv by (simp add: rq_inv)
  have "sum_list (map length ((rq_abs rq)[p := psq_abs q])) = unat c"
    using levels_count_update [of p "rq_abs rq" "psq_abs q"] cnt inv p len by (simp add: rq_inv)
  moreover have "bit bm i \<longleftrightarrow> i < 4 \<and> (rq_abs rq)[p := psq_abs q] ! i \<noteq> []" for i
    using bm inv p len by (cases "i = p") (auto simp: rq_inv)
  moreover have "list_all psq_inv ((rq_queues rq)[p := q])"
    using inv assms(3) by (auto simp: rq_inv list_all_iff dest: set_update_subset_insert [THEN subsetD])
  ultimately show ?thesis using inv by (simp add: rq_inv ls)
qed

lemma push_priority_refines:
  assumes inv: "rq_inv rq"
  shows "rq_inv (snd (push_priority rq tid prio))"
    and "map_prod id rq_abs (push_priority rq tid prio) = levels_push (rq_abs rq) tid (min (unat prio) 3)"
proof -
  let ?p = "min (unat prio) 3"
  have p: "?p < 4" by simp
  note q = rq_level [OF inv p]
  obtain ok q' where push: "psq_push (rq_queues rq ! ?p) tid = (ok, q')" by fastforce
  have q': "psq_inv q'" "(ok, psq_abs q') = list_push 64 (rq_abs rq ! ?p) tid"
    using psq_push_refines [OF q(1), of tid] push q(2) by auto
  have c: "unat (rq_count rq + 1) = Suc (unat (rq_count rq))"
    using rq_total_bound [OF inv] by (intro unat_Suc_small) simp
  have "bit (rq_active_bitmap rq OR push_bit ?p 1) i
      \<longleftrightarrow> (if i = ?p then psq_abs q' \<noteq> [] else bit (rq_active_bitmap rq) i)" if ok for i
    using that q'(2) by (auto simp: list_push_def bit_simps split: if_splits)
  then have "rq_inv (rq \<lparr> rq_queues := (rq_queues rq)[?p := q'],
      rq_active_bitmap := rq_active_bitmap rq OR push_bit ?p 1, rq_count := rq_count rq + 1 \<rparr>)" if ok
    using that q' c by (intro rq_inv_update [OF inv p]) (auto simp: list_push_def split: if_splits)
  then show "rq_inv (snd (push_priority rq tid prio))"
    using inv push by (auto simp: push_priority_def Let_def)
  show "map_prod id rq_abs (push_priority rq tid prio) = levels_push (rq_abs rq) tid ?p"
    using push q'(2) by (auto simp: push_priority_def levels_push_def list_push_def Let_def rq_abs_def map_update split: if_splits)
qed

lemma rq_first_level:
  assumes inv: "rq_inv rq"
  shows "position (\<lambda>l. l \<noteq> []) (rq_abs rq) = (if rq_active_bitmap rq = 0 then None else Some (trailing_zeros (rq_active_bitmap rq)))"
    and "rq_active_bitmap rq \<noteq> 0 \<Longrightarrow> trailing_zeros (rq_active_bitmap rq) < 4"
    and "rq_count rq = 0 \<longleftrightarrow> rq_active_bitmap rq = 0"
proof -
  let ?pos = "position (\<lambda>l. l \<noteq> []) (rq_abs rq)"
  have len: "length (rq_abs rq) = 4" using inv by (simp add: rq_inv)
  have bits: "bit (rq_active_bitmap rq) p \<longleftrightarrow> p < 4 \<and> rq_abs rq ! p \<noteq> []" for p using inv by (simp add: rq_inv)
  have zero: "rq_active_bitmap rq = 0 \<longleftrightarrow> (\<forall>l\<in>set (rq_abs rq). l = [])"
  proof -
    have "rq_active_bitmap rq = 0 \<longleftrightarrow> (\<forall>p. \<not> bit (rq_active_bitmap rq) p)" by (auto intro: bit_word_eqI)
    then show ?thesis using bits len by (auto simp: all_set_conv_all_nth)
  qed
  show eq: "?pos = (if rq_active_bitmap rq = 0 then None else Some (trailing_zeros (rq_active_bitmap rq)))"
  proof (cases ?pos)
    case None
    then show ?thesis using zero by (auto simp: position_None_iff)
  next
    case (Some p)
    then have "p < 4 \<and> rq_abs rq ! p \<noteq> [] \<and> (\<forall>i<p. rq_abs rq ! i = [])" using len by (auto simp: position_Some_iff)
    then have "bit (rq_active_bitmap rq) p" "\<forall>i<p. \<not> bit (rq_active_bitmap rq) i" using bits by auto
    then show ?thesis using Some trailing_zeros_eqI [of "rq_active_bitmap rq" p] by auto
  qed
  show "trailing_zeros (rq_active_bitmap rq) < 4" if "rq_active_bitmap rq \<noteq> 0"
    using eq that len position_SomeD [of _ "rq_abs rq" "trailing_zeros (rq_active_bitmap rq)"] by auto
  have "rq_count rq = 0 \<longleftrightarrow> unat (rq_count rq) = 0" by (simp add: unat_eq_0)
  also have "\<dots> \<longleftrightarrow> (\<forall>l\<in>set (rq_abs rq). l = [])" using inv by (auto simp: rq_inv sum_list_eq_0_iff)
  finally show "rq_count rq = 0 \<longleftrightarrow> rq_active_bitmap rq = 0" using zero by simp
qed


lemma rq_pop_refines:
  assumes inv: "rq_inv rq"
  shows "rq_inv (snd (rq_pop rq))" and "map_prod id rq_abs (rq_pop rq) = levels_pop (rq_abs rq)"
proof -
  let ?bm = "rq_active_bitmap rq" and ?p = "trailing_zeros (rq_active_bitmap rq)"
  have "rq_inv (snd (rq_pop rq)) \<and> map_prod id rq_abs (rq_pop rq) = levels_pop (rq_abs rq)"
  proof (cases "?bm = 0")
    case True
    then show ?thesis using inv rq_first_level [OF inv] by (simp add: rq_pop_def levels_pop_def)
  next
    case False
    note p = rq_first_level(2) [OF inv False] and pos = rq_first_level(1) [OF inv]
    note q = rq_level [OF inv p]
    have cnt: "rq_count rq \<noteq> 0" using rq_first_level(3) [OF inv] False by simp
    obtain t ts where ts: "rq_abs rq ! ?p = t # ts"
      using pos False position_SomeD [of _ "rq_abs rq" ?p] by (metis list.exhaust)
    obtain q' where pop: "psq_pop (rq_queues rq ! ?p) = (Some t, q')" "psq_inv q'" "psq_abs q' = ts"
      using psq_pop_refines [OF q(1)] q(2) ts by (cases "psq_pop (rq_queues rq ! ?p)") auto
    let ?b = "if sq_count q' = 0 then ?bm AND NOT (push_bit ?p 1) else ?bm"
    have "bit ?bm ?p" using inv p ts by (simp add: rq_inv)
    then have "bit ?b i \<longleftrightarrow> (if i = ?p then psq_abs q' \<noteq> [] else bit ?bm i)" for i
      by (auto simp: psq_count_0_iff bit_simps dest: bit_imp_le_length)
    then have "rq_inv (rq \<lparr> rq_queues := (rq_queues rq)[?p := q'], rq_active_bitmap := ?b, rq_count := rq_count rq - 1 \<rparr>)"
      using unat_pred_pos [OF cnt] ts pop by (intro rq_inv_update [OF inv p]) auto
    then show ?thesis using pop pos False cnt p ts
      by (simp add: rq_pop_def levels_pop_def rq_abs_def map_update Let_def)
  qed
  then show "rq_inv (snd (rq_pop rq))" "map_prod id rq_abs (rq_pop rq) = levels_pop (rq_abs rq)" by auto
qed

lemma peek_highest_abs: "rq_inv rq \<Longrightarrow> peek_highest rq = fst (levels_pop (rq_abs rq))"
  using rq_first_level [of rq] rq_level [of rq] position_SomeD [of "\<lambda>l. l \<noteq> []" "rq_abs rq"]
  by (auto simp: peek_highest_def levels_pop_def psq_peek_abs split: list.splits)

lemma rq_contains_iff: "rq_inv rq \<Longrightarrow> rq_contains rq tid \<longleftrightarrow> (\<exists>l\<in>set (rq_abs rq). tid \<in> set l)"
proof -
  assume inv: "rq_inv rq"
  have "rq_count rq = 0 \<Longrightarrow> \<forall>l\<in>set (rq_abs rq). tid \<notin> set l"
    using inv by (auto simp: rq_inv)
  moreover have "list_ex (\<lambda>q. psq_contains q tid) (rq_queues rq) \<longleftrightarrow> (\<exists>l\<in>set (rq_abs rq). tid \<in> set l)"
    using inv by (auto simp: list_ex_iff rq_abs_def rq_inv list_all_iff psq_contains_iff)
  ultimately show ?thesis by (cases "rq_count rq = 0") (auto simp: rq_contains_def)
qed

lemma entries_vec_abs: "rq_inv rq \<Longrightarrow> entries_vec rq = concat (rq_abs rq)"
  by (auto simp: entries_vec_def rq_abs_def rq_inv list_all_iff psq_abs_def psq_inv psq_entries_loop_eq
      RUNQUEUE_PRIO_CAP_def intro!: arg_cong [where f = concat])

lemma rq_queues_id: "p < length (rq_queues rq) \<Longrightarrow> rq \<lparr> rq_queues := (rq_queues rq)[p := rq_queues rq ! p] \<rparr> = rq"
  by simp

text \<open>A level without the identifier is left as it was, bit by bit.\<close>

lemma psq_remove_absent: "psq_inv q \<Longrightarrow> tid \<notin> set (psq_abs q) \<Longrightarrow> psq_remove q tid = (False, q)"
  using psq_remove_refines [of q tid] by (auto simp: psq_remove_def Let_def split: if_splits option.splits)

lemma rq_remove_loop_run:
  assumes "rq_inv rq" and "\<forall>i\<in>set ps. i < 4 \<and> tid \<notin> set (rq_abs rq ! i)"
  shows "rq_remove_loop (ps @ ps') tid rq = rq_remove_loop ps' tid rq"
  using assms(2)
proof (induction ps)
  case (Cons p ps)
  then have "psq_remove (rq_queues rq ! p) tid = (False, rq_queues rq ! p)"
    using rq_level [OF assms(1), of p] by (intro psq_remove_absent) auto
  then show ?case using Cons by simp
qed simp


lemma rq_remove_refines:
  assumes inv: "rq_inv rq"
  shows "rq_inv (snd (rq_remove rq tid))" and "map_prod id rq_abs (rq_remove rq tid) = levels_remove (rq_abs rq) tid"
proof -
  let ?bm = "rq_active_bitmap rq"
  have len: "length (rq_abs rq) = 4" "length (rq_queues rq) = 4" using inv by (simp_all add: rq_inv)
  have "rq_inv (snd (rq_remove rq tid)) \<and> map_prod id rq_abs (rq_remove rq tid) = levels_remove (rq_abs rq) tid"
  proof (cases "position (\<lambda>l. tid \<in> set l) (rq_abs rq)")
    case None
    then have "\<forall>i<4. tid \<notin> set (rq_abs rq ! i)" using len by (auto simp: position_None_iff)
    then show ?thesis
      using inv None len rq_remove_loop_run [OF inv, of "[0..<4]" tid "[]"] by (simp add: rq_remove_def levels_remove_def)
  next
    case (Some p)
    have p: "p < 4" "tid \<in> set (rq_abs rq ! p)" "\<forall>i<p. tid \<notin> set (rq_abs rq ! i)"
      using Some len by (auto simp: position_Some_iff)
    note q = rq_level [OF inv p(1)]
    have bit: "bit ?bm p" using inv p by (auto simp: rq_inv)
    then have cnt: "rq_count rq \<noteq> 0" using rq_first_level(3) [OF inv] by auto
    obtain q' where rem: "psq_remove (rq_queues rq ! p) tid = (True, q')" "psq_inv q'" "psq_abs q' = remove1 tid (rq_abs rq ! p)"
      using psq_remove_refines [OF q(1), of tid] q(2) p(2) by (cases "psq_remove (rq_queues rq ! p) tid") auto
    let ?b = "if sq_count q' = 0 then ?bm AND NOT (push_bit p 1) else ?bm"
    have "bit ?b i \<longleftrightarrow> (if i = p then psq_abs q' \<noteq> [] else bit ?bm i)" for i
      using bit by (auto simp: psq_count_0_iff bit_simps dest: bit_imp_le_length)
    then have "rq_inv (rq \<lparr> rq_queues := (rq_queues rq)[p := q'], rq_active_bitmap := ?b, rq_count := rq_count rq - 1 \<rparr>)"
      using unat_pred_pos [OF cnt] rem(2,3) length_remove1 [of tid "rq_abs rq ! p"] p(2) length_pos_if_in_set [OF p(2)]
      by (intro rq_inv_update [OF inv p(1)]) auto
    moreover have "[0..<4] = [0..<p] @ [p..<4]" using upt_add_eq_append [of 0 p "4 - p"] p(1) by simp
    then have "rq_remove_loop [0..<4] tid rq = rq_remove_loop [p..<4] tid rq"
      using rq_remove_loop_run [OF inv, of "[0..<p]" tid "[p..<4]"] p by simp
    moreover have "[p..<4] = p # [Suc p..<4]" using p(1) by (rule upt_conv_Cons)
    ultimately show ?thesis using rem Some cnt len by (simp add: rq_remove_def levels_remove_def rq_abs_def map_update)
  qed
  then show "rq_inv (snd (rq_remove rq tid))" "map_prod id rq_abs (rq_remove rq tid) = levels_remove (rq_abs rq) tid" by auto
qed

section \<open>Runs\<close>

datatype rq_op = RqPush u32 u8 | RqPop | RqRemove u32 | RqContains u32

datatype rq_result = Flag bool | Popped "u32 option"

fun rq_step :: "rq_op \<Rightarrow> CpuRunQueue \<Rightarrow> rq_result \<times> CpuRunQueue" where
  "rq_step (RqPush tid prio) rq = map_prod Flag id (push_priority rq tid prio)"
| "rq_step RqPop rq = map_prod Popped id (rq_pop rq)"
| "rq_step (RqRemove tid) rq = map_prod Flag id (rq_remove rq tid)"
| "rq_step (RqContains tid) rq = (Flag (rq_contains rq tid), rq)"

fun levels_step :: "rq_op \<Rightarrow> u32 list list \<Rightarrow> rq_result \<times> u32 list list" where
  "levels_step (RqPush tid prio) ls = map_prod Flag id (levels_push ls tid (min (unat prio) 3))"
| "levels_step RqPop ls = map_prod Popped id (levels_pop ls)"
| "levels_step (RqRemove tid) ls = map_prod Flag id (levels_remove ls tid)"
| "levels_step (RqContains tid) ls = (Flag (\<exists>l\<in>set ls. tid \<in> set l), ls)"

interpretation rq: op_refinement rq_inv rq_abs rq_step levels_step
proof unfold_locales
  fix s op assume inv: "rq_inv s"
  show "rq_inv (snd (rq_step op s))"
    using inv by (cases op) (simp_all add: push_priority_refines rq_pop_refines rq_remove_refines snd_map_prod)
  show "map_prod id rq_abs (rq_step op s) = levels_step op (rq_abs s)"
    using inv by (cases op)
      (simp_all add: map_prod_swap push_priority_refines rq_pop_refines rq_remove_refines rq_contains_iff)
qed


end
