(* ===== verification/Threads.thy ===== *)
theory Threads
  imports RunQueue
begin

text \<open>
  Threads, per-CPU data and the paths that publish a thread to a run queue (scheduler/types.rs,
  queue.rs, aging.rs, wake.rs, smp.rs and the per-CPU accessors of arch/x64/cpu_local.rs).

  A \<open>*mut Kthread\<close> is represented by the identifier of the thread it points to: the sources obtain
  every such pointer by searching the table for a tid and the boxes never move. The per-CPU page of a
  CPU is a \<open>Kprcb\<close>, \<open>None\<close> standing for a page that is not set up (KPRCB_PAGES = 0, GS base 0). The
  executing CPU is the argument \<open>me\<close>. Locks, tracing and diagnostic counters are left out.
\<close>

section \<open>Threads and per-CPU data\<close>

datatype ThreadState = Ready | Running | Blocked u64 | Suspended | Terminated

definition MAX_CPUS :: nat where "MAX_CPUS = 16"
abbreviation (input) TIME_SLICES :: "u16 list" where "TIME_SLICES \<equiv> [400, 200, 100, 50]"
abbreviation (input) BOOT_TID :: u32 where "BOOT_TID \<equiv> 0"
abbreviation (input) AGING_INTERVAL_TICKS :: u64 where "AGING_INTERVAL_TICKS \<equiv> 500"
abbreviation (input) MAX_STARVATION_TICKS :: u64 where "MAX_STARVATION_TICKS \<equiv> 5000"

record Kthread =
  kt_tid :: u32
  kt_pid :: u32
  kt_state :: ThreadState
  kt_rsp :: u64
  kt_cpu_ticks :: u64
  kt_cpu_time :: u64
  kt_cpu_time_base :: u64
  kt_waiting_for :: "u64 option"
  kt_priority :: u8
  kt_base_priority :: u8
  kt_time_slice_remaining :: u16
  kt_ticks_since_scheduled :: u64
  kt_kernel_stack_top :: u64
  kt_kernel_stack_size :: u64
  kt_kernel_stack :: bool
  kt_cpu :: u32
  kt_obj_id :: "u64 option"
  kt_is_idle :: bool
  kt_is_kernel :: bool
  kt_yield_requested :: bool

record Kprcb =
  kp_current_thread :: "u32 option"
  kp_current_pid :: u32
  kp_idle :: bool
  kp_need_resched :: bool
  kp_run_queue :: CpuRunQueue
  kp_timer_tick_count :: u64

record Cpus =
  kprcbs :: "Kprcb option list"
  runqueue_overflow :: u64
  ipis :: "nat list"

definition kprcb_new :: Kprcb where
  "kprcb_new = \<lparr> kp_current_thread = None, kp_current_pid = 0, kp_idle = True, kp_need_resched = False,
     kp_run_queue = rq_new, kp_timer_tick_count = 0 \<rparr>"

text \<open>The per-CPU pages of a machine whose first \<open>n\<close> CPUs are set up.\<close>

definition cpus_boot :: "nat \<Rightarrow> Cpus" where
  "cpus_boot n = \<lparr> kprcbs = map (\<lambda>cpu. if cpu < n then Some kprcb_new else None) [0..<MAX_CPUS],
     runqueue_overflow = 0, ipis = [] \<rparr>"

definition is_blocked :: "Kthread \<Rightarrow> bool" where
  "is_blocked k = (case kt_state k of Blocked _ \<Rightarrow> True | _ \<Rightarrow> False)"

definition time_slice_of :: "u8 \<Rightarrow> u16" where
  "time_slice_of prio = TIME_SLICES ! min (unat prio) (unat PRIORITY_COUNT - 1)"

definition kprcb_page :: "nat \<Rightarrow> Cpus \<Rightarrow> Kprcb option" where
  "kprcb_page cpu c = (if cpu \<ge> MAX_CPUS then None else kprcbs c ! cpu)"

definition with_runqueue :: "nat \<Rightarrow> (CpuRunQueue \<Rightarrow> 'r \<times> CpuRunQueue) \<Rightarrow> Cpus \<Rightarrow> 'r \<times> Cpus" where
  "with_runqueue cpu f c = (case kprcb_page cpu c of
     None \<Rightarrow> (fst (f rq_new), c)
   | Some kp \<Rightarrow> (let (r, rq) = f (kp_run_queue kp)
       in (r, c \<lparr> kprcbs := (kprcbs c)[cpu := Some (kp \<lparr> kp_run_queue := rq \<rparr>)] \<rparr>)))"

definition remove_from_cpu_run_queue :: "nat \<Rightarrow> u32 \<Rightarrow> Cpus \<Rightarrow> bool \<times> Cpus" where
  "remove_from_cpu_run_queue cpu tid c =
    (if kprcb_page cpu c = None then (False, c) else with_runqueue cpu (\<lambda>rq. rq_remove rq tid) c)"

text \<open>The lowest CPU that still has the thread as its current one.\<close>

definition kthread_current_cpu :: "u32 \<Rightarrow> Cpus \<Rightarrow> nat option" where
  "kthread_current_cpu tid c = position (\<lambda>cpu. case kprcb_page cpu c of
      None \<Rightarrow> False | Some kp \<Rightarrow> kp_current_thread kp = Some tid) [0..<MAX_CPUS]"

definition candidate_owned_elsewhere :: "u32 \<Rightarrow> nat \<Rightarrow> Cpus \<Rightarrow> bool" where
  "candidate_owned_elsewhere tid self_cpu c = (case kthread_current_cpu tid c of
      Some owner \<Rightarrow> owner \<noteq> self_cpu | None \<Rightarrow> False)"

definition read_active_bitmap :: "nat \<Rightarrow> Cpus \<Rightarrow> u8" where
  "read_active_bitmap cpu c = (case kprcb_page cpu c of None \<Rightarrow> 0 | Some kp \<Rightarrow> rq_active_bitmap (kp_run_queue kp))"

definition is_pid_running_on_any_cpu :: "u32 \<Rightarrow> Cpus \<Rightarrow> bool" where
  "is_pid_running_on_any_cpu pid c = (pid \<noteq> 0 \<and>
     list_ex (\<lambda>cpu. case kprcb_page cpu c of None \<Rightarrow> False | Some kp \<Rightarrow> kp_current_pid kp = pid) [0..<MAX_CPUS])"

section \<open>Publishing threads\<close>

text \<open>
  \<open>enqueue_to_cpu_run_queue\<close>: boot and idle threads are never queued, an entry is not queued twice, a
  full level is only counted, and the target CPU is interrupted unless it is the executing one.
\<close>

definition enqueue_to_cpu_run_queue :: "nat \<Rightarrow> Kthread \<Rightarrow> Cpus \<Rightarrow> Cpus" where
  "enqueue_to_cpu_run_queue me k c =
    (if kt_tid k = BOOT_TID \<or> kt_is_idle k then c
     else let cpu = unat (kt_cpu k) in
       if cpu \<ge> MAX_CPUS then c
       else let ((already_queued, pushed), c1) = with_runqueue cpu
              (\<lambda>rq. if rq_contains rq (kt_tid k) then ((True, True), rq)
                    else map_prod (Pair False) id (push_priority rq (kt_tid k) (kt_priority k))) c;
                c2 = (if pushed then c1 else c1 \<lparr> runqueue_overflow := runqueue_overflow c1 + 1 \<rparr>)
            in if already_queued then c2
               else if cpu \<noteq> me \<and> kprcb_page cpu c2 \<noteq> None then c2 \<lparr> ipis := ipis c2 @ [cpu] \<rparr> else c2)"

definition make_thread_ready :: "nat \<Rightarrow> Kthread \<Rightarrow> Cpus \<Rightarrow> Kthread \<times> Cpus" where
  "make_thread_ready me k c =
    (if kt_state k = Ready then (k, c)
     else let k' = k \<lparr> kt_state := Ready, kt_yield_requested := False,
                       kt_time_slice_remaining := time_slice_of (kt_priority k), kt_ticks_since_scheduled := 0 \<rparr>
          in (k', enqueue_to_cpu_run_queue me k' c))"

definition remove_from_run_queue :: "Kthread \<Rightarrow> Cpus \<Rightarrow> Cpus" where
  "remove_from_run_queue k c =
    (if unat (kt_cpu k) \<ge> MAX_CPUS then c else snd (remove_from_cpu_run_queue (unat (kt_cpu k)) (kt_tid k) c))"

definition try_dequeue_local :: "nat \<Rightarrow> Cpus \<Rightarrow> u32 option \<times> Cpus" where
  "try_dequeue_local me c = with_runqueue me rq_pop c"

text \<open>\<open>for k in kthreads.iter_mut().flatten()\<close> with a body that may touch the run queues.\<close>

fun for_kthreads :: "(Kthread \<Rightarrow> Cpus \<Rightarrow> Kthread \<times> Cpus) \<Rightarrow> Kthread option list \<Rightarrow> Cpus \<Rightarrow> Kthread option list \<times> Cpus" where
  "for_kthreads f [] c = ([], c)"
| "for_kthreads f (None # ts) c = map_prod (Cons None) id (for_kthreads f ts c)"
| "for_kthreads f (Some k # ts) c =
    (let (k', c') = f k c in map_prod (Cons (Some k')) id (for_kthreads f ts c'))"

definition wake_body :: "nat \<Rightarrow> u64 \<Rightarrow> Kthread \<Rightarrow> Cpus \<Rightarrow> Kthread \<times> Cpus" where
  "wake_body me magic k c =
    (if kt_waiting_for k = Some magic \<and> is_blocked k
     then make_thread_ready me (k \<lparr> kt_waiting_for := None \<rparr>) c else (k, c))"

definition wake_blocked_on_magic :: "nat \<Rightarrow> u64 \<Rightarrow> Kthread option list \<Rightarrow> Cpus \<Rightarrow> Kthread option list \<times> Cpus" where
  "wake_blocked_on_magic me magic = for_kthreads (wake_body me magic)"

definition set_priority_body :: "nat \<Rightarrow> u32 \<Rightarrow> u8 \<Rightarrow> Kthread \<Rightarrow> Cpus \<Rightarrow> Kthread \<times> Cpus" where
  "set_priority_body me pid priority k c =
    (if kt_pid k = pid
     then let k' = k \<lparr> kt_priority := priority, kt_base_priority := priority,
                       kt_time_slice_remaining := TIME_SLICES ! unat priority, kt_ticks_since_scheduled := 0 \<rparr>
          in if kt_state k' = Ready \<and> kt_priority k \<noteq> priority
             then (k', enqueue_to_cpu_run_queue me k' (remove_from_run_queue k' c))
             else (k', c)
     else (k, c))"

definition set_process_priority ::
  "nat \<Rightarrow> u32 \<Rightarrow> u8 \<Rightarrow> Kthread option list \<Rightarrow> Cpus \<Rightarrow> bool \<times> Kthread option list \<times> Cpus" where
  "set_process_priority me pid priority ts c =
    (if priority \<ge> PRIORITY_COUNT then (False, ts, c)
     else (list_ex (\<lambda>t. case t of None \<Rightarrow> False | Some k \<Rightarrow> kt_pid k = pid) ts,
           for_kthreads (set_priority_body me pid priority) ts c))"

definition aging_body :: "nat \<Rightarrow> Kthread \<Rightarrow> Cpus \<Rightarrow> Kthread \<times> Cpus" where
  "aging_body me k c =
    (if \<not> kt_is_idle k \<and> kt_state k = Ready
     then let k1 = k \<lparr> kt_ticks_since_scheduled := saturating_add (kt_ticks_since_scheduled k) AGING_INTERVAL_TICKS \<rparr>
          in if kt_ticks_since_scheduled k1 \<ge> MAX_STARVATION_TICKS \<and> kt_priority k1 > PRIORITY_HIGH
             then let c1 = remove_from_run_queue k1 c;
                      k2 = k1 \<lparr> kt_priority := kt_priority k1 - 1, kt_ticks_since_scheduled := 0 \<rparr>
                  in (k2, enqueue_to_cpu_run_queue me k2 c1)
             else (k1, c)
     else (k, c))"

definition apply_aging :: "nat \<Rightarrow> Kthread option list \<Rightarrow> Cpus \<Rightarrow> Kthread option list \<times> Cpus" where
  "apply_aging me = for_kthreads (aging_body me)"

definition activate_body :: "nat \<Rightarrow> u32 \<Rightarrow> Kthread \<Rightarrow> Cpus \<Rightarrow> Kthread \<times> Cpus" where
  "activate_body me pid k c =
    (if kt_pid k = pid \<and> kt_state k = Suspended then make_thread_ready me k c else (k, c))"

definition activate_suspended_process ::
  "nat \<Rightarrow> u32 \<Rightarrow> Kthread option list \<Rightarrow> Cpus \<Rightarrow> bool \<times> Kthread option list \<times> Cpus" where
  "activate_suspended_process me pid ts c =
    (list_ex (\<lambda>t. case t of None \<Rightarrow> False | Some k \<Rightarrow> kt_pid k = pid \<and> kt_state k = Suspended) ts,
     for_kthreads (activate_body me pid) ts c)"


section \<open>Looking up threads\<close>

text \<open>
  \<open>find_kthread\<close> first asks the tid index and accepts its slot only when the thread there has the
  wanted tid; otherwise it scans the table. The indexed form takes the slot the index returned, the
  other ones scan; they agree on tables without duplicate tids (\<open>find_kthread_indexed_eq\<close>).
\<close>

definition has_tid :: "u32 \<Rightarrow> Kthread option \<Rightarrow> bool" where
  "has_tid tid t = (case t of None \<Rightarrow> False | Some k \<Rightarrow> kt_tid k = tid)"

definition find_slot :: "u32 \<Rightarrow> Kthread option list \<Rightarrow> nat option" where
  "find_slot tid ts = position (has_tid tid) ts"

definition find_kthread :: "u32 \<Rightarrow> Kthread option list \<Rightarrow> Kthread option" where
  "find_kthread tid ts = (case find_slot tid ts of None \<Rightarrow> None | Some i \<Rightarrow> ts ! i)"

definition find_kthread_indexed :: "nat option \<Rightarrow> u32 \<Rightarrow> Kthread option list \<Rightarrow> Kthread option" where
  "find_kthread_indexed slot tid ts =
    (case slot of
       Some i \<Rightarrow> if i < length ts \<and> has_tid tid (ts ! i) then ts ! i else find_kthread tid ts
     | None \<Rightarrow> find_kthread tid ts)"

text \<open>A write through the reference that \<open>find_kthread_mut\<close> returns.\<close>

definition modify_kthread :: "u32 \<Rightarrow> (Kthread \<Rightarrow> Kthread) \<Rightarrow> Kthread option list \<Rightarrow> Kthread option list" where
  "modify_kthread tid f ts = (case find_slot tid ts of None \<Rightarrow> ts | Some i \<Rightarrow> ts[i := map_option f (ts ! i)])"

definition find_idle_ptr :: "nat \<Rightarrow> Kthread option list \<Rightarrow> u32 option" where
  "find_idle_ptr cpu ts =
    (case position (\<lambda>t. case t of None \<Rightarrow> False | Some k \<Rightarrow> kt_is_idle k \<and> unat (kt_cpu k) = cpu) ts of
       None \<Rightarrow> None | Some i \<Rightarrow> map_option kt_tid (ts ! i))"

definition thread_tids_for_pid :: "u32 \<Rightarrow> Kthread option list \<Rightarrow> u32 list" where
  "thread_tids_for_pid pid ts =
    concat (map (\<lambda>t. case t of None \<Rightarrow> [] | Some k \<Rightarrow> if kt_pid k = pid then [kt_tid k] else []) ts)"

section \<open>Which threads are queued where\<close>

definition queue_levels :: "nat \<Rightarrow> Cpus \<Rightarrow> u32 list list" where
  "queue_levels cpu c = (case kprcb_page cpu c of None \<Rightarrow> replicate 4 [] | Some kp \<Rightarrow> rq_abs (kp_run_queue kp))"

definition queued :: "Cpus \<Rightarrow> nat \<Rightarrow> u32 \<Rightarrow> nat \<Rightarrow> bool" where
  "queued c cpu t p \<longleftrightarrow> p < 4 \<and> t \<in> set (queue_levels cpu c ! p)"

definition levels_distinct :: "u32 list list \<Rightarrow> bool" where
  "levels_distinct ls \<longleftrightarrow> (\<forall>p<length ls. distinct (ls ! p)) \<and>
     (\<forall>p<length ls. \<forall>q<length ls. \<forall>t. t \<in> set (ls ! p) \<longrightarrow> t \<in> set (ls ! q) \<longrightarrow> p = q)"

definition cpus_wf [inv_defs]: "cpus_wf c \<longleftrightarrow> length (kprcbs c) = MAX_CPUS \<and>
  (\<forall>cpu kp. kprcb_page cpu c = Some kp \<longrightarrow> rq_inv (kp_run_queue kp) \<and> levels_distinct (rq_abs (kp_run_queue kp)))"

text \<open>The place where a thread may be queued: only Ready threads other than boot and idle ones, on
  their own CPU and at the level of their priority.\<close>

definition queue_home :: "Kthread \<Rightarrow> nat \<Rightarrow> nat \<Rightarrow> bool" where
  "queue_home k cpu p \<longleftrightarrow> kt_state k = Ready \<and> \<not> kt_is_idle k \<and> kt_tid k \<noteq> BOOT_TID \<and>
     unat (kt_cpu k) = cpu \<and> p = min (unat (kt_priority k)) 3"

definition tids_of :: "Kthread option list \<Rightarrow> u32 list" where
  "tids_of ts = concat (map (\<lambda>t. case t of None \<Rightarrow> [] | Some k \<Rightarrow> [kt_tid k]) ts)"

text \<open>
  The consistency that \<open>validate_runqueue_invariants\<close> checks of the queues: no duplicate tids in the
  table, no duplicate queue entries, and every entry names a Ready thread at its place.
\<close>

definition queues_consistent [inv_defs]: "queues_consistent ts c \<longleftrightarrow> cpus_wf c \<and> distinct (tids_of ts) \<and>
  (\<forall>cpu t p. queued c cpu t p \<longrightarrow> (\<exists>k. Some k \<in> set ts \<and> kt_tid k = t \<and> queue_home k cpu p))"


subsection \<open>The specified levels\<close>

lemma levels_distinctD:
  "levels_distinct ls \<Longrightarrow> p < length ls \<Longrightarrow> q < length ls \<Longrightarrow> t \<in> set (ls ! p) \<Longrightarrow> t \<in> set (ls ! q) \<Longrightarrow> p = q"
  "levels_distinct ls \<Longrightarrow> p < length ls \<Longrightarrow> distinct (ls ! p)"
  by (simp_all add: levels_distinct_def)

lemma levels_distinct_shrink:
  assumes "levels_distinct ls" and "distinct l" and "set l \<subseteq> set (ls ! p)"
  shows "levels_distinct (ls[p := l])"
proof -
  have sub: "set (ls[p := l] ! i) \<subseteq> set (ls ! i)" and dist: "distinct (ls[p := l] ! i)" if "i < length ls" for i
    using assms that by (cases "i = p"; simp add: levels_distinctD)+
  show ?thesis unfolding levels_distinct_def
  proof (intro conjI allI impI)
    fix i j t assume "i < length (ls[p := l])" "j < length (ls[p := l])" "t \<in> set (ls[p := l] ! i)" "t \<in> set (ls[p := l] ! j)"
    then show "i = j" using levels_distinctD(1) [OF assms(1), of i j t] sub by auto
  qed (simp add: dist)
qed

lemma levels_distinct_push:
  assumes "levels_distinct ls" and "\<forall>l\<in>set ls. t \<notin> set l"
  shows "levels_distinct (snd (levels_push ls t p))"
proof (cases "p < length ls \<and> length (ls ! p) < 64")
  case True
  have mem: "x \<in> set (ls[p := ls ! p @ [t]] ! i) \<longleftrightarrow> x \<in> set (ls ! i) \<or> (x = t \<and> i = p)" if "i < length ls" for i x
    using that by (cases "i = p") auto
  have fresh: "t \<notin> set (ls ! i)" if "i < length ls" for i using assms(2) that by simp
  have "distinct (ls[p := ls ! p @ [t]] ! i)" if "i < length ls" for i
    using that fresh [OF that] by (cases "i = p") (auto simp: levels_distinctD(2) [OF assms(1)])
  moreover have "i = j" if "i < length ls" "j < length ls" "x \<in> set (ls[p := ls ! p @ [t]] ! i)" "x \<in> set (ls[p := ls ! p @ [t]] ! j)" for i j x
    using that mem [of i x] mem [of j x] fresh [of i] fresh [of j] levels_distinctD(1) [OF assms(1), of i j x] by auto
  ultimately show ?thesis using True by (auto simp: levels_push_def levels_distinct_def)
next
  case False
  then show ?thesis using assms(1) by (auto simp: levels_push_def list_update_beyond)
qed

lemma levels_distinct_pop: "levels_distinct ls \<Longrightarrow> levels_distinct (snd (levels_pop ls))"
proof (cases "position (\<lambda>l. l \<noteq> []) ls")
  case (Some p)
  assume "levels_distinct ls"
  then show ?thesis using Some position_SomeD [OF Some]
    by (auto simp: levels_pop_def levels_distinctD(2) distinct_tl intro!: levels_distinct_shrink dest: list.set_sel(2))
qed (simp add: levels_pop_def)

lemma levels_distinct_remove: "levels_distinct ls \<Longrightarrow> levels_distinct (snd (levels_remove ls t))"
proof (cases "position (\<lambda>l. t \<in> set l) ls")
  case (Some p)
  assume "levels_distinct ls"
  then show ?thesis using Some position_SomeD [OF Some]
    by (auto simp: levels_remove_def levels_distinctD(2) intro!: levels_distinct_shrink dest: set_remove1_subset [THEN subsetD])
qed (simp add: levels_remove_def)

lemma levels_remove_mem:
  assumes "levels_distinct ls" and "q < length ls"
  shows "x \<in> set (snd (levels_remove ls t) ! q) \<longleftrightarrow> x \<in> set (ls ! q) \<and> x \<noteq> t"
proof (cases "position (\<lambda>l. t \<in> set l) ls")
  case None
  then have "t \<notin> set (ls ! q)" using assms(2) by (auto simp: position_None_iff)
  then show ?thesis using None by (auto simp: levels_remove_def)
next
  case (Some p)
  have "p < length ls" "t \<in> set (ls ! p)" using position_SomeD [OF Some] by auto
  moreover have "distinct (ls ! p)" using assms calculation by (simp add: levels_distinctD)
  ultimately show ?thesis using Some assms(2) levels_distinctD(1) [OF assms(1), of p q t]
    by (cases "q = p") (auto simp: levels_remove_def)
qed

lemma levels_push_mem:
  assumes "q < length ls" "p < length ls"
  shows "x \<in> set (snd (levels_push ls t p) ! q) \<longleftrightarrow>
    x \<in> set (ls ! q) \<or> (x = t \<and> q = p \<and> length (ls ! p) < 64)"
  using assms by (auto simp: levels_push_def nth_list_update)

lemma levels_pop_mem:
  assumes "levels_distinct ls" and "q < length ls" and "levels_pop ls = (Some t, ls')"
  shows "x \<in> set (ls' ! q) \<longleftrightarrow> x \<in> set (ls ! q) \<and> x \<noteq> t" and "\<exists>p<length ls. t \<in> set (ls ! p)"
proof -
  obtain p where p: "p < length ls" "ls ! p \<noteq> []" "t = hd (ls ! p)" "ls' = ls[p := tl (ls ! p)]"
    using assms(3) by (auto simp: levels_pop_def position_Some_iff split: option.splits)
  then obtain ts where ts: "ls ! p = t # ts" by (cases "ls ! p") auto
  then have "distinct (t # ts)" using levels_distinctD(2) [OF assms(1) p(1)] by simp
  then show "x \<in> set (ls' ! q) \<longleftrightarrow> x \<in> set (ls ! q) \<and> x \<noteq> t"
    using p(1,4) ts assms(2) levels_distinctD(1) [OF assms(1), of p q t] by (cases "q = p") auto
  show "\<exists>p<length ls. t \<in> set (ls ! p)" using p(1) ts by auto
qed

lemma levels_pop_None: "levels_pop ls = (None, ls') \<longleftrightarrow> ls' = ls \<and> (\<forall>l\<in>set ls. l = [])"
proof (cases "position (\<lambda>l. l \<noteq> []) ls")
  case None
  then have "\<forall>l\<in>set ls. l = []" by (simp add: position_None_iff)
  then show ?thesis using None by (auto simp: levels_pop_def)
next
  case (Some p)
  then have "\<exists>l\<in>set ls. l \<noteq> []" using position_SomeD [OF Some] nth_mem by blast
  then show ?thesis using Some by (auto simp: levels_pop_def)
qed

lemma length_levels [simp]:
  "length (snd (levels_push ls t p)) = length ls" "length (snd (levels_pop ls)) = length ls"
  "length (snd (levels_remove ls t)) = length ls"
  by (auto simp: levels_push_def levels_pop_def levels_remove_def split: option.splits)


subsection \<open>The run queues of all CPUs\<close>

lemma kprcb_page_update:
  "cpu < MAX_CPUS \<Longrightarrow> length (kprcbs c) = MAX_CPUS \<Longrightarrow>
   kprcb_page i (c \<lparr> kprcbs := (kprcbs c)[cpu := x] \<rparr>) = (if i = cpu then x else kprcb_page i c)"
  by (auto simp: kprcb_page_def)

lemma kprcb_page_other [simp]:
  "kprcb_page i (c \<lparr> runqueue_overflow := n \<rparr>) = kprcb_page i c" "kprcb_page i (c \<lparr> ipis := l \<rparr>) = kprcb_page i c"
  by (simp_all add: kprcb_page_def)

lemma kprcb_page_bound: "kprcb_page i c = Some kp \<Longrightarrow> i < MAX_CPUS"
  by (simp add: kprcb_page_def split: if_splits)

lemma queue_levels_other [simp]:
  "queue_levels i (c \<lparr> runqueue_overflow := n \<rparr>) = queue_levels i c" "queue_levels i (c \<lparr> ipis := l \<rparr>) = queue_levels i c"
  by (simp_all add: queue_levels_def)

lemma cpus_wf_other [simp]:
  "cpus_wf (c \<lparr> runqueue_overflow := n \<rparr>) = cpus_wf c" "cpus_wf (c \<lparr> ipis := l \<rparr>) = cpus_wf c"
  by (simp_all add: cpus_wf)

lemma queue_levels_wf: "cpus_wf c \<Longrightarrow> length (queue_levels i c) = 4 \<and> levels_distinct (queue_levels i c)"
  by (auto simp: queue_levels_def cpus_wf rq_inv levels_distinct_def split: option.splits)

text \<open>What a CPU is running does not matter to its queue, and the other way round.\<close>

definition same_current :: "Cpus \<Rightarrow> Cpus \<Rightarrow> bool" where
  "same_current c c' \<longleftrightarrow> (\<forall>i. map_option (\<lambda>kp. kp \<lparr> kp_run_queue := rq_new \<rparr>) (kprcb_page i c')
     = map_option (\<lambda>kp. kp \<lparr> kp_run_queue := rq_new \<rparr>) (kprcb_page i c))"

lemma same_current_refl [simp]: "same_current c c"
  by (simp add: same_current_def)

lemma same_current_trans: "same_current c c1 \<Longrightarrow> same_current c1 c2 \<Longrightarrow> same_current c c2"
  by (simp add: same_current_def)

lemma with_runqueue_levels:
  assumes wf: "cpus_wf c" and page: "kprcb_page cpu c = Some kp" and f: "f (kp_run_queue kp) = (r, rq)"
    and inv: "rq_inv rq" and dist: "levels_distinct (rq_abs rq)"
  shows "\<exists>c'. with_runqueue cpu f c = (r, c') \<and> cpus_wf c' \<and> same_current c c' \<and>
    (\<forall>i. queue_levels i c' = (if i = cpu then rq_abs rq else queue_levels i c)) \<and>
    runqueue_overflow c' = runqueue_overflow c \<and> kprcb_page cpu c' = Some (kp \<lparr> kp_run_queue := rq \<rparr>)"
proof -
  let ?c = "c \<lparr> kprcbs := (kprcbs c)[cpu := Some (kp \<lparr> kp_run_queue := rq \<rparr>)] \<rparr>"
  have cpu: "cpu < MAX_CPUS" "length (kprcbs c) = MAX_CPUS"
    using kprcb_page_bound [OF page] wf by (auto simp: cpus_wf)
  note pages = kprcb_page_update [OF cpu]
  have "with_runqueue cpu f c = (r, ?c)" using page f by (simp add: with_runqueue_def)
  moreover have "cpus_wf ?c" using wf inv dist by (auto simp: cpus_wf pages)
  moreover have "same_current c ?c" using page by (simp add: same_current_def pages)
  ultimately show ?thesis using page by (auto simp: queue_levels_def pages)
qed


lemma same_current_other [simp]:
  "same_current c (c' \<lparr> runqueue_overflow := n \<rparr>) = same_current c c'" "same_current c (c' \<lparr> ipis := l \<rparr>) = same_current c c'"
  by (simp_all add: same_current_def)

lemma queued_other [simp]:
  "queued (c \<lparr> runqueue_overflow := n \<rparr>) = queued c" "queued (c \<lparr> ipis := l \<rparr>) = queued c"
  by (simp_all add: queued_def fun_eq_iff)

lemma page_queue:
  assumes "cpus_wf c" and "kprcb_page cpu c = Some kp"
  shows "rq_inv (kp_run_queue kp)" and "levels_distinct (rq_abs (kp_run_queue kp))"
    and "queue_levels cpu c = rq_abs (kp_run_queue kp)" and "length (rq_abs (kp_run_queue kp)) = 4"
  using assms by (auto simp: cpus_wf queue_levels_def rq_inv)

lemma queued_None: "kprcb_page cpu c = None \<Longrightarrow> \<not> queued c cpu t p"
  by (auto simp: queued_def queue_levels_def)

lemma remove_from_run_queue_spec:
  assumes "cpus_wf c"
  shows "cpus_wf (remove_from_run_queue k c) \<and> same_current c (remove_from_run_queue k c) \<and>
    (\<forall>i t p. queued (remove_from_run_queue k c) i t p \<longleftrightarrow> queued c i t p \<and> \<not> (i = unat (kt_cpu k) \<and> t = kt_tid k))"
proof (cases "kprcb_page (unat (kt_cpu k)) c")
  case None
  then show ?thesis using assms queued_None [OF None] by (auto simp: remove_from_run_queue_def remove_from_cpu_run_queue_def)
next
  case (Some kp)
  let ?rq = "kp_run_queue kp" and ?cpu = "unat (kt_cpu k)"
  note q = page_queue [OF assms Some]
  obtain r rq where rq: "rq_remove ?rq (kt_tid k) = (r, rq)" by fastforce
  have ls: "rq_inv rq" "rq_abs rq = snd (levels_remove (rq_abs ?rq) (kt_tid k))"
    using rq_remove_refines [OF q(1), of "kt_tid k"] rq by (auto dest: arg_cong [where f = snd])
  have "levels_distinct (rq_abs rq)" using ls(2) levels_distinct_remove [OF q(2)] by simp
  with with_runqueue_levels [OF assms Some, of "\<lambda>rq. rq_remove rq (kt_tid k)"] rq ls(1)
  obtain c' where c': "remove_from_run_queue k c = c'" "cpus_wf c'" "same_current c c'"
      "\<forall>i. queue_levels i c' = (if i = ?cpu then rq_abs rq else queue_levels i c)"
    using Some kprcb_page_bound [OF Some] by (auto simp: remove_from_run_queue_def remove_from_cpu_run_queue_def)
  then show ?thesis using ls(2) q levels_remove_mem [OF q(2)] by (auto simp: queued_def)
qed

lemma enqueue_spec:
  assumes "cpus_wf c"
  shows "cpus_wf (enqueue_to_cpu_run_queue me k c)"
    and "same_current c (enqueue_to_cpu_run_queue me k c)"
    and "queued c i t p \<Longrightarrow> queued (enqueue_to_cpu_run_queue me k c) i t p"
    and "queued (enqueue_to_cpu_run_queue me k c) i t p \<Longrightarrow> queued c i t p \<or>
      (t = kt_tid k \<and> i = unat (kt_cpu k) \<and> p = min (unat (kt_priority k)) 3 \<and> kt_tid k \<noteq> BOOT_TID \<and> \<not> kt_is_idle k)"
proof -
  let ?cpu = "unat (kt_cpu k)" and ?p = "min (unat (kt_priority k)) 3" and ?c = "enqueue_to_cpu_run_queue me k c"
  have "cpus_wf ?c \<and> same_current c ?c \<and> (\<forall>i t p. queued c i t p \<longrightarrow> queued ?c i t p) \<and>
    (\<forall>i t p. queued ?c i t p \<longrightarrow> queued c i t p \<or>
      (t = kt_tid k \<and> i = ?cpu \<and> p = ?p \<and> kt_tid k \<noteq> BOOT_TID \<and> \<not> kt_is_idle k))"
  proof (cases "kt_tid k = BOOT_TID \<or> kt_is_idle k \<or> kprcb_page ?cpu c = None")
    case True
    then have "?c = c \<or> (\<exists>r. ?c = c \<lparr> runqueue_overflow := r \<rparr>)"
      by (cases "kt_tid k = BOOT_TID \<or> kt_is_idle k")
        (auto simp: enqueue_to_cpu_run_queue_def with_runqueue_def Let_def case_prod_beta)
    then show ?thesis using assms by auto
  next
    case False
    then obtain kp where page: "kprcb_page ?cpu c = Some kp" by auto
    let ?rq = "kp_run_queue kp"
    let ?f = "\<lambda>rq. if rq_contains rq (kt_tid k) then ((True, True), rq)
                    else map_prod (Pair False) id (push_priority rq (kt_tid k) (kt_priority k))"
    note q = page_queue [OF assms page]
    obtain r rq where rq: "?f ?rq = (r, rq)" by fastforce
    have ls: "rq_inv rq" "rq_abs rq = (if rq_contains ?rq (kt_tid k) then rq_abs ?rq
        else snd (levels_push (rq_abs ?rq) (kt_tid k) ?p))"
      using push_priority_refines [OF q(1), of "kt_tid k" "kt_priority k"] q(1) rq
      by (cases "push_priority ?rq (kt_tid k) (kt_priority k)"; auto split: if_splits dest: arg_cong [where f = snd])+
    have "levels_distinct (rq_abs rq)"
      using ls(2) q levels_distinct_push [OF q(2)] by (auto simp: rq_contains_iff)
    with with_runqueue_levels [OF assms page, of ?f] rq ls(1)
    obtain c' where c': "with_runqueue ?cpu ?f c = (r, c')" "cpus_wf c'" "same_current c c'"
        "\<forall>i. queue_levels i c' = (if i = ?cpu then rq_abs rq else queue_levels i c)" by auto
    have same: "cpus_wf ?c = cpus_wf c'" "same_current c ?c = same_current c c'" "queued ?c = queued c'"
      using False kprcb_page_bound [OF page] c'(1) by (auto simp: enqueue_to_cpu_run_queue_def Let_def case_prod_beta)
    have "queued c' i t p \<longleftrightarrow> queued c i t p \<or> (\<not> rq_contains ?rq (kt_tid k) \<and> t = kt_tid k \<and> i = ?cpu \<and> p = ?p
        \<and> length (rq_abs ?rq ! ?p) < 64)" for i t p
      using c'(4) q ls(2) levels_push_mem [of p "rq_abs ?rq" ?p t "kt_tid k"] by (auto simp: queued_def)
    then show ?thesis using same c' False by auto
  qed
  then show "cpus_wf ?c" "same_current c ?c" "queued c i t p \<Longrightarrow> queued ?c i t p"
    "queued ?c i t p \<Longrightarrow> queued c i t p \<or>
      (t = kt_tid k \<and> i = ?cpu \<and> p = ?p \<and> kt_tid k \<noteq> BOOT_TID \<and> \<not> kt_is_idle k)" by blast+
qed


section \<open>Passes over the thread table\<close>

text \<open>
  The interface between the loops over the table and their bodies: a body keeps the thread's
  identifier, touches the queue entries of that thread only, and leaves it queued at most at its
  place. Then the whole loop keeps the queues consistent.
\<close>

definition at_home :: "Kthread \<Rightarrow> Cpus \<Rightarrow> bool" where
  "at_home k c \<longleftrightarrow> (\<forall>i p. queued c i (kt_tid k) p \<longrightarrow> queue_home k i p)"

lemma tids_of_mem: "t \<in> set (tids_of ts) \<longleftrightarrow> (\<exists>k. Some k \<in> set ts \<and> kt_tid k = t)"
  by (force simp: tids_of_def split: option.splits)

lemma tids_of_inj:
  assumes "distinct (tids_of ts)" "Some k \<in> set ts" "Some k' \<in> set ts" "kt_tid k = kt_tid k'"
  shows "k = k'"
  using assms
proof (induction ts)
  case (Cons t ts)
  have "kt_tid a \<in> set (tids_of ts)" if "Some a \<in> set ts" for a using that by (auto simp: tids_of_mem)
  then show ?case using Cons by (cases t) (auto simp: tids_of_def)
qed simp

lemma queues_consistent_iff:
  "queues_consistent ts c \<longleftrightarrow> cpus_wf c \<and> distinct (tids_of ts) \<and>
     (\<forall>k. Some k \<in> set ts \<longrightarrow> at_home k c) \<and> (\<forall>i t p. queued c i t p \<longrightarrow> t \<in> set (tids_of ts))"
  unfolding queues_consistent at_home_def tids_of_mem using tids_of_inj [of ts] by blast

locale thread_pass =
  fixes f :: "Kthread \<Rightarrow> Cpus \<Rightarrow> Kthread \<times> Cpus"
  assumes same_tid: "kt_tid (fst (f k c)) = kt_tid k"
    and pass_wf: "cpus_wf c \<Longrightarrow> cpus_wf (snd (f k c))"
    and pass_current: "cpus_wf c \<Longrightarrow> same_current c (snd (f k c))"
    and pass_frame: "cpus_wf c \<Longrightarrow> t \<noteq> kt_tid k \<Longrightarrow> queued (snd (f k c)) i t p = queued c i t p"
    and pass_home: "cpus_wf c \<Longrightarrow> at_home k c \<Longrightarrow> at_home (fst (f k c)) (snd (f k c))"
begin

lemma tids_for_kthreads: "tids_of (fst (for_kthreads f ts c)) = tids_of ts"
proof (induction ts arbitrary: c)
  case (Cons t ts)
  then show ?case by (cases t) (auto simp: tids_of_def Let_def case_prod_beta same_tid)
qed (simp add: tids_of_def)

lemma for_kthreads_current: "cpus_wf c \<Longrightarrow> same_current c (snd (for_kthreads f ts c))"
proof (induction ts arbitrary: c)
  case (Cons t ts)
  show ?case
  proof (cases t)
    case (Some k)
    have "same_current (snd (f k c)) (snd (for_kthreads f ts (snd (f k c))))"
      using Cons.IH [OF pass_wf [OF Cons.prems]] .
    then show ?thesis using Some same_current_trans [OF pass_current [OF Cons.prems]] by (simp add: Let_def case_prod_beta)
  qed (simp add: Cons)
qed simp

lemma for_kthreads_wf: "cpus_wf c \<Longrightarrow> cpus_wf (snd (for_kthreads f ts c))"
proof (induction ts arbitrary: c)
  case (Cons t ts)
  then show ?case by (cases t) (auto simp: Let_def case_prod_beta pass_wf)
qed simp

lemma for_kthreads_frame:
  "cpus_wf c \<Longrightarrow> t \<notin> set (tids_of ts) \<Longrightarrow> queued (snd (for_kthreads f ts c)) i t p = queued c i t p"
proof (induction ts arbitrary: c)
  case (Cons th ts)
  then show ?case by (cases th) (auto simp: Let_def case_prod_beta pass_wf pass_frame tids_of_def)
qed simp

lemma for_kthreads_home:
  assumes "cpus_wf c" and "distinct (tids_of ts)" and "\<forall>k. Some k \<in> set ts \<longrightarrow> at_home k c"
  shows "\<forall>k. Some k \<in> set (fst (for_kthreads f ts c)) \<longrightarrow> at_home k (snd (for_kthreads f ts c))"
  using assms
proof (induction ts arbitrary: c)
  case (Cons th ts)
  show ?case
  proof (cases th)
    case None
    then show ?thesis using Cons by (auto simp: tids_of_def)
  next
    case (Some k)
    let ?k = "fst (f k c)" and ?c = "snd (f k c)"
    have tids: "kt_tid k \<notin> set (tids_of ts)" "distinct (tids_of ts)" using Cons.prems(2) Some by (auto simp: tids_of_def)
    have "at_home k' ?c" if "Some k' \<in> set ts" for k'
    proof -
      have "kt_tid k' \<in> set (tids_of ts)" using that by (force simp: tids_of_def)
      then have "kt_tid k' \<noteq> kt_tid k" using tids(1) by auto
      then show ?thesis using pass_frame [OF Cons.prems(1)] Cons.prems(3) that by (simp add: at_home_def)
    qed
    then have "\<forall>k. Some k \<in> set (fst (for_kthreads f ts ?c)) \<longrightarrow> at_home k (snd (for_kthreads f ts ?c))"
      using Cons.IH [OF pass_wf [OF Cons.prems(1)] tids(2)] by blast
    moreover have "at_home ?k ?c" using pass_home [OF Cons.prems(1)] Cons.prems(3) Some by simp
    then have "at_home ?k (snd (for_kthreads f ts ?c))"
      using for_kthreads_frame [OF pass_wf [OF Cons.prems(1)], of "kt_tid ?k" ts] tids(1)
      by (simp add: at_home_def same_tid)
    ultimately show ?thesis using Some by (simp add: Let_def case_prod_beta)
  qed
qed simp


theorem for_kthreads_consistent:
  assumes "queues_consistent ts c"
  shows "queues_consistent (fst (for_kthreads f ts c)) (snd (for_kthreads f ts c))"
proof -
  note c = assms [unfolded queues_consistent_iff]
  have "queued (snd (for_kthreads f ts c)) i t p \<Longrightarrow> t \<in> set (tids_of ts)" for i t p
    using for_kthreads_frame [of c t ts i p] c by blast
  then show ?thesis
    using for_kthreads_wf for_kthreads_home c by (simp add: queues_consistent_iff tids_for_kthreads)
qed

end

subsection \<open>The bodies\<close>

lemma make_thread_ready_home:
  assumes "cpus_wf c" and "at_home k c"
  shows "at_home (fst (make_thread_ready me k c)) (snd (make_thread_ready me k c))"
proof (cases "kt_state k = Ready")
  case False
  then have no: "\<not> queued c i (kt_tid k) p" for i p using assms(2) by (auto simp: at_home_def queue_home_def)
  let ?k = "fst (make_thread_ready me k c)"
  have k: "kt_tid ?k = kt_tid k" "kt_state ?k = Ready" "snd (make_thread_ready me k c) = enqueue_to_cpu_run_queue me ?k c"
    using False by (simp_all add: make_thread_ready_def Let_def)
  show ?thesis unfolding at_home_def k(1,3)
  proof (intro allI impI)
    fix i p assume "queued (enqueue_to_cpu_run_queue me ?k c) i (kt_tid k) p"
    from enqueue_spec(4) [OF assms(1) this] show "queue_home ?k i p" using no k by (simp add: queue_home_def)
  qed
qed (use assms in \<open>simp add: make_thread_ready_def\<close>)

lemma make_thread_ready_tid [simp]: "kt_tid (fst (make_thread_ready me k c)) = kt_tid k"
  by (simp add: make_thread_ready_def Let_def)

lemma make_thread_ready_wf: "cpus_wf c \<Longrightarrow> cpus_wf (snd (make_thread_ready me k c))"
  and make_thread_ready_current: "cpus_wf c \<Longrightarrow> same_current c (snd (make_thread_ready me k c))"
  by (auto simp: make_thread_ready_def Let_def enqueue_spec)

lemma enqueue_frame:
  "cpus_wf c \<Longrightarrow> t \<noteq> kt_tid k \<Longrightarrow> queued (enqueue_to_cpu_run_queue me k c) i t p = queued c i t p"
  using enqueue_spec(3,4) [where c = c and i = i and t = t and p = p and me = me and k = k] by blast

lemma remove_frame:
  "cpus_wf c \<Longrightarrow> t \<noteq> kt_tid k \<Longrightarrow> queued (remove_from_run_queue k c) i t p = queued c i t p"
  using remove_from_run_queue_spec [of c k] by blast

lemma make_thread_ready_frame:
  "cpus_wf c \<Longrightarrow> t \<noteq> kt_tid k \<Longrightarrow> queued (snd (make_thread_ready me k c)) i t p = queued c i t p"
  by (auto simp: make_thread_ready_def Let_def enqueue_frame)

lemma at_home_waiting [simp]: "at_home (k \<lparr> kt_waiting_for := w \<rparr>) c = at_home k c"
  by (simp add: at_home_def queue_home_def)

text \<open>Moving a Ready thread to the level of a new priority: out of its queue, then in again.\<close>

lemma requeue_spec:
  assumes "cpus_wf c"
  shows "cpus_wf (enqueue_to_cpu_run_queue me k' (remove_from_run_queue r c))"
    and "same_current c (enqueue_to_cpu_run_queue me k' (remove_from_run_queue r c))"
    and "t \<noteq> kt_tid k' \<Longrightarrow> kt_tid r = kt_tid k' \<Longrightarrow>
      queued (enqueue_to_cpu_run_queue me k' (remove_from_run_queue r c)) i t p = queued c i t p"
  using remove_from_run_queue_spec [OF assms, of r] same_current_trans
  by (auto simp: enqueue_spec enqueue_frame remove_frame assms)

lemma requeue_home:
  assumes "cpus_wf c" and "at_home k c" and "kt_tid r = kt_tid k" "kt_cpu r = kt_cpu k"
    and "kt_tid k' = kt_tid k" and "kt_state k' = Ready"
  shows "at_home k' (enqueue_to_cpu_run_queue me k' (remove_from_run_queue r c))"
  unfolding at_home_def
proof (intro allI impI)
  fix i p assume q: "queued (enqueue_to_cpu_run_queue me k' (remove_from_run_queue r c)) i (kt_tid k') p"
  note rm = remove_from_run_queue_spec [OF assms(1), of r]
  have "\<not> queued (remove_from_run_queue r c) i (kt_tid k) p"
    using rm assms(2-4) by (auto simp: at_home_def queue_home_def)
  then show "queue_home k' i p"
    using enqueue_spec(4) [OF conjunct1 [OF rm] q] assms(5,6) by (simp add: queue_home_def)
qed

interpretation wake: thread_pass "wake_body me magic"
  by unfold_locales (auto simp: wake_body_def make_thread_ready_wf make_thread_ready_current make_thread_ready_frame
      make_thread_ready_home)

interpretation activate: thread_pass "activate_body me pid"
  by unfold_locales (auto simp: activate_body_def make_thread_ready_wf make_thread_ready_current make_thread_ready_frame
      make_thread_ready_home)

interpretation prio: thread_pass "set_priority_body me pid priority"
proof unfold_locales
  fix c k assume wf: "cpus_wf c" and home: "at_home k c"
  let ?k = "fst (set_priority_body me pid priority k c)"
  show "at_home ?k (snd (set_priority_body me pid priority k c))"
    using home requeue_home [OF wf home, of ?k ?k me] by (auto simp: set_priority_body_def Let_def at_home_def queue_home_def)
qed (auto simp: set_priority_body_def Let_def requeue_spec)

interpretation aging: thread_pass "aging_body me"
proof unfold_locales
  fix c k assume wf: "cpus_wf c" and home: "at_home k c"
  let ?k = "fst (aging_body me k c)"
  let ?k1 = "k \<lparr> kt_ticks_since_scheduled := saturating_add (kt_ticks_since_scheduled k) AGING_INTERVAL_TICKS \<rparr>"
  show "at_home ?k (snd (aging_body me k c))"
    using home requeue_home [OF wf home, of ?k1 ?k me] by (auto simp: aging_body_def Let_def at_home_def queue_home_def)
qed (auto simp: aging_body_def Let_def requeue_spec)


section \<open>Updates of one thread\<close>

lemma find_slot_SomeD:
  assumes "find_slot t ts = Some i"
  shows "i < length ts" and "\<exists>k. ts ! i = Some k \<and> kt_tid k = t"
  using position_SomeD [OF assms [unfolded find_slot_def]] by (auto simp: has_tid_def split: option.splits)

lemma find_kthread_SomeD:
  assumes "find_kthread t ts = Some k"
  shows "Some k \<in> set ts" and "kt_tid k = t" and "\<exists>i<length ts. find_slot t ts = Some i \<and> ts ! i = Some k"
proof -
  obtain i where i: "find_slot t ts = Some i" "ts ! i = Some k"
    using assms by (auto simp: find_kthread_def split: option.splits)
  then show "Some k \<in> set ts" "kt_tid k = t" "\<exists>i<length ts. find_slot t ts = Some i \<and> ts ! i = Some k"
    using find_slot_SomeD [OF i(1)] nth_mem by fastforce+
qed

lemma find_kthread_None_iff: "find_kthread t ts = None \<longleftrightarrow> t \<notin> set (tids_of ts)"
proof (cases "find_slot t ts")
  case None
  then have "\<forall>x\<in>set ts. \<not> has_tid t x" by (simp add: find_slot_def position_None_iff)
  then show ?thesis using None by (fastforce simp: find_kthread_def tids_of_mem has_tid_def)
next
  case (Some i)
  then show ?thesis using find_slot_SomeD [OF Some] nth_mem by (fastforce simp: find_kthread_def tids_of_mem)
qed

lemma find_kthread_iff:
  assumes "distinct (tids_of ts)"
  shows "find_kthread t ts = Some k \<longleftrightarrow> Some k \<in> set ts \<and> kt_tid k = t"
  using find_kthread_SomeD [of t ts k] tids_of_inj [OF assms] find_kthread_None_iff [of t ts]
  by (cases "find_kthread t ts") (auto simp: tids_of_mem dest: find_kthread_SomeD)

text \<open>Whatever slot the tid index returns, the lookup is the one of the scan.\<close>

lemma find_kthread_indexed_eq:
  assumes "distinct (tids_of ts)"
  shows "find_kthread_indexed slot t ts = find_kthread t ts"
proof (cases slot)
  case (Some i)
  have "find_kthread t ts = ts ! i" if i: "i < length ts" "has_tid t (ts ! i)"
  proof -
    obtain k where k: "ts ! i = Some k" "kt_tid k = t" using i(2) by (auto simp: has_tid_def split: option.splits)
    then have "Some k \<in> set ts" using nth_mem [OF i(1)] by simp
    then show ?thesis using find_kthread_iff [OF assms, of t k] k by simp
  qed
  then show ?thesis using Some by (simp add: find_kthread_indexed_def)
qed (simp add: find_kthread_indexed_def)

lemma tids_of_nth_inj:
  "distinct (tids_of ts) \<Longrightarrow> i < length ts \<Longrightarrow> j < length ts \<Longrightarrow> ts ! i = Some a \<Longrightarrow> ts ! j = Some b \<Longrightarrow>
   kt_tid a = kt_tid b \<Longrightarrow> i = j"
proof (induction ts arbitrary: i j)
  case (Cons t ts)
  have mem: "kt_tid x \<in> set (tids_of ts)" if "n < length ts" "ts ! n = Some x" for n x
    using that nth_mem [of n ts] by (auto simp: tids_of_mem)
  have tail: "distinct (tids_of ts)" and hd: "t = Some x \<Longrightarrow> kt_tid x \<notin> set (tids_of ts)" for x
    using Cons.prems(1) by (auto simp: tids_of_def split: option.splits)
  show ?case
  proof (cases i; cases j)
    fix n assume "i = 0" "j = Suc n"
    then show ?thesis using Cons.prems mem [of n b] hd [of a] by auto
  next
    fix n assume "i = Suc n" "j = 0"
    then show ?thesis using Cons.prems mem [of n a] hd [of b] by auto
  next
    fix n m assume "i = Suc n" "j = Suc m"
    then show ?thesis using Cons.prems Cons.IH [OF tail, of n m] by auto
  qed auto
qed simp

lemma tids_of_update: "i < length ts \<Longrightarrow> ts ! i = Some k \<Longrightarrow> kt_tid k' = kt_tid k \<Longrightarrow> tids_of (ts[i := Some k']) = tids_of ts"
proof (induction ts arbitrary: i)
  case (Cons t ts)
  then show ?case by (cases i) (auto simp: tids_of_def)
qed simp

lemma modify_kthread_eq:
  assumes "find_kthread t ts = Some k"
  obtains i where "i < length ts" and "ts ! i = Some k" and "modify_kthread t f ts = ts[i := Some (f k)]"
  using find_kthread_SomeD(3) [OF assms] by (auto simp: modify_kthread_def)

lemma modify_kthread_tids [simp]:
  assumes "\<And>k. kt_tid (f k) = kt_tid k"
  shows "tids_of (modify_kthread t f ts) = tids_of ts"
proof (cases "find_slot t ts")
  case (Some i)
  then show ?thesis using find_slot_SomeD [OF Some] tids_of_update [of i ts _ "f _"] assms
    by (fastforce simp: modify_kthread_def)
qed (simp add: modify_kthread_def)

lemma modify_kthread_mem:
  assumes "find_kthread t ts = Some k" and "distinct (tids_of ts)" and "Some k' \<in> set (modify_kthread t f ts)"
  shows "k' = f k \<or> (Some k' \<in> set ts \<and> kt_tid k' \<noteq> t)"
proof -
  obtain i where i: "i < length ts" "ts ! i = Some k" "modify_kthread t f ts = ts[i := Some (f k)]"
    using modify_kthread_eq [OF assms(1)] .
  then obtain j where j: "j < length ts" "ts[i := Some (f k)] ! j = Some k'"
    using assms(3) by (auto simp: in_set_conv_nth)
  show ?thesis
  proof (cases "j = i")
    case False
    then have kj: "ts ! j = Some k'" using j by simp
    have "kt_tid k' \<noteq> t"
      using tids_of_nth_inj [OF assms(2) j(1) i(1) kj i(2)] find_kthread_SomeD(2) [OF assms(1)] False by auto
    then show ?thesis using kj j(1) nth_mem by fastforce
  qed (use i j in auto)
qed


lemma consistent_modify:
  assumes "queues_consistent ts c" and "find_kthread t ts = Some k" and "\<And>k. kt_tid (f k) = kt_tid k"
    and "cpus_wf c'" and "\<And>i u p. u \<noteq> t \<Longrightarrow> queued c' i u p \<Longrightarrow> queued c i u p" and "at_home (f k) c'"
  shows "queues_consistent (modify_kthread t f ts) c'"
proof -
  note c = assms(1) [unfolded queues_consistent_iff]
  have t: "t \<in> set (tids_of ts)" using find_kthread_None_iff [of t ts] assms(2) by auto
  have "at_home k' c'" if "Some k' \<in> set (modify_kthread t f ts)" for k'
    using modify_kthread_mem [OF assms(2) _ that] c assms(5,6) by (auto simp: at_home_def)
  moreover have "u \<in> set (tids_of ts)" if "queued c' i u p" for i u p
    using that t assms(5) [of u i p] c by (cases "u = t") auto
  ultimately show ?thesis using assms(3,4) c by (auto simp: queues_consistent_iff)
qed

lemma consistent_shrink:
  assumes "queues_consistent ts c" and "cpus_wf c'" and "\<And>i u p. queued c' i u p \<Longrightarrow> queued c i u p"
  shows "queues_consistent ts c'"
  using assms unfolding queues_consistent by blast

text \<open>Taking the next entry of a CPU's queue.\<close>

lemma dequeue_spec:
  assumes "cpus_wf c" and "with_runqueue cpu rq_pop c = (r, c')"
  shows "cpus_wf c'" and "same_current c c'" and "queued c' i t p \<Longrightarrow> queued c i t p"
    and "r = Some u \<Longrightarrow> \<exists>p. queued c cpu u p" and "r = Some u \<Longrightarrow> \<not> queued c' cpu u p"
    and "queued c i t p \<Longrightarrow> r \<noteq> Some t \<or> i \<noteq> cpu \<Longrightarrow> queued c' i t p"
    and "r = None \<Longrightarrow> \<not> queued c cpu t p"
proof -
  have "cpus_wf c' \<and> same_current c c' \<and> (\<forall>i t p. queued c' i t p \<longleftrightarrow> queued c i t p \<and> \<not> (i = cpu \<and> r = Some t)) \<and>
    (\<forall>u. r = Some u \<longrightarrow> (\<exists>p. queued c cpu u p)) \<and> (r = None \<longrightarrow> (\<forall>t p. \<not> queued c cpu t p))"
  proof (cases "kprcb_page cpu c")
    case None
    then have "r = None" "c' = c" using assms(2) by (auto simp: with_runqueue_def rq_pop_def rq_new_def)
    then show ?thesis using assms(1) queued_None [OF None] by auto
  next
    case (Some kp)
    note q = page_queue [OF assms(1) Some]
    obtain r' rq where rq: "rq_pop (kp_run_queue kp) = (r', rq)" by fastforce
    have ls: "rq_inv rq" "levels_pop (rq_abs (kp_run_queue kp)) = (r', rq_abs rq)"
      using rq_pop_refines [OF q(1)] rq by auto
    have "levels_distinct (rq_abs rq)" using levels_distinct_pop [OF q(2)] ls(2) by simp
    with with_runqueue_levels [OF assms(1) Some, of rq_pop] rq ls(1) assms(2)
    have c': "r' = r" "cpus_wf c'" "same_current c c'"
        "\<forall>i. queue_levels i c' = (if i = cpu then rq_abs rq else queue_levels i c)" by auto
    show ?thesis
    proof (cases r)
      case None
      then have same: "rq_abs rq = rq_abs (kp_run_queue kp)" and none: "\<forall>l\<in>set (rq_abs (kp_run_queue kp)). l = []"
        using ls(2) c'(1) by (simp_all add: levels_pop_None)
      have "rq_abs (kp_run_queue kp) ! p = []" if "p < 4" for p
        using bspec [OF none nth_mem [of p]] q(4) that by simp
      then have "\<not> queued c cpu t p" for t p using q(3) by (simp add: queued_def)
      then show ?thesis using None c' q same by (auto simp: queued_def)
    next
      case (Some u)
      have pop: "levels_pop (rq_abs (kp_run_queue kp)) = (Some u, rq_abs rq)" using ls(2) Some c'(1) by simp
      show ?thesis using Some c' q levels_pop_mem(1) [OF q(2) _ pop] levels_pop_mem(2) [OF q(2) _ pop, of 0]
        by (auto simp: queued_def)
    qed
  qed
  then show "cpus_wf c'" "same_current c c'" "queued c' i t p \<Longrightarrow> queued c i t p"
    "r = Some u \<Longrightarrow> \<exists>p. queued c cpu u p" "r = Some u \<Longrightarrow> \<not> queued c' cpu u p"
    "queued c i t p \<Longrightarrow> r \<noteq> Some t \<or> i \<noteq> cpu \<Longrightarrow> queued c' i t p" "r = None \<Longrightarrow> \<not> queued c cpu t p" by blast+
qed


lemma cpus_boot_page: "kprcb_page i (cpus_boot n) = (if i < MAX_CPUS \<and> i < n then Some kprcb_new else None)"
  by (simp add: kprcb_page_def cpus_boot_def)

lemma levels_distinct_new: "levels_distinct (rq_abs rq_new)"
  unfolding rq_new_abs by (auto simp: levels_distinct_def)

lemma consistent_boot: "distinct (tids_of ts) \<Longrightarrow> queues_consistent ts (cpus_boot n)"
proof -
  have "cpus_wf (cpus_boot n)"
    using levels_distinct_new by (auto simp: cpus_wf cpus_boot_page kprcb_new_def) (simp add: cpus_boot_def)
  moreover have "\<not> queued (cpus_boot n) i t p" for i t p
    by (auto simp: queued_def queue_levels_def cpus_boot_page kprcb_new_def rq_new_abs)
  ultimately show "distinct (tids_of ts) \<Longrightarrow> queues_consistent ts (cpus_boot n)" by (simp add: queues_consistent)
qed

text \<open>A small table for concrete runs: an idle thread and three threads of process 7, one blocked on the
  magic value 42, one suspended on CPU 1 and one ready at the lowest priority.\<close>

definition sample_thread :: "u32 \<Rightarrow> ThreadState \<Rightarrow> u8 \<Rightarrow> u32 \<Rightarrow> Kthread" where
  "sample_thread tid st prio cpu = \<lparr> kt_tid = tid, kt_pid = 7, kt_state = st, kt_rsp = 0x9000, kt_cpu_ticks = 0,
     kt_cpu_time = 0, kt_cpu_time_base = 0, kt_waiting_for = (if st = Blocked 42 then Some 42 else None),
     kt_priority = prio, kt_base_priority = prio, kt_time_slice_remaining = time_slice_of prio,
     kt_ticks_since_scheduled = 0, kt_kernel_stack_top = 0xA000, kt_kernel_stack_size = 0x4000, kt_kernel_stack = True,
     kt_cpu = cpu, kt_obj_id = None, kt_is_idle = False, kt_is_kernel = False, kt_yield_requested = False \<rparr>"

definition sample_threads :: "Kthread option list" where
  "sample_threads = [Some ((sample_thread 1 Ready 3 0) \<lparr> kt_is_idle := True \<rparr>), None, Some (sample_thread 2 (Blocked 42) 2 1),
     Some (sample_thread 3 Suspended 2 1), Some (sample_thread 4 Ready 3 0)]"

lemma sample_consistent: "queues_consistent sample_threads (cpus_boot n)"
  by (rule consistent_boot) (simp add: sample_threads_def sample_thread_def tids_of_def)

section \<open>Waking\<close>

text \<open>What the wake does to one thread.\<close>

definition woken :: "u64 \<Rightarrow> Kthread \<Rightarrow> Kthread" where
  "woken magic k = (if kt_waiting_for k = Some magic \<and> is_blocked k
     then k \<lparr> kt_waiting_for := None, kt_state := Ready, kt_yield_requested := False,
              kt_time_slice_remaining := time_slice_of (kt_priority k), kt_ticks_since_scheduled := 0 \<rparr>
     else k)"

lemma wake_body_thread: "fst (wake_body me magic k c) = woken magic k"
  by (auto simp: wake_body_def woken_def make_thread_ready_def is_blocked_def Let_def)

lemma for_kthreads_threads:
  "(\<And>k c. fst (f k c) = g k) \<Longrightarrow> fst (for_kthreads f ts c) = map (map_option g) ts"
proof (induction ts arbitrary: c)
  case (Cons t ts)
  then show ?case by (cases t) (auto simp: Let_def case_prod_beta)
qed simp

text \<open>
  C10. Waking the waiters of a magic value makes exactly the threads Ready that are blocked on it, with a
  fresh time slice, and leaves every other thread as it was; the run queues stay consistent and no CPU's
  current thread changes.
\<close>

theorem wake_blocked_on_magic_exact:
  assumes "queues_consistent ts c"
  shows "fst (wake_blocked_on_magic me magic ts c) = map (map_option (woken magic)) ts \<and>
    queues_consistent (fst (wake_blocked_on_magic me magic ts c)) (snd (wake_blocked_on_magic me magic ts c)) \<and>
    same_current c (snd (wake_blocked_on_magic me magic ts c))"
proof -
  have "cpus_wf c" using assms by (simp add: queues_consistent)
  then show ?thesis unfolding wake_blocked_on_magic_def
    using for_kthreads_threads [of "wake_body me magic", OF wake_body_thread] wake.for_kthreads_consistent [OF assms]
      wake.for_kthreads_current by blast
qed

theorem wake_blocked_on_magic_exact_witness:
  "queues_consistent sample_threads (cpus_boot 2) \<and> sample_threads ! 2 = Some (sample_thread 2 (Blocked 42) 2 1) \<and>
    fst (wake_blocked_on_magic 0 42 sample_threads (cpus_boot 2)) ! 2 = Some (sample_thread 2 Ready 2 1)"
  using wake_blocked_on_magic_exact [OF sample_consistent, of 0 42 2] sample_consistent
  by (simp add: sample_threads_def sample_thread_def woken_def is_blocked_def)

section \<open>Aging\<close>

definition aged :: "Kthread \<Rightarrow> Kthread" where
  "aged k = fst (aging_body 0 k (cpus_boot 0))"

lemma aging_body_thread: "fst (aging_body me k c) = aged k"
  by (simp add: aged_def aging_body_def Let_def)

lemma aged_Ready:
  assumes "kt_state k = Ready" and "\<not> kt_is_idle k"
  shows "kt_state (aged k) = Ready" and "\<not> kt_is_idle (aged k)"
    and "kt_priority k = 0 \<Longrightarrow> kt_priority (aged k) = 0"
    and "kt_priority k \<noteq> 0 \<Longrightarrow> unat (kt_priority (aged k)) = unat (kt_priority k) - 1 \<and> kt_ticks_since_scheduled (aged k) = 0
      \<or> kt_priority (aged k) = kt_priority k \<and> unat (kt_ticks_since_scheduled (aged k)) = unat (kt_ticks_since_scheduled k) + 500 \<and>
        unat (kt_ticks_since_scheduled (aged k)) < 5000"
proof -
  have sat: "unat (saturating_add (kt_ticks_since_scheduled k) AGING_INTERVAL_TICKS) = min (unat (kt_ticks_since_scheduled k) + 500) (2 ^ 64 - 1)"
    by (simp add: unat_saturating_add)
  show "kt_state (aged k) = Ready" "\<not> kt_is_idle (aged k)" "kt_priority k = 0 \<Longrightarrow> kt_priority (aged k) = 0"
    using assms by (auto simp: aged_def aging_body_def Let_def)
  show "unat (kt_priority (aged k)) = unat (kt_priority k) - 1 \<and> kt_ticks_since_scheduled (aged k) = 0
      \<or> kt_priority (aged k) = kt_priority k \<and> unat (kt_ticks_since_scheduled (aged k)) = unat (kt_ticks_since_scheduled k) + 500 \<and>
        unat (kt_ticks_since_scheduled (aged k)) < 5000" if "kt_priority k \<noteq> 0"
    using assms that sat
    by (auto simp: aged_def aging_body_def Let_def word_le_nat_alt
        word_gt_0 unat_minus_one)
qed

text \<open>Passes still needed until the thread has the highest priority.\<close>

definition aging_distance :: "Kthread \<Rightarrow> nat" where
  "aging_distance k = (if kt_priority k = 0 then 0
     else 10 * unat (kt_priority k) - min 9 (unat (kt_ticks_since_scheduled k) div 500))"

lemma aged_distance:
  assumes "kt_state k = Ready" and "\<not> kt_is_idle k"
  shows "aging_distance (aged k) \<le> aging_distance k - 1"
proof (cases "kt_priority k = 0")
  case False
  then have pos: "0 < unat (kt_priority k)" by (simp add: unat_gt_0)
  show ?thesis using aged_Ready(4) [OF assms False]
  proof
    assume a: "unat (kt_priority (aged k)) = unat (kt_priority k) - 1 \<and> kt_ticks_since_scheduled (aged k) = 0"
    then have "aging_distance (aged k) \<le> 10 * (unat (kt_priority k) - 1)" by (auto simp: aging_distance_def)
    also have "\<dots> \<le> aging_distance k - 1" using pos False by (simp add: aging_distance_def)
    finally show ?thesis .
  next
    assume a: "kt_priority (aged k) = kt_priority k \<and> unat (kt_ticks_since_scheduled (aged k)) = unat (kt_ticks_since_scheduled k) + 500 \<and>
        unat (kt_ticks_since_scheduled (aged k)) < 5000"
    then have "unat (kt_ticks_since_scheduled (aged k)) div 500 = Suc (unat (kt_ticks_since_scheduled k) div 500)"
      "unat (kt_ticks_since_scheduled (aged k)) div 500 \<le> 9" by auto
    then show ?thesis using a False pos by (simp add: aging_distance_def)
  qed
qed (use aged_Ready [OF assms] in \<open>simp add: aging_distance_def\<close>)

fun aging_passes :: "nat \<Rightarrow> nat \<Rightarrow> Kthread option list \<times> Cpus \<Rightarrow> Kthread option list \<times> Cpus" where
  "aging_passes me 0 s = s"
| "aging_passes me (Suc n) s = aging_passes me n (apply_aging me (fst s) (snd s))"

lemma aging_passes_thread:
  "fst s ! i = Some k \<Longrightarrow> i < length (fst s) \<Longrightarrow> fst (aging_passes me n s) ! i = Some ((aged ^^ n) k)"
proof (induction n arbitrary: s k)
  case (Suc n)
  have "fst (apply_aging me (fst s) (snd s)) = map (map_option aged) (fst s)"
    by (simp add: apply_aging_def for_kthreads_threads [of "aging_body me", OF aging_body_thread])
  then show ?case using Suc.IH [of "apply_aging me (fst s) (snd s)" "aged k"] Suc.prems
    by (simp add: funpow_swap1)
qed simp

lemma aged_pow:
  "kt_state k = Ready \<Longrightarrow> \<not> kt_is_idle k \<Longrightarrow> aging_distance ((aged ^^ n) k) \<le> aging_distance k - n"
proof (induction n arbitrary: k)
  case (Suc n)
  then have "aging_distance ((aged ^^ n) (aged k)) \<le> aging_distance (aged k) - n"
    using aged_Ready(1,2) [OF Suc.prems] by blast
  then show ?case using aged_distance [OF Suc.prems] by (simp add: funpow_swap1)
qed simp

text \<open>
  C11. No starvation at low priority: a thread that stays Ready while 10 times its priority level many
  aging passes are made (30 for the lowest of the four levels) ends up at the highest priority.
\<close>

theorem aging_reaches_high:
  assumes "ts ! i = Some k" and "i < length ts" and "kt_state k = Ready" and "\<not> kt_is_idle k"
    and "10 * unat (kt_priority k) \<le> n"
  shows "\<exists>k'. fst (aging_passes me n (ts, c)) ! i = Some k' \<and> kt_tid k' = kt_tid k \<and> kt_priority k' = PRIORITY_HIGH"
proof -
  have tid: "kt_tid ((aged ^^ n) k) = kt_tid k" for n
    by (induction n) (simp_all add: aging.same_tid aged_def)
  have "aging_distance k \<le> n" using assms(5) by (auto simp: aging_distance_def)
  then have "aging_distance ((aged ^^ n) k) = 0" using aged_pow [OF assms(3,4), of n] by simp
  then have "kt_priority ((aged ^^ n) k) = 0"
    using unat_gt_0 [of "kt_priority ((aged ^^ n) k)"] by (auto simp: aging_distance_def split: if_splits)
  then show ?thesis using aging_passes_thread [of "(ts, c)" i k me n] assms(1,2) tid by simp
qed

theorem aging_reaches_high_witness:
  "sample_threads ! 4 = Some (sample_thread 4 Ready 3 0) \<and>
    (\<exists>k'. fst (aging_passes 0 30 (sample_threads, cpus_boot 2)) ! 4 = Some k' \<and> kt_tid k' = 4 \<and> kt_priority k' = 0)"
  using aging_reaches_high [of sample_threads 4 "sample_thread 4 Ready 3 0" 30 0 "cpus_boot 2"]
  by (simp add: sample_threads_def sample_thread_def)

end
