(* ===== verification/WorkSteal.thy ===== *)
theory WorkSteal
  imports Threads
begin

text \<open>
  Work stealing between CPUs (scheduler/smp.rs): the loop that moves the threads of a victim's run
  queue to the thief's, with its rollback when the thief's level is full. It is shown to return, to
  keep the queues consistent, and to neither lose nor duplicate a queued thread.
\<close>

section \<open>Work stealing\<close>

definition victim_count :: "nat \<Rightarrow> Cpus \<Rightarrow> nat" where
  "victim_count cpu c = (case kprcb_page cpu c of None \<Rightarrow> 0 | Some kp \<Rightarrow> unat (rq_count (kp_run_queue kp)))"

lemma peek_pop:
  assumes "peek_highest rq = Some t"
  shows "\<exists>rq'. rq_pop rq = (Some t, rq') \<and> unat (rq_count rq') < unat (rq_count rq)"
proof -
  have "rq_count rq \<noteq> 0" using assms by (auto simp: peek_highest_def split: if_splits)
  then have "unat (rq_count rq - 1) < unat (rq_count rq)" using unat_pred_pos [of "rq_count rq"] by simp
  with assms show ?thesis
    by (auto simp: peek_highest_def rq_pop_def psq_peek_def psq_pop_def Let_def split: if_splits)
qed

text \<open>
  One turn of the loop of \<open>steal_and_migrate\<close>: it leaves the loop (with the state of a rolled-back
  transfer where there was one) or continues with the new state and the number of threads moved. The
  tid that the pop returns is the one that was peeked (\<open>peek_pop\<close>), as the source asserts.
\<close>

datatype steal_result = StealBreak "Kthread option list" Cpus | StealNext "Kthread option list" Cpus nat

definition steal_turn ::
  "nat \<Rightarrow> nat \<Rightarrow> CpuRunQueue \<Rightarrow> CpuRunQueue \<Rightarrow> Kthread option list \<Rightarrow> Cpus \<Rightarrow> steal_result" where
  "steal_turn victim thief vrq trq ts c =
    (if unat (rq_count trq) \<ge> RUNQUEUE_PRIO_CAP * 4 then StealBreak ts c
     else case peek_highest vrq of
       None \<Rightarrow> StealBreak ts c
     | Some tid \<Rightarrow>
         if tid = BOOT_TID \<or> (case find_kthread tid ts of None \<Rightarrow> True | Some k \<Rightarrow> kt_state k \<noteq> Ready)
         then StealNext ts (snd (with_runqueue victim rq_pop c)) 0
         else if candidate_owned_elsewhere tid thief c then StealBreak ts c
         else let c1 = snd (with_runqueue victim rq_pop c);
                  prio = (case find_kthread tid ts of None \<Rightarrow> PRIORITY_NORMAL | Some k \<Rightarrow> kt_priority k);
                  old_cpu = map_option kt_cpu (find_kthread tid ts);
                  ts1 = modify_kthread tid (\<lambda>k. k \<lparr> kt_cpu := of_nat thief \<rparr>) ts;
                  (ok, c2) = with_runqueue thief (\<lambda>rq. push_priority rq tid prio) c1
              in if ok then StealNext ts1 c2 1
                 else StealBreak
                   (case old_cpu of None \<Rightarrow> ts1 | Some old \<Rightarrow> modify_kthread tid (\<lambda>k. k \<lparr> kt_cpu := old \<rparr>) ts1)
                   (snd (with_runqueue victim (\<lambda>rq. push_priority rq tid prio) c2)))"


text \<open>
  The loop. Stealing from oneself would never end, which \<open>None\<close> stands for; \<open>steal_loop_returns\<close> shows
  that it returns for two different CPUs.
\<close>

partial_function (option) steal_loop ::
  "nat \<Rightarrow> nat \<Rightarrow> Kthread option list \<Rightarrow> Cpus \<Rightarrow> nat \<Rightarrow> (nat \<times> Kthread option list \<times> Cpus) option" where
  "steal_loop victim thief ts c stolen =
    (case kprcb_page victim c of None \<Rightarrow> Some (stolen, ts, c) | Some vp \<Rightarrow>
     (case kprcb_page thief c of None \<Rightarrow> Some (stolen, ts, c) | Some tp \<Rightarrow>
      (if rq_count (kp_run_queue vp) = 0 then Some (stolen, ts, c)
       else case steal_turn victim thief (kp_run_queue vp) (kp_run_queue tp) ts c of
              StealBreak ts' c' \<Rightarrow> Some (stolen, ts', c')
            | StealNext ts' c' n \<Rightarrow> steal_loop victim thief ts' c' (stolen + n))))"

definition steal_and_migrate ::
  "nat \<Rightarrow> nat \<Rightarrow> Kthread option list \<Rightarrow> Cpus \<Rightarrow> (nat \<times> Kthread option list \<times> Cpus) option" where
  "steal_and_migrate victim thief ts c =
    (if kprcb_page victim c = None \<or> kprcb_page thief c = None then Some (0, ts, c)
     else steal_loop victim thief ts c 0)"

fun steal_victims ::
  "nat \<Rightarrow> nat list \<Rightarrow> Kthread option list \<Rightarrow> Cpus \<Rightarrow> (u32 option \<times> Kthread option list \<times> Cpus) option" where
  "steal_victims me [] ts c = Some (None, ts, c)"
| "steal_victims me (victim # vs) ts c =
    (if victim = me then steal_victims me vs ts c
     else case steal_and_migrate victim me ts c of
            None \<Rightarrow> None
          | Some (stolen, ts', c') \<Rightarrow>
              if stolen > 0 then (let (r, c'') = try_dequeue_local me c' in Some (r, ts', c''))
              else steal_victims me vs ts' c')"

definition try_work_steal ::
  "nat \<Rightarrow> Kthread option list \<Rightarrow> Cpus \<Rightarrow> (u32 option \<times> Kthread option list \<times> Cpus) option" where
  "try_work_steal me ts c = steal_victims me [0..<MAX_CPUS] ts c"


section \<open>Queue entries under a push\<close>

lemma push_runqueue_spec:
  assumes "cpus_wf c" and "kprcb_page cpu c = Some kp" and fresh: "\<And>p. \<not> queued c cpu t p"
    and "with_runqueue cpu (\<lambda>rq. push_priority rq t prio) c = (ok, c')"
  shows "cpus_wf c' \<and> same_current c c' \<and> ok = (length (queue_levels cpu c ! min (unat prio) 3) < 64) \<and>
    (\<forall>i u p. queued c' i u p \<longleftrightarrow> queued c i u p \<or> (ok \<and> i = cpu \<and> u = t \<and> p = min (unat prio) 3)) \<and>
    (\<forall>i. i \<noteq> cpu \<longrightarrow> queue_levels i c' = queue_levels i c)"
proof -
  let ?rq = "kp_run_queue kp" and ?p = "min (unat prio) 3"
  note q = page_queue [OF assms(1,2)]
  obtain ok' rq where rq: "push_priority ?rq t prio = (ok', rq)" by fastforce
  have ls: "rq_inv rq" "levels_push (rq_abs ?rq) t ?p = (ok', rq_abs rq)"
    using push_priority_refines [OF q(1), of t prio] rq by auto
  have "\<forall>l\<in>set (rq_abs ?rq). t \<notin> set l"
    using fresh q(3,4) by (simp add: queued_def all_set_conv_all_nth)
  then have "levels_distinct (rq_abs rq)" using levels_distinct_push [OF q(2)] ls(2) by (metis snd_conv)
  with with_runqueue_levels [OF assms(1,2), of "\<lambda>rq. push_priority rq t prio"] rq ls(1) assms(4)
  have c': "ok' = ok" "cpus_wf c'" "same_current c c'"
      "\<forall>i. queue_levels i c' = (if i = cpu then rq_abs rq else queue_levels i c)" by auto
  have ok: "ok = (length (rq_abs ?rq ! ?p) < 64)" using ls(2) c'(1) by (auto simp: levels_push_def split: if_splits)
  have "u \<in> set (rq_abs rq ! p) \<longleftrightarrow> u \<in> set (rq_abs ?rq ! p) \<or> (u = t \<and> p = ?p \<and> ok)" if "p < 4" for u p
    using levels_push_mem [of p "rq_abs ?rq" ?p u t] that q(4) ls(2) ok by (simp del: rq_abs_length)
  then show ?thesis using c' q(3) ok by (auto simp: queued_def)
qed

definition in_some_queue :: "Cpus \<Rightarrow> u32 \<Rightarrow> nat \<Rightarrow> bool" where
  "in_some_queue c t p \<longleftrightarrow> (\<exists>i. queued c i t p)"

text \<open>Threads that differ in their CPU only, the idle threads not even in that.\<close>

definition homeless :: "Kthread \<Rightarrow> Kthread" where
  "homeless k = (if kt_is_idle k then k else k \<lparr> kt_cpu := 0 \<rparr>)"

definition migrated :: "Kthread option list \<Rightarrow> Kthread option list \<Rightarrow> bool" where
  "migrated ts ts' \<longleftrightarrow> map (map_option homeless) ts' = map (map_option homeless) ts"

definition steal_ok :: "Kthread option list \<Rightarrow> Cpus \<Rightarrow> Kthread option list \<Rightarrow> Cpus \<Rightarrow> bool" where
  "steal_ok ts c ts' c' \<longleftrightarrow> queues_consistent ts' c' \<and> same_current c c' \<and> migrated ts ts' \<and>
     (\<forall>t p. in_some_queue c' t p = in_some_queue c t p)"

lemma steal_ok_refl: "queues_consistent ts c \<Longrightarrow> steal_ok ts c ts c"
  by (simp add: steal_ok_def migrated_def)

lemma steal_ok_trans: "steal_ok ts c ts1 c1 \<Longrightarrow> steal_ok ts1 c1 ts2 c2 \<Longrightarrow> steal_ok ts c ts2 c2"
  by (auto simp: steal_ok_def migrated_def intro: same_current_trans)

lemma migrated_modify:
  assumes "find_kthread t ts = Some k" and "\<not> kt_is_idle k"
  shows "migrated ts (modify_kthread t (\<lambda>k. k \<lparr> kt_cpu := x \<rparr>) ts)"
proof -
  obtain i where "i < length ts" "find_slot t ts = Some i" "ts ! i = Some k"
    using find_kthread_SomeD(3) [OF assms(1)] by blast
  then show ?thesis using assms(2)
    by (auto simp: migrated_def modify_kthread_def homeless_def intro!: nth_equalityI simp: nth_list_update)
qed

lemma modify_cpu_back:
  assumes "find_kthread t ts = Some k"
  shows "modify_kthread t (\<lambda>k'. k' \<lparr> kt_cpu := kt_cpu k \<rparr>) (modify_kthread t (\<lambda>k. k \<lparr> kt_cpu := x \<rparr>) ts) = ts"
proof -
  obtain i where i: "i < length ts" "find_slot t ts = Some i" "ts ! i = Some k"
    using find_kthread_SomeD(3) [OF assms] by blast
  have "find_slot t (ts[i := Some (k \<lparr> kt_cpu := x \<rparr>)]) = Some i"
    using i position_SomeD [of "has_tid t" ts i]
    by (auto simp: find_slot_def position_Some_iff nth_list_update has_tid_def)
  moreover have "ts[i := Some k] = ts" using i(3) list_update_id [of ts i] by simp
  ultimately show ?thesis using i by (simp add: modify_kthread_def)
qed


section \<open>One turn of the loop\<close>

lemma same_current_None: "same_current c c' \<Longrightarrow> kprcb_page i c' = None \<longleftrightarrow> kprcb_page i c = None"
  unfolding same_current_def by (metis option.map_disc_iff)

lemma victim_count_levels: "cpus_wf c \<Longrightarrow> victim_count v c = sum_list (map length (queue_levels v c))"
  by (auto simp: victim_count_def queue_levels_def cpus_wf rq_inv split: option.splits)

lemma victim_pop:
  assumes "cpus_wf c" and "kprcb_page v c = Some vp" and "peek_highest (kp_run_queue vp) = Some t"
  obtains c1 where "with_runqueue v rq_pop c = (Some t, c1)" and "victim_count v c1 < victim_count v c"
    and "\<forall>p. queued c v t p \<longrightarrow> length (queue_levels v c1 ! p) < 64"
proof -
  obtain rq where rq: "rq_pop (kp_run_queue vp) = (Some t, rq)" "unat (rq_count rq) < unat (rq_count (kp_run_queue vp))"
    using peek_pop [OF assms(3)] by blast
  note q = page_queue [OF assms(1,2)]
  have ls: "rq_inv rq" "levels_pop (rq_abs (kp_run_queue vp)) = (Some t, rq_abs rq)"
    using rq_pop_refines [OF q(1)] rq(1) by auto
  have dist: "levels_distinct (rq_abs rq)" using levels_distinct_pop [OF q(2)] ls(2) by simp
  obtain c1 where c1: "with_runqueue v rq_pop c = (Some t, c1)" "kprcb_page v c1 = Some (vp \<lparr> kp_run_queue := rq \<rparr>)"
      "\<forall>i. queue_levels i c1 = (if i = v then rq_abs rq else queue_levels i c)"
    using with_runqueue_levels [where f = rq_pop, OF assms(1,2) rq(1) ls(1) dist] by blast
  have "length (rq_abs rq ! p) < 64" if "queued c v t p" for p
  proof -
    have p: "p < 4" "t \<in> set (rq_abs (kp_run_queue vp) ! p)" using that q(3) by (auto simp: queued_def)
    then have "set (rq_abs rq ! p) \<subset> set (rq_abs (kp_run_queue vp) ! p)"
      using levels_pop_mem(1) [OF q(2) _ ls(2), of p] q(4) by auto
    then have "card (set (rq_abs rq ! p)) < card (set (rq_abs (kp_run_queue vp) ! p))" by (intro psubset_card_mono) auto
    also have "\<dots> \<le> 64" using card_length rq_level_bound [OF q(1) p(1)] le_trans by blast
    finally show ?thesis using distinct_card levels_distinctD(2) [OF dist, of p] p(1) ls(1) by (simp add: rq_inv distinct_card)
  qed
  then show ?thesis using that [of c1] c1 rq(2) assms(2) by (simp add: victim_count_def)
qed

lemma steal_candidate:
  assumes "queues_consistent ts c" and "queued c v t p"
  obtains k where "find_kthread t ts = Some k" and "kt_state k = Ready" and "t \<noteq> BOOT_TID" and "\<not> kt_is_idle k"
    and "unat (kt_cpu k) = v" and "p = min (unat (kt_priority k)) 3" and "at_home k c" and "kt_tid k = t"
proof -
  obtain k where k: "Some k \<in> set ts" "kt_tid k = t" "queue_home k v p"
    using assms unfolding queues_consistent by blast
  then have "find_kthread t ts = Some k" "at_home k c"
    using find_kthread_iff [of ts t k] assms(1) by (auto simp: queues_consistent_iff)
  then show ?thesis using that k by (simp add: queue_home_def)
qed

lemma steal_turn_ok:
  assumes con: "queues_consistent ts c" and v: "kprcb_page v c = Some vp" and th: "kprcb_page th c = Some tp" and ne: "v \<noteq> th"
  shows "case steal_turn v th (kp_run_queue vp) (kp_run_queue tp) ts c of
      StealBreak ts' c' \<Rightarrow> steal_ok ts c ts' c'
    | StealNext ts' c' n \<Rightarrow> steal_ok ts c ts' c' \<and> victim_count v c' < victim_count v c"
proof (cases "peek_highest (kp_run_queue vp)")
  case None
  then show ?thesis using con by (simp add: steal_turn_def steal_ok_refl)
next
  case (Some t)
  have wf: "cpus_wf c" using con by (simp add: queues_consistent)
  obtain c1 where c1: "with_runqueue v rq_pop c = (Some t, c1)" "victim_count v c1 < victim_count v c"
      "\<forall>p. queued c v t p \<longrightarrow> length (queue_levels v c1 ! p) < 64"
    using victim_pop [OF wf v Some] .
  note deq = dequeue_spec [OF wf c1(1)]
  obtain p where p: "queued c v t p" using deq(4) by blast
  obtain k where k: "find_kthread t ts = Some k" "kt_state k = Ready" "t \<noteq> BOOT_TID" "\<not> kt_is_idle k" "unat (kt_cpu k) = v"
      "p = min (unat (kt_priority k)) 3" "at_home k c" "kt_tid k = t"
    using steal_candidate [OF con p] .
  have only: "i = v \<and> q = p" if "queued c i t q" for i q using that k by (auto simp: at_home_def queue_home_def)
  have q1: "queued c1 i u q \<longleftrightarrow> queued c i u q \<and> \<not> (i = v \<and> u = t)" for i u q
    using deq(3,5,6) by blast
  have "kprcb_page th c1 \<noteq> None" "kprcb_page v c1 \<noteq> None" using same_current_None [OF deq(2)] v th by simp_all
  then obtain tp1 vp1 where pages: "kprcb_page th c1 = Some tp1" "kprcb_page v c1 = Some vp1" by auto
  obtain ok c2 where push: "with_runqueue th (\<lambda>rq. push_priority rq t (kt_priority k)) c1 = (ok, c2)" by fastforce
  have fresh: "\<not> queued c1 i t q" for i q using q1 only by blast
  note ps = push_runqueue_spec [OF deq(1) pages(1) fresh push, folded k(6)]
  have q2: "queued c2 i u q \<longleftrightarrow> queued c1 i u q \<or> (ok \<and> i = th \<and> u = t \<and> q = p)" for i u q using ps by blast
  let ?ts1 = "modify_kthread t (\<lambda>k. k \<lparr> kt_cpu := of_nat th \<rparr>) ts"
  obtain ok' c3 where bk: "with_runqueue v (\<lambda>rq. push_priority rq t (kt_priority k)) c2 = (ok', c3)" by fastforce
  have moved: "steal_ok ts c ?ts1 c2" "victim_count v c2 < victim_count v c" if "ok"
  proof -
    have "unat (of_nat th :: u32) = th" using kprcb_page_bound [OF th] by (simp add: MAX_CPUS_def unat_of_nat)
    then have "at_home (k \<lparr> kt_cpu := of_nat th \<rparr>) c2"
      using ps fresh k that by (auto simp: at_home_def queue_home_def)
    then have "queues_consistent ?ts1 c2"
      using ps q1 by (intro consistent_modify [OF con k(1)]) auto
    moreover have "in_some_queue c2 u q = in_some_queue c u q" for u q
    proof (cases "u = t")
      case True
      have "in_some_queue c t q \<longleftrightarrow> q = p" using only p unfolding in_some_queue_def by blast
      moreover have "in_some_queue c2 t q \<longleftrightarrow> q = p" using that fresh by (simp add: in_some_queue_def q2)
      ultimately show ?thesis using True by simp
    qed (simp add: in_some_queue_def q1 q2)
    ultimately show "steal_ok ts c ?ts1 c2"
      using same_current_trans [OF deq(2)] ps migrated_modify [OF k(1,4)] by (auto simp: steal_ok_def)
    show "victim_count v c2 < victim_count v c"
      using c1(2) ps ne victim_count_levels [of c1 v] victim_count_levels [of c2 v] deq(1) by simp
  qed
  have rolled: "steal_ok ts c ts c3" if "\<not> ok"
  proof -
    have "kprcb_page v c2 \<noteq> None" using same_current_None [of c1 c2 v] ps pages(2) by simp
    then obtain vp2 where v2: "kprcb_page v c2 = Some vp2" by auto
    have fresh2: "\<not> queued c2 v t q" for q using fresh that by (simp add: q2)
    note ps2 = push_runqueue_spec [OF conjunct1 [OF ps] v2 fresh2 bk, folded k(6)]
    have "length (queue_levels v c2 ! p) < 64" using c1(3) p ps ne by simp
    then have "queued c3 i u q \<longleftrightarrow> queued c2 i u q \<or> (i = v \<and> u = t \<and> q = p)" for i u q using ps2 by simp
    then have "queued c3 i u q = queued c i u q" for i u q using only [of i q] p that unfolding q1 q2 by blast
    then show ?thesis using consistent_shrink [OF con, of c3] ps ps2 same_current_trans [OF same_current_trans [OF deq(2)]]
      by (auto simp: steal_ok_def migrated_def in_some_queue_def)
  qed
  show ?thesis using Some k push bk moved rolled c1(1) modify_cpu_back [OF k(1)] con
    by (auto simp: steal_turn_def steal_ok_refl Let_def)
qed


section \<open>The loop and the search for a victim\<close>

lemma steal_loop_returns:
  assumes "queues_consistent ts c" and "v \<noteq> th"
  shows "\<exists>n ts' c'. steal_loop v th ts c m = Some (n, ts', c') \<and> steal_ok ts c ts' c'"
  using assms(1)
proof (induction "victim_count v c" arbitrary: ts c m rule: less_induct)
  case less
  show ?case
  proof (cases "kprcb_page v c = None \<or> kprcb_page th c = None")
    case True
    then show ?thesis using steal_ok_refl [OF less.prems] by (auto simp: steal_loop.simps [of v th ts c] split: option.splits)
  next
    case False
    then obtain vp tp where pages: "kprcb_page v c = Some vp" "kprcb_page th c = Some tp" by auto
    note turn = steal_turn_ok [OF less.prems pages assms(2)]
    show ?thesis
    proof (cases "rq_count (kp_run_queue vp) = 0")
      case True
      then show ?thesis using steal_ok_refl [OF less.prems] pages by (auto simp: steal_loop.simps [of v th ts c])
    next
      case False
      show ?thesis
      proof (cases "steal_turn v th (kp_run_queue vp) (kp_run_queue tp) ts c")
        case (StealBreak ts' c')
        then show ?thesis using turn False pages by (simp add: steal_loop.simps [of v th ts c])
      next
        case (StealNext ts1 c1 n)
        then have ok: "steal_ok ts c ts1 c1" and lt: "victim_count v c1 < victim_count v c" using turn by auto
        have "queues_consistent ts1 c1" using ok by (simp add: steal_ok_def)
        then obtain n' ts' c' where "steal_loop v th ts1 c1 (m + n) = Some (n', ts', c')" "steal_ok ts1 c1 ts' c'"
          using less.hyps [OF lt] by blast
        then show ?thesis using StealNext False pages steal_ok_trans [OF ok] by (simp add: steal_loop.simps [of v th ts c])
      qed
    qed
  qed
qed

lemma steal_and_migrate_returns:
  assumes "queues_consistent ts c" and "v \<noteq> th"
  shows "\<exists>n ts' c'. steal_and_migrate v th ts c = Some (n, ts', c') \<and> steal_ok ts c ts' c'"
  using steal_loop_returns [OF assms] steal_ok_refl [OF assms(1)] by (auto simp: steal_and_migrate_def)

text \<open>A search either moves threads about, or also takes the first one of the own queue.\<close>

lemma steal_victims_returns:
  assumes "queues_consistent ts c"
  shows "\<exists>r ts' c'. steal_victims me vs ts c = Some (r, ts', c') \<and>
    (\<exists>c1. steal_ok ts c ts' c1 \<and> ((r = None \<and> c' = c1) \<or> with_runqueue me rq_pop c1 = (r, c')))"
  using assms
proof (induction vs arbitrary: ts c)
  case Nil
  then show ?case using steal_ok_refl by auto
next
  case (Cons v vs)
  show ?case
  proof (cases "v = me")
    case True
    then show ?thesis using Cons by simp
  next
    case False
    obtain n ts1 c1 where st: "steal_and_migrate v me ts c = Some (n, ts1, c1)" "steal_ok ts c ts1 c1"
      using steal_and_migrate_returns [OF Cons.prems False] by blast
    show ?thesis
    proof (cases "n > 0")
      case True
      then show ?thesis using st False by (cases "try_dequeue_local me c1") (auto simp: try_dequeue_local_def)
    next
      case n: False
      have "queues_consistent ts1 c1" using st(2) by (simp add: steal_ok_def)
      then obtain r ts' c' c2 where ih: "steal_victims me vs ts1 c1 = Some (r, ts', c')" "steal_ok ts1 c1 ts' c2"
          "(r = None \<and> c' = c2) \<or> with_runqueue me rq_pop c2 = (r, c')"
        using Cons.IH by blast
      have "steal_ok ts c ts' c2" using steal_ok_trans [OF st(2) ih(2)] .
      moreover have "steal_victims me (v # vs) ts c = Some (r, ts', c')" using st False n ih(1) by simp
      ultimately show ?thesis using ih(3) by blast
    qed
  qed
qed

text \<open>
  C9. Stealing work from another CPU always returns. It keeps the run queues consistent, changes no
  thread except for the CPU it belongs to (of an idle thread not even that), leaves every CPU's current thread alone, and neither loses
  nor duplicates a queued thread: a thread is queued afterwards exactly when it was queued before, at
  the same priority level, even when the thief's queue is full and the last transfer is rolled back.
\<close>

theorem steal_and_migrate_conserves:
  assumes "queues_consistent ts c" and "victim \<noteq> thief"
  shows "\<exists>n ts' c'. steal_and_migrate victim thief ts c = Some (n, ts', c') \<and> queues_consistent ts' c' \<and>
    same_current c c' \<and> migrated ts ts' \<and> (\<forall>t p. (\<exists>cpu. queued c' cpu t p) \<longleftrightarrow> (\<exists>cpu. queued c cpu t p))"
  using steal_and_migrate_returns [OF assms] by (auto simp: steal_ok_def in_some_queue_def)

text \<open>Thread 3 is activated, which queues it on CPU 1, and CPU 0 steals it.\<close>

definition sample_queued :: "Kthread option list \<times> Cpus" where
  "sample_queued = snd (activate_suspended_process 0 7 sample_threads (cpus_boot 2))"

theorem steal_and_migrate_conserves_witness:
  "queues_consistent (fst sample_queued) (snd sample_queued) \<and> queued (snd sample_queued) 1 3 2 \<and>
    (\<exists>n ts' c' cpu. steal_and_migrate 1 0 (fst sample_queued) (snd sample_queued) = Some (n, ts', c') \<and> queued c' cpu 3 2)"
proof -
  have cons: "queues_consistent (fst sample_queued) (snd sample_queued)"
    unfolding sample_queued_def activate_suspended_process_def
    using activate.for_kthreads_consistent [OF sample_consistent] by simp
  have "queued (snd sample_queued) 1 3 2" by code_simp
  then show ?thesis using steal_and_migrate_conserves [OF cons, of 1 0] cons by fastforce
qed

end
