(* ===== verification/OrdMap.thy ===== *)
theory OrdMap
  imports Prelude "HOL-Library.List_Lexorder"
begin

text \<open>
  The part of \<open>alloc::collections::BTreeMap\<close> the kernel uses, as an association list in ascending key
  order: \<open>get\<close> is \<open>map_of\<close>, and iteration is the list itself. Byte-array keys are ordered
  lexicographically, as Rust orders arrays.
\<close>

fun bt_insert :: "'k::linorder \<Rightarrow> 'v \<Rightarrow> ('k \<times> 'v) list \<Rightarrow> ('k \<times> 'v) list" where
  "bt_insert k v [] = [(k, v)]"
| "bt_insert k v ((k', v') # m) =
    (if k < k' then (k, v) # (k', v') # m else if k = k' then (k, v) # m else (k', v') # bt_insert k v m)"

definition bt_remove :: "'k \<Rightarrow> ('k \<times> 'v) list \<Rightarrow> ('k \<times> 'v) list" where
  "bt_remove k m = filter (\<lambda>e. fst e \<noteq> k) m"

definition bt_contains :: "'k \<Rightarrow> ('k \<times> 'v) list \<Rightarrow> bool" where
  "bt_contains k m = (map_of m k \<noteq> None)"

definition bt_sorted :: "('k::linorder \<times> 'v) list \<Rightarrow> bool" where
  "bt_sorted m \<longleftrightarrow> sorted (map fst m) \<and> distinct (map fst m)"

lemma map_of_bt_insert [simp]: "map_of (bt_insert k v m) = (map_of m)(k \<mapsto> v)"
  by (induction k v m rule: bt_insert.induct) auto

lemma map_of_bt_remove [simp]: "map_of (bt_remove k m) = (map_of m)(k := None)"
  by (induction m) (auto simp: bt_remove_def)

lemma set_bt_insert: "set (map fst (bt_insert k v m)) = insert k (set (map fst m))"
  by (induction k v m rule: bt_insert.induct) auto

lemma bt_sorted_Cons: "bt_sorted ((k, v) # m) \<longleftrightarrow> (\<forall>x\<in>set (map fst m). k < x) \<and> bt_sorted m"
  by (auto simp: bt_sorted_def less_le)

lemma bt_sorted_insert: "bt_sorted m \<Longrightarrow> bt_sorted (bt_insert k v m)"
proof (induction k v m rule: bt_insert.induct)
  case (1 k v)
  then show ?case by (simp add: bt_sorted_def)
next
  case (2 k v k' v' m)
  consider "k < k'" | "k = k'" | "k' < k" by force
  then show ?case
  proof cases
    case 3
    then have "bt_sorted (bt_insert k v m)" using 2 by (simp add: bt_sorted_Cons)
    then show ?thesis using 3 2(2) set_bt_insert [of k v m] by (auto simp: bt_sorted_Cons)
  qed (use 2 in \<open>auto simp: bt_sorted_Cons\<close>)
qed

lemma bt_sorted_remove: "bt_sorted m \<Longrightarrow> bt_sorted (bt_remove k m)"
proof (induction m)
  case (Cons e m)
  then show ?case by (auto simp: bt_sorted_def bt_remove_def)
qed (simp add: bt_sorted_def bt_remove_def)

end
