(* ===== verification/Namespace.thy ===== *)
theory Namespace
  imports Interfaces Bytes OrdMap "HOL-Library.Sublist"
begin

text \<open>
  The object namespace (neodos-kernel/src/object/namespace): path normalisation and name keys
  (\<open>path.rs\<close>), the directory tree with its three sorted maps (\<open>types.rs\<close>), lookups with symbolic links
  (\<open>query.rs\<close>) and the mutations (\<open>mutate.rs\<close>, and the checked entry points of \<open>mod.rs\<close>).

  A string is the list of its UTF-8 bytes. The loops that walk the parent components with \<open>get\<close> or
  \<open>get_mut\<close> are \<open>dir_at\<close> and \<open>dir_update\<close>; the branches for a single component repeat the general
  ones with no parent and are the same walk. The creator field of a directory is never used.
\<close>

section \<open>Paths and keys\<close>

abbreviation (input) MAX_NAME_LEN :: nat where "MAX_NAME_LEN \<equiv> 24"
abbreviation (input) MAX_PATH_LEN :: nat where "MAX_PATH_LEN \<equiv> 255"
abbreviation (input) MAX_SYMLINK_HOPS :: nat where "MAX_SYMLINK_HOPS \<equiv> 10"

datatype ns_error = OB_INVALID_PATH | OB_PATH_TOO_LONG | OB_NAME_TOO_LONG | OB_NOT_FOUND | OB_ALREADY_EXISTS
  | OB_SAME_NAME | OB_SYMLINK_LOOP | OB_PROTECTED | OB_SYMLINK_INVALID_TARGET | OB_INVALID_RENAME_ROOT

type_synonym key = bytes

definition SEP :: u8 where "SEP = 0x5C"

definition name_to_key :: "bytes \<Rightarrow> key" where
  "name_to_key name = (let len = min (length name) (MAX_NAME_LEN - 1)
     in map to_ascii_lower (take len name) @ replicate (MAX_NAME_LEN - len) 0)"

definition key_to_str :: "key \<Rightarrow> bytes" where
  "key_to_str key = (let s = takeWhile (\<lambda>b. b \<noteq> 0) key in if utf8_valid s then s else ascii ''<?>'')"

text \<open>\<open>str::split\<close> on one byte: there is always at least one part.\<close>

fun split_on :: "u8 \<Rightarrow> bytes \<Rightarrow> bytes list" where
  "split_on c [] = [[]]"
| "split_on c (x # xs) =
    (if x = c then [] # split_on c xs
     else case split_on c xs of [] \<Rightarrow> [[x]] | p # ps \<Rightarrow> (x # p) # ps)"

definition trim_end :: "u8 \<Rightarrow> bytes \<Rightarrow> bytes" where
  "trim_end c s = rev (dropWhile (\<lambda>b. b = c) (rev s))"

definition starts_with :: "u8 \<Rightarrow> bytes \<Rightarrow> bool" where
  "starts_with c s = (s \<noteq> [] \<and> hd s = c)"

text \<open>The body of the loop over the parts: empty and dot parts are skipped, dot-dot removes one.\<close>

definition norm_part :: "bytes list \<Rightarrow> bytes \<Rightarrow> bytes list" where
  "norm_part out part =
    (if part = [] \<or> part = ascii ''.'' then out
     else if part = ascii ''..'' then butlast out else out @ [part])"

definition join_parts :: "bool \<Rightarrow> bytes list \<Rightarrow> bytes" where
  "join_parts has_drive ps =
    concat (map (\<lambda>(i, p). (if i > 0 \<or> has_drive then SEP # p else p)) (enumerate 0 ps))"

definition normalize_path :: "bytes \<Rightarrow> bytes" where
  "normalize_path path =
    (if path = [] then [SEP]
     else let has_drive = length path \<ge> 2 \<and> path ! 1 = 0x3A;
              path_body = (if has_drive then drop 2 path else path);
              trimmed = dropWhile (\<lambda>b. b = SEP) path_body
          in if trimmed = [] then [SEP]
             else let out_parts = foldl norm_part [] (split_on SEP trimmed)
                  in [SEP] @ (if has_drive then [to_ascii_upper (path ! 0), 0x3A] else []) @ join_parts has_drive out_parts)"

fun check_components :: "bytes list \<Rightarrow> ns_error option" where
  "check_components [] = None"
| "check_components (c # cs) =
    (if c = [] then Some OB_INVALID_PATH
     else if length c > MAX_NAME_LEN then Some OB_NAME_TOO_LONG else check_components cs)"

definition parse_path :: "bytes \<Rightarrow> (bytes list, ns_error) result" where
  "parse_path path =
    (if \<not> starts_with SEP path then Err OB_INVALID_PATH
     else if length path > MAX_PATH_LEN then Err OB_PATH_TOO_LONG
     else let trimmed = trim_end SEP path
          in if length trimmed \<le> 1 then Ok []
             else let components = split_on SEP (drop 1 trimmed)
                  in case check_components components of Some e \<Rightarrow> Err e | None \<Rightarrow> Ok components)"

section \<open>Directories\<close>

record SymlinkEntry =
  sl_name :: key
  sl_target :: bytes

datatype DirectoryObject = Dir
  (dir_name: key)
  (dir_children: "(key \<times> u64) list")
  (dir_subs: "(key \<times> DirectoryObject) list")
  (dir_links: "(key \<times> SymlinkEntry) list")
  (dir_protected: bool)

definition symlink_new :: "bytes \<Rightarrow> bytes \<Rightarrow> SymlinkEntry" where
  "symlink_new name target = (let tlen = min (length target) 254
     in \<lparr> sl_name = name_to_key name, sl_target = take tlen target @ replicate (255 - tlen) 0 \<rparr>)"

definition target_str :: "SymlinkEntry \<Rightarrow> bytes" where
  "target_str e = (let len = (case position (\<lambda>b. b = 0) (sl_target e) of None \<Rightarrow> 254 | Some n \<Rightarrow> n);
                       s = take len (sl_target e)
     in if utf8_valid s then s else ascii ''<?>'')"

definition dir_new :: "bytes \<Rightarrow> DirectoryObject" where
  "dir_new name = Dir (name_to_key name) [] [] [] False"

definition ns_new :: DirectoryObject where
  "ns_new = dir_new [SEP]"

fun dir_at :: "DirectoryObject \<Rightarrow> key list \<Rightarrow> DirectoryObject option" where
  "dir_at d [] = Some d"
| "dir_at d (k # ks) = (case map_of (dir_subs d) k of None \<Rightarrow> None | Some s \<Rightarrow> dir_at s ks)"

fun set_subs :: "DirectoryObject \<Rightarrow> (key \<times> DirectoryObject) list \<Rightarrow> DirectoryObject" where
  "set_subs (Dir n c s l p) s' = Dir n c s' l p"

fun set_children :: "DirectoryObject \<Rightarrow> (key \<times> u64) list \<Rightarrow> DirectoryObject" where
  "set_children (Dir n c s l p) c' = Dir n c' s l p"

fun set_links :: "DirectoryObject \<Rightarrow> (key \<times> SymlinkEntry) list \<Rightarrow> DirectoryObject" where
  "set_links (Dir n c s l p) l' = Dir n c s l' p"

fun set_name :: "DirectoryObject \<Rightarrow> key \<Rightarrow> DirectoryObject" where
  "set_name (Dir n c s l p) n' = Dir n' c s l p"

fun set_prot :: "DirectoryObject \<Rightarrow> bool \<Rightarrow> DirectoryObject" where
  "set_prot (Dir n c s l p) p' = Dir n c s l p'"

fun dir_update ::
  "key list \<Rightarrow> (DirectoryObject \<Rightarrow> ('r \<times> DirectoryObject, ns_error) result) \<Rightarrow> DirectoryObject \<Rightarrow> ('r \<times> DirectoryObject, ns_error) result" where
  "dir_update [] f d = f d"
| "dir_update (k # ks) f d = (case map_of (dir_subs d) k of
      None \<Rightarrow> Err OB_NOT_FOUND
    | Some s \<Rightarrow> (case dir_update ks f s of
          Err e \<Rightarrow> Err e
        | Ok (r, s') \<Rightarrow> Ok (r, set_subs d (bt_insert k s' (dir_subs d)))))"

text \<open>What the mutations do at the last component: the path is parsed, the root is refused, and the
  operation runs in the parent directory under the key of the last name.\<close>

definition at_leaf ::
  "ns_error \<Rightarrow> (bytes \<Rightarrow> key \<Rightarrow> DirectoryObject \<Rightarrow> ('r \<times> DirectoryObject, ns_error) result) \<Rightarrow> bytes \<Rightarrow> DirectoryObject
    \<Rightarrow> ('r \<times> DirectoryObject, ns_error) result" where
  "at_leaf root_error f path root = (case parse_path path of
      Err e \<Rightarrow> Err e
    | Ok components \<Rightarrow>
        if components = [] then Err root_error
        else let name = last components
             in dir_update (map name_to_key (butlast components)) (f name (name_to_key name)) root)"

section \<open>Mutation\<close>

definition insert_leaf :: "u64 \<Rightarrow> bytes \<Rightarrow> key \<Rightarrow> DirectoryObject \<Rightarrow> (unit \<times> DirectoryObject, ns_error) result" where
  "insert_leaf obj_id name key d =
    (if bt_contains key (dir_children d) then Err OB_ALREADY_EXISTS
     else if bt_contains key (dir_links d) then Err OB_ALREADY_EXISTS
     else Ok ((), set_children d (bt_insert key obj_id (dir_children d))))"

definition insert_object :: "bytes \<Rightarrow> u64 \<Rightarrow> DirectoryObject \<Rightarrow> (unit \<times> DirectoryObject, ns_error) result" where
  "insert_object path obj_id = at_leaf OB_INVALID_PATH (insert_leaf obj_id) path"

definition symlink_leaf :: "bytes \<Rightarrow> bytes \<Rightarrow> key \<Rightarrow> DirectoryObject \<Rightarrow> (unit \<times> DirectoryObject, ns_error) result" where
  "symlink_leaf target name key d =
    (if bt_contains key (dir_children d) then Err OB_ALREADY_EXISTS
     else if bt_contains key (dir_subs d) then Err OB_ALREADY_EXISTS
     else if bt_contains key (dir_links d) then Err OB_ALREADY_EXISTS
     else Ok ((), set_links d (bt_insert key (symlink_new name target) (dir_links d))))"

definition insert_symlink :: "bytes \<Rightarrow> bytes \<Rightarrow> DirectoryObject \<Rightarrow> (unit \<times> DirectoryObject, ns_error) result" where
  "insert_symlink path target root = (case parse_path path of
      Err e \<Rightarrow> Err e
    | Ok components \<Rightarrow>
        if components = [] then Err OB_INVALID_PATH
        else if target = [] \<or> length target > 254 then Err OB_SYMLINK_INVALID_TARGET
        else at_leaf OB_INVALID_PATH (symlink_leaf target) path root)"

definition remove_leaf :: "bytes \<Rightarrow> key \<Rightarrow> DirectoryObject \<Rightarrow> (u64 \<times> DirectoryObject, ns_error) result" where
  "remove_leaf name key d = (case map_of (dir_children d) key of
      None \<Rightarrow> Err OB_NOT_FOUND
    | Some i \<Rightarrow> Ok (i, set_children d (bt_remove key (dir_children d))))"

definition remove_object :: "bytes \<Rightarrow> DirectoryObject \<Rightarrow> (u64 \<times> DirectoryObject, ns_error) result" where
  "remove_object = at_leaf OB_INVALID_PATH remove_leaf"

definition unlink_leaf :: "bytes \<Rightarrow> key \<Rightarrow> DirectoryObject \<Rightarrow> (SymlinkEntry \<times> DirectoryObject, ns_error) result" where
  "unlink_leaf name key d = (case map_of (dir_links d) key of
      None \<Rightarrow> Err OB_NOT_FOUND
    | Some e \<Rightarrow> Ok (e, set_links d (bt_remove key (dir_links d))))"

definition remove_symlink :: "bytes \<Rightarrow> DirectoryObject \<Rightarrow> (SymlinkEntry \<times> DirectoryObject, ns_error) result" where
  "remove_symlink = at_leaf OB_INVALID_PATH unlink_leaf"

text \<open>\<open>create_dir_internal\<close>; the missing intermediate directories are created on the way. A failure at
  the last component leaves those created before it, so the directory is returned with the result.\<close>

fun create_dir_internal :: "DirectoryObject \<Rightarrow> bytes list \<Rightarrow> (unit, ns_error) result \<times> DirectoryObject" where
  "create_dir_internal d [] = (Err OB_INVALID_PATH, d)"
| "create_dir_internal d [name] = (let key = name_to_key name in
     if bt_contains key (dir_subs d) then (Err OB_ALREADY_EXISTS, d)
     else if bt_contains key (dir_links d) then (Err OB_ALREADY_EXISTS, d)
     else (Ok (), set_subs d (bt_insert key (dir_new name) (dir_subs d))))"
| "create_dir_internal d (name # n2 # rest) = (let key = name_to_key name;
     sub = (case map_of (dir_subs d) key of None \<Rightarrow> dir_new name | Some s \<Rightarrow> s);
     (r, sub') = create_dir_internal sub (n2 # rest)
     in (r, set_subs d (bt_insert key sub' (dir_subs d))))"

definition create_directory :: "bytes \<Rightarrow> DirectoryObject \<Rightarrow> (unit, ns_error) result \<times> DirectoryObject" where
  "create_directory path root = (case parse_path path of
      Err e \<Rightarrow> (Err e, root)
    | Ok components \<Rightarrow>
        if components = []
        then (if bt_contains (name_to_key [SEP]) (dir_children root) then Ok () else Err OB_NOT_FOUND, root)
        else if length components > 1 \<and> dir_at root (map name_to_key (butlast components)) = None
        then (Err OB_NOT_FOUND, root)
        else create_dir_internal root components)"

definition set_protected :: "bytes \<Rightarrow> bool \<Rightarrow> DirectoryObject \<Rightarrow> (unit \<times> DirectoryObject, ns_error) result" where
  "set_protected path protected root = (case parse_path path of
      Err e \<Rightarrow> Err e
    | Ok components \<Rightarrow> dir_update (map name_to_key components) (\<lambda>d. Ok ((), set_prot d protected)) root)"

definition rename_leaf :: "bytes \<Rightarrow> bytes \<Rightarrow> key \<Rightarrow> DirectoryObject \<Rightarrow> (unit \<times> DirectoryObject, ns_error) result" where
  "rename_leaf new_name old_name old_key d = (let new_key = name_to_key new_name in
     case map_of (dir_subs d) old_key of
       None \<Rightarrow> Err OB_NOT_FOUND
     | Some s \<Rightarrow> (let subs = bt_remove old_key (dir_subs d) in
         if bt_contains new_key subs \<or> bt_contains new_key (dir_links d) then Err OB_ALREADY_EXISTS
         else Ok ((), set_subs d (bt_insert new_key (set_name s new_key) subs))))"

definition rename_directory :: "bytes \<Rightarrow> bytes \<Rightarrow> DirectoryObject \<Rightarrow> (unit \<times> DirectoryObject, ns_error) result" where
  "rename_directory old_path new_name root = (case parse_path old_path of
      Err e \<Rightarrow> Err e
    | Ok components \<Rightarrow>
        if components = [] then Err OB_INVALID_RENAME_ROOT
        else if name_to_key new_name = name_to_key (last components) then Err OB_SAME_NAME
        else at_leaf OB_INVALID_RENAME_ROOT (rename_leaf new_name) old_path root)"

text \<open>The checked entry points refuse a protected parent directory, except directly below the root.\<close>

definition parent_check :: "bytes \<Rightarrow> DirectoryObject \<Rightarrow> ns_error option" where
  "parent_check path root = (case parse_path path of
      Err e \<Rightarrow> Some OB_INVALID_PATH
    | Ok components \<Rightarrow>
        if length components > 1
        then (case dir_at root (map name_to_key (butlast components)) of
                None \<Rightarrow> Some OB_NOT_FOUND
              | Some d \<Rightarrow> if dir_protected d then Some OB_PROTECTED else None)
        else None)"

definition ob_insert_object_checked :: "bytes \<Rightarrow> u64 \<Rightarrow> DirectoryObject \<Rightarrow> (unit \<times> DirectoryObject, ns_error) result" where
  "ob_insert_object_checked path obj_id root = (case parent_check path root of
      Some e \<Rightarrow> Err e | None \<Rightarrow> insert_object path obj_id root)"

definition ob_create_directory_checked :: "bytes \<Rightarrow> DirectoryObject \<Rightarrow> (unit, ns_error) result \<times> DirectoryObject" where
  "ob_create_directory_checked path root = (case parent_check path root of
      Some e \<Rightarrow> (Err e, root) | None \<Rightarrow> create_directory path root)"

definition ob_insert_symlink_checked :: "bytes \<Rightarrow> bytes \<Rightarrow> DirectoryObject \<Rightarrow> (unit \<times> DirectoryObject, ns_error) result" where
  "ob_insert_symlink_checked path target root = (case parent_check path root of
      Some e \<Rightarrow> Err e | None \<Rightarrow> insert_symlink path target root)"

definition ob_is_path_protected :: "bytes \<Rightarrow> DirectoryObject \<Rightarrow> bool" where
  "ob_is_path_protected path root = (case parse_path path of
      Err e \<Rightarrow> False
    | Ok components \<Rightarrow> (case dir_at root (map name_to_key components) of None \<Rightarrow> False | Some d \<Rightarrow> dir_protected d))"

text \<open>\<open>ob_create_directory_tree\<close>: every proper prefix of the path is created, failures are ignored.\<close>

fun create_prefixes :: "bytes \<Rightarrow> bytes list \<Rightarrow> DirectoryObject \<Rightarrow> DirectoryObject" where
  "create_prefixes p [] root = root"
| "create_prefixes p (c # cs) root = (let p' = p @ SEP # c in create_prefixes p' cs (snd (create_directory p' root)))"

definition ob_create_directory_tree :: "bytes \<Rightarrow> DirectoryObject \<Rightarrow> DirectoryObject" where
  "ob_create_directory_tree path root =
    (if length path \<le> 1 then root
     else let body = dropWhile (\<lambda>b. b = SEP) path
          in if body = [] then root
             else let parts = split_on SEP body
                  in if length parts \<le> 1 then root else create_prefixes [] (butlast parts) root)"

section \<open>Lookup\<close>

definition is_directory :: "bytes \<Rightarrow> DirectoryObject \<Rightarrow> bool" where
  "is_directory path root = (case parse_path path of
      Err e \<Rightarrow> False | Ok components \<Rightarrow> dir_at root (map name_to_key components) \<noteq> None)"

definition lookup_path_no_follow :: "bytes \<Rightarrow> DirectoryObject \<Rightarrow> (u64, ns_error) result" where
  "lookup_path_no_follow path root = (case parse_path path of
      Err e \<Rightarrow> Err e
    | Ok components \<Rightarrow>
        if components = [] then Err OB_NOT_FOUND
        else case dir_at root (map name_to_key (butlast components)) of
            None \<Rightarrow> Err OB_NOT_FOUND
          | Some d \<Rightarrow> (case map_of (dir_children d) (name_to_key (last components)) of
                None \<Rightarrow> Err OB_NOT_FOUND | Some i \<Rightarrow> Ok i))"

definition lookup_symlink :: "bytes \<Rightarrow> DirectoryObject \<Rightarrow> (SymlinkEntry, ns_error) result" where
  "lookup_symlink path root = (case parse_path path of
      Err e \<Rightarrow> Err e
    | Ok components \<Rightarrow>
        if components = [] then Err OB_NOT_FOUND
        else case dir_at root (map name_to_key (butlast components)) of
            None \<Rightarrow> Err OB_NOT_FOUND
          | Some d \<Rightarrow> (case map_of (dir_links d) (name_to_key (last components)) of
                None \<Rightarrow> Err OB_NOT_FOUND | Some e \<Rightarrow> Ok e))"

text \<open>One walk along the components ends at an object, at nothing, or jumps to the path a symbolic link
  stands for.\<close>

datatype walk_end = Found u64 | Missing | Jump bytes

definition joined :: "bytes list \<Rightarrow> bytes" where
  "joined cs = concat (map (\<lambda>c. SEP # c) cs)"

fun resolve_walk :: "DirectoryObject \<Rightarrow> bytes list \<Rightarrow> bytes list \<Rightarrow> walk_end" where
  "resolve_walk d pre [] = Missing"
| "resolve_walk d pre [c] = (let key = name_to_key c in
     case map_of (dir_children d) key of
       Some i \<Rightarrow> Found i
     | None \<Rightarrow> (case map_of (dir_links d) key of
         Some e \<Rightarrow> (let target = target_str e in
           if starts_with SEP target then Jump target
           else let parent_path = joined pre
                in Jump (if length parent_path \<le> 1 then SEP # target else parent_path @ SEP # target))
       | None \<Rightarrow> Missing))"
| "resolve_walk d pre (c # c2 # cs) = (let key = name_to_key c in
     case map_of (dir_subs d) key of
       Some s \<Rightarrow> resolve_walk s (pre @ [c]) (c2 # cs)
     | None \<Rightarrow> (case map_of (dir_links d) key of
         Some e \<Rightarrow> (let rest_path = target_str e @ joined (c2 # cs)
                    in Jump (if starts_with SEP rest_path then rest_path else SEP # rest_path))
       | None \<Rightarrow> Missing))"

function resolve_symlink_internal :: "DirectoryObject \<Rightarrow> bytes \<Rightarrow> nat \<Rightarrow> (u64, ns_error) result" where
  "resolve_symlink_internal root path depth =
    (if depth > MAX_SYMLINK_HOPS then Err OB_SYMLINK_LOOP
     else case parse_path path of
         Err e \<Rightarrow> Err e
       | Ok components \<Rightarrow>
           if components = [] then Err OB_NOT_FOUND
           else (case resolve_walk root [] components of
               Found i \<Rightarrow> Ok i
             | Missing \<Rightarrow> Err OB_NOT_FOUND
             | Jump p \<Rightarrow> resolve_symlink_internal root p (depth + 1)))"
  by pat_completeness auto
termination by (relation "measure (\<lambda>(root, path, depth). Suc MAX_SYMLINK_HOPS - depth)") auto

declare resolve_symlink_internal.simps [simp del]

definition lookup_path :: "bytes \<Rightarrow> DirectoryObject \<Rightarrow> (u64, ns_error) result" where
  "lookup_path path root = resolve_symlink_internal root path 0"

definition lookup_by_path :: "bytes \<Rightarrow> DirectoryObject \<Rightarrow> (u64, ns_error) result" where
  "lookup_by_path path root = (let normalized = normalize_path path in
     case parse_path normalized of
       Err e \<Rightarrow> Err e
     | Ok components \<Rightarrow> if components = [] then Err OB_NOT_FOUND else resolve_symlink_internal root normalized 0)"

text \<open>\<open>find_path_by_id\<close> searches a directory before its subdirectories, both in key order.\<close>

fun find_child :: "u64 \<Rightarrow> (key \<times> u64) list \<Rightarrow> key option" where
  "find_child i [] = None"
| "find_child i ((k, j) # cs) = (if j = i then Some k else find_child i cs)"

fun search :: "u64 \<Rightarrow> bytes \<Rightarrow> DirectoryObject \<Rightarrow> bytes option"
  and search_subs :: "u64 \<Rightarrow> bytes \<Rightarrow> (key \<times> DirectoryObject) list \<Rightarrow> bytes option" where
  "search i pfx (Dir n c s l p) = (case find_child i c of
      Some k \<Rightarrow> Some (pfx @ SEP # key_to_str k)
    | None \<Rightarrow> search_subs i pfx s)"
| "search_subs i pfx [] = None"
| "search_subs i pfx ((k, d) # ds) = (case search i (pfx @ SEP # key_to_str k) d of
      Some path \<Rightarrow> Some path | None \<Rightarrow> search_subs i pfx ds)"

definition find_path_by_id :: "u64 \<Rightarrow> DirectoryObject \<Rightarrow> bytes option" where
  "find_path_by_id i root = search i [] root"

definition ob_remove_by_id :: "u64 \<Rightarrow> DirectoryObject \<Rightarrow> bytes option \<times> DirectoryObject" where
  "ob_remove_by_id i root = (case find_path_by_id i root of
      None \<Rightarrow> (None, root)
    | Some path \<Rightarrow> (Some path, case remove_object path root of Ok (j, root') \<Rightarrow> root' | Err e \<Rightarrow> root))"

fun count_dirs :: "DirectoryObject \<Rightarrow> nat" and count_sub_dirs :: "(key \<times> DirectoryObject) list \<Rightarrow> nat" where
  "count_dirs (Dir n c s l p) = 1 + count_sub_dirs s"
| "count_sub_dirs [] = 0"
| "count_sub_dirs ((k, d) # ds) = count_dirs d + count_sub_dirs ds"

fun count_objects :: "DirectoryObject \<Rightarrow> nat" and count_sub_objects :: "(key \<times> DirectoryObject) list \<Rightarrow> nat" where
  "count_objects (Dir n c s l p) = length c + count_sub_objects s"
| "count_sub_objects [] = 0"
| "count_sub_objects ((k, d) # ds) = count_objects d + count_sub_objects ds"

fun count_symlinks :: "DirectoryObject \<Rightarrow> nat" and count_sub_symlinks :: "(key \<times> DirectoryObject) list \<Rightarrow> nat" where
  "count_symlinks (Dir n c s l p) = length l + count_sub_symlinks s"
| "count_sub_symlinks [] = 0"
| "count_sub_symlinks ((k, d) # ds) = count_symlinks d + count_sub_symlinks ds"

section \<open>What the walks do\<close>

text \<open>The contents a directory shows at its own level, along a path of keys.\<close>

definition dtop :: "DirectoryObject \<Rightarrow> key list \<Rightarrow> ((key \<times> u64) list \<times> (key \<times> SymlinkEntry) list) option" where
  "dtop d ks = map_option (\<lambda>s. (dir_children s, dir_links s)) (dir_at d ks)"

fun dir_put :: "key list \<Rightarrow> DirectoryObject \<Rightarrow> DirectoryObject \<Rightarrow> DirectoryObject" where
  "dir_put [] s d = s"
| "dir_put (k # ks) s d = set_subs d (bt_insert k (dir_put ks s (the (map_of (dir_subs d) k))) (dir_subs d))"

lemma set_fields [simp]:
  "dir_subs (set_subs d s) = s" "dir_children (set_subs d s) = dir_children d" "dir_links (set_subs d s) = dir_links d"
  "dir_subs (set_children d c) = dir_subs d" "dir_children (set_children d c) = c" "dir_links (set_children d c) = dir_links d"
  "dir_subs (set_links d l) = dir_subs d" "dir_children (set_links d l) = dir_children d" "dir_links (set_links d l) = l"
  by (cases d; simp)+

lemma dir_update_eq:
  "dir_update ks f d = (case dir_at d ks of None \<Rightarrow> Err OB_NOT_FOUND
     | Some s \<Rightarrow> (case f s of Err e \<Rightarrow> Err e | Ok (r, s') \<Rightarrow> Ok (r, dir_put ks s' d)))"
  by (induction ks f d rule: dir_update.induct) (auto split: option.splits result.splits)

lemma dtop_put:
  "dir_at d ks = Some s \<Longrightarrow> dtop (dir_put ks s' d) js =
     (if prefix ks js then dtop s' (drop (length ks) js) else dtop d js)"
proof (induction ks arbitrary: d js)
  case (Cons k ks)
  then obtain x where x: "map_of (dir_subs d) k = Some x" "dir_at x ks = Some s" by (auto split: option.splits)
  show ?case
  proof (cases js)
    case Nil
    then show ?thesis by (simp add: dtop_def)
  next
    case (Cons j js')
    then show ?thesis using Cons.IH [OF x(2), of js'] x(1) by (auto simp: dtop_def)
  qed
qed simp

lemma dtop_sub: "dir_at d ks = Some s \<Longrightarrow> dtop d (ks @ r) = dtop s r"
  by (induction ks arbitrary: d) (auto simp: dtop_def split: option.splits)

lemma dtop_level: "dir_subs s' = dir_subs s \<Longrightarrow> r \<noteq> [] \<Longrightarrow> dtop s' r = dtop s r"
  by (cases r) (auto simp: dtop_def)

lemma dtop_put_level:
  assumes "dir_at d ks = Some s" and "dir_subs s' = dir_subs s"
  shows "dtop (dir_put ks s' d) = (dtop d)(ks \<mapsto> (dir_children s', dir_links s'))"
proof
  fix js
  show "dtop (dir_put ks s' d) js = ((dtop d)(ks \<mapsto> (dir_children s', dir_links s'))) js"
  proof (cases "prefix ks js")
    case True
    then obtain r where r: "js = ks @ r" by (auto simp: prefix_def)
    show ?thesis
    proof (cases "r = []")
      case True
      then show ?thesis using r dtop_put [OF assms(1), of s' js] by (simp add: dtop_def)
    next
      case False
      then show ?thesis using r dtop_put [OF assms(1), of s' js] dtop_sub [OF assms(1), of r] dtop_level [OF assms(2), of r]
        by simp
    qed
  next
    case False
    then show ?thesis using dtop_put [OF assms(1), of s' js] by auto
  qed
qed

lemma dtop_put_new:
  assumes "dir_at d ks = Some s" and "map_of (dir_subs s) k = None"
  shows "dtop (dir_put ks (set_subs s (bt_insert k (dir_new n) (dir_subs s))) d) = (dtop d)(ks @ [k] \<mapsto> ([], []))"
proof
  fix js
  let ?s = "set_subs s (bt_insert k (dir_new n) (dir_subs s))"
  show "dtop (dir_put ks ?s d) js = ((dtop d)(ks @ [k] \<mapsto> ([], []))) js"
  proof (cases "prefix ks js")
    case True
    then obtain r where r: "js = ks @ r" by (auto simp: prefix_def)
    have "dtop ?s r = (if r = [k] then Some ([], []) else dtop s r)"
      using assms(2) by (cases r; cases "tl r") (auto simp: dtop_def dir_new_def)
    then show ?thesis using r dtop_put [OF assms(1), of ?s js] dtop_sub [OF assms(1), of r] by simp
  next
    case False
    then show ?thesis using dtop_put [OF assms(1), of ?s js] by (auto simp: prefix_def)
  qed
qed

section \<open>The namespace as three maps\<close>

text \<open>
  Abstractly a namespace is a set of directories and two maps, from key paths to objects and to
  symbolic links.
\<close>

record ns_maps =
  vw_objs :: "key list \<Rightarrow> u64 option"
  vw_links :: "key list \<Rightarrow> SymlinkEntry option"
  vw_dirs :: "key list set"

definition view_of :: "(key list \<Rightarrow> ((key \<times> u64) list \<times> (key \<times> SymlinkEntry) list) option) \<Rightarrow> ns_maps" where
  "view_of t = \<lparr>
     vw_objs = (\<lambda>p. if p = [] then None else case t (butlast p) of None \<Rightarrow> None | Some (c, l) \<Rightarrow> map_of c (last p)),
     vw_links = (\<lambda>p. if p = [] then None else case t (butlast p) of None \<Rightarrow> None | Some (c, l) \<Rightarrow> map_of l (last p)),
     vw_dirs = dom t \<rparr>"

definition ns_view :: "DirectoryObject \<Rightarrow> ns_maps" where
  "ns_view d = view_of (dtop d)"

definition spec_leaf :: "ns_error \<Rightarrow> (bytes \<Rightarrow> key list \<Rightarrow> ns_maps \<Rightarrow> ('r, ns_error) result \<times> ns_maps) \<Rightarrow> bytes \<Rightarrow> ns_maps
    \<Rightarrow> ('r, ns_error) result \<times> ns_maps" where
  "spec_leaf e f path v = (case parse_path path of Err e \<Rightarrow> (Err e, v)
     | Ok cs \<Rightarrow> if cs = [] then (Err e, v)
         else if map name_to_key (butlast cs) \<notin> vw_dirs v then (Err OB_NOT_FOUND, v) else f (last cs) (map name_to_key cs) v)"

definition spec_insert :: "u64 \<Rightarrow> bytes \<Rightarrow> key list \<Rightarrow> ns_maps \<Rightarrow> (unit, ns_error) result \<times> ns_maps" where
  "spec_insert i name p v = (if vw_objs v p \<noteq> None \<or> vw_links v p \<noteq> None then (Err OB_ALREADY_EXISTS, v)
     else (Ok (), v \<lparr> vw_objs := (vw_objs v)(p \<mapsto> i) \<rparr>))"

definition spec_remove :: "bytes \<Rightarrow> key list \<Rightarrow> ns_maps \<Rightarrow> (u64, ns_error) result \<times> ns_maps" where
  "spec_remove name p v = (case vw_objs v p of None \<Rightarrow> (Err OB_NOT_FOUND, v)
     | Some i \<Rightarrow> (Ok i, v \<lparr> vw_objs := (vw_objs v)(p := None) \<rparr>))"

definition spec_symlink :: "bytes \<Rightarrow> bytes \<Rightarrow> key list \<Rightarrow> ns_maps \<Rightarrow> (unit, ns_error) result \<times> ns_maps" where
  "spec_symlink target name p v = (if vw_objs v p \<noteq> None \<or> p \<in> vw_dirs v \<or> vw_links v p \<noteq> None then (Err OB_ALREADY_EXISTS, v)
     else (Ok (), v \<lparr> vw_links := (vw_links v)(p \<mapsto> symlink_new name target) \<rparr>))"

definition spec_unlink :: "bytes \<Rightarrow> key list \<Rightarrow> ns_maps \<Rightarrow> (SymlinkEntry, ns_error) result \<times> ns_maps" where
  "spec_unlink name p v = (case vw_links v p of None \<Rightarrow> (Err OB_NOT_FOUND, v)
     | Some e \<Rightarrow> (Ok e, v \<lparr> vw_links := (vw_links v)(p := None) \<rparr>))"

definition spec_mkdir :: "bytes \<Rightarrow> key list \<Rightarrow> ns_maps \<Rightarrow> (unit, ns_error) result \<times> ns_maps" where
  "spec_mkdir name p v = (if p \<in> vw_dirs v \<or> vw_links v p \<noteq> None then (Err OB_ALREADY_EXISTS, v)
     else (Ok (), v \<lparr> vw_dirs := insert p (vw_dirs v) \<rparr>))"

text \<open>A failed operation leaves the tree as it is.\<close>

definition keep :: "DirectoryObject \<Rightarrow> ('r \<times> DirectoryObject, ns_error) result \<Rightarrow> ('r, ns_error) result \<times> DirectoryObject" where
  "keep d r = (case r of Ok (x, d') \<Rightarrow> (Ok x, d') | Err e \<Rightarrow> (Err e, d))"

lemma view_objs: "dir_at d ks = Some s \<Longrightarrow> vw_objs (ns_view d) (ks @ [k]) = map_of (dir_children s) k"
  and view_links: "dir_at d ks = Some s \<Longrightarrow> vw_links (ns_view d) (ks @ [k]) = map_of (dir_links s) k"
  and view_dirs: "ks \<in> vw_dirs (ns_view d) \<longleftrightarrow> dir_at d ks \<noteq> None"
  by (auto simp: ns_view_def view_of_def dtop_def dom_def)

lemma view_dirs_sub: "dir_at d ks = Some s \<Longrightarrow> ks @ [k] \<in> vw_dirs (ns_view d) \<longleftrightarrow> map_of (dir_subs s) k \<noteq> None"
  by (induction ks arbitrary: d) (auto simp: view_dirs split: option.splits)

lemma snoc_eq: "p \<noteq> [] \<Longrightarrow> butlast p = ks \<Longrightarrow> p = ks @ [k] \<longleftrightarrow> last p = k"
  by (metis append_butlast_last_id butlast_snoc last_snoc)

lemma view_put:
  assumes "dir_at d ks = Some s"
  shows "ns_view (dir_put ks (set_children s (bt_insert k i (dir_children s))) d) =
      ns_view d \<lparr> vw_objs := (vw_objs (ns_view d))(ks @ [k] \<mapsto> i) \<rparr>"
    and "ns_view (dir_put ks (set_children s (bt_remove k (dir_children s))) d) =
      ns_view d \<lparr> vw_objs := (vw_objs (ns_view d))(ks @ [k] := None) \<rparr>"
    and "ns_view (dir_put ks (set_links s (bt_insert k e (dir_links s))) d) =
      ns_view d \<lparr> vw_links := (vw_links (ns_view d))(ks @ [k] \<mapsto> e) \<rparr>"
    and "ns_view (dir_put ks (set_links s (bt_remove k (dir_links s))) d) =
      ns_view d \<lparr> vw_links := (vw_links (ns_view d))(ks @ [k] := None) \<rparr>"
  using assms
  by (auto simp: ns_view_def view_of_def dtop_put_level [OF assms] dtop_def fun_eq_iff snoc_eq)

lemma view_mkdir:
  assumes "dir_at d ks = Some s" and "map_of (dir_subs s) k = None"
  shows "ns_view (dir_put ks (set_subs s (bt_insert k (dir_new n) (dir_subs s))) d) =
    ns_view d \<lparr> vw_dirs := insert (ks @ [k]) (vw_dirs (ns_view d)) \<rparr>"
proof -
  have "dtop d (ks @ [k]) = None" using dtop_sub [OF assms(1), of "[k]"] assms(2) by (simp add: dtop_def)
  then show ?thesis by (auto simp: ns_view_def view_of_def dtop_put_new [OF assms] fun_eq_iff)
qed

lemma at_leaf_refines:
  assumes "\<And>name ks s. dir_at d ks = Some s \<Longrightarrow>
    map_prod id ns_view (keep d (case f name (name_to_key name) s of Err e \<Rightarrow> Err e | Ok (r, s') \<Rightarrow> Ok (r, dir_put ks s' d)))
      = spec name (ks @ [name_to_key name]) (ns_view d)"
  shows "map_prod id ns_view (keep d (at_leaf e f path d)) = spec_leaf e spec path (ns_view d)"
proof -
  have "map name_to_key cs = map name_to_key (butlast cs) @ [name_to_key (last cs)]" if "cs \<noteq> []" for cs
    using that by (metis append_butlast_last_id list.simps(8) list.simps(9) map_append)
  then show ?thesis
    using assms by (auto simp: at_leaf_def spec_leaf_def dir_update_eq view_dirs keep_def Let_def split: option.splits result.splits)
qed

lemma leaf_refines:
  "map_prod id ns_view (keep d (insert_object path i d)) = spec_leaf OB_INVALID_PATH (spec_insert i) path (ns_view d)"
  "map_prod id ns_view (keep d (remove_object path d)) = spec_leaf OB_INVALID_PATH spec_remove path (ns_view d)"
  "map_prod id ns_view (keep d (remove_symlink path d)) = spec_leaf OB_INVALID_PATH spec_unlink path (ns_view d)"
  "map_prod id ns_view (keep d (at_leaf OB_INVALID_PATH (symlink_leaf target) path d))
     = spec_leaf OB_INVALID_PATH (spec_symlink target) path (ns_view d)"
  unfolding insert_object_def remove_object_def remove_symlink_def
  by (rule at_leaf_refines;
      auto simp: insert_leaf_def spec_insert_def remove_leaf_def spec_remove_def unlink_leaf_def spec_unlink_def
        symlink_leaf_def spec_symlink_def keep_def bt_contains_def view_objs view_links view_put view_dirs_sub split: option.splits)+

text \<open>With its parents present, \<open>create_dir_internal\<close> adds one directory.\<close>

lemma create_dir_internal_eq:
  assumes "dir_at d (map name_to_key (butlast cs)) = Some s" and "cs \<noteq> []"
  shows "create_dir_internal d cs = (let key = name_to_key (last cs) in
    if bt_contains key (dir_subs s) \<or> bt_contains key (dir_links s)
    then (Err OB_ALREADY_EXISTS, dir_put (map name_to_key (butlast cs)) s d)
    else (Ok (), dir_put (map name_to_key (butlast cs)) (set_subs s (bt_insert key (dir_new (last cs)) (dir_subs s))) d))"
  using assms
proof (induction d cs rule: create_dir_internal.induct)
  case (3 d name n2 rest)
  then show ?case by (auto simp: Let_def split: option.splits)
qed (auto simp: Let_def)

lemma view_put_same: "dir_at d ks = Some s \<Longrightarrow> ns_view (dir_put ks s d) = ns_view d"
  using dtop_put_level [of d ks s s] by (simp add: ns_view_def dtop_def fun_upd_idem)

lemma create_directory_refines:
  "map_prod id ns_view (create_directory path d) = (case parse_path path of
     Ok [] \<Rightarrow> (if vw_objs (ns_view d) [name_to_key [SEP]] \<noteq> None then Ok () else Err OB_NOT_FOUND, ns_view d)
   | _ \<Rightarrow> spec_leaf OB_INVALID_PATH spec_mkdir path (ns_view d))"
proof (cases "parse_path path")
  case (Ok cs)
  show ?thesis
  proof (cases cs)
    case Nil
    then show ?thesis using Ok view_objs [of d "[]" d] by (simp add: create_directory_def bt_contains_def)
  next
    case (Cons c cs')
    then have cs: "cs \<noteq> []" and key: "map name_to_key cs = map name_to_key (butlast cs) @ [name_to_key (last cs)]"
      by (simp, metis append_butlast_last_id list.distinct(1) list.simps(8) list.simps(9) local.Cons map_append)
    show ?thesis
    proof (cases "dir_at d (map name_to_key (butlast cs))")
      case None
      then have "length cs > 1" using cs by (cases cs; cases "tl cs") auto
      then show ?thesis using Ok None Cons cs by (simp add: create_directory_def spec_leaf_def view_dirs)
    next
      case (Some s)
      have "map_prod id ns_view (create_dir_internal d cs) = spec_mkdir (last cs) (map name_to_key cs) (ns_view d)"
        unfolding create_dir_internal_eq [OF Some cs] key spec_mkdir_def
        using view_put_same [OF Some] view_links [OF Some] view_dirs_sub [OF Some] view_mkdir [OF Some]
        by (auto simp: bt_contains_def Let_def)
      then show ?thesis using Ok Some Cons cs by (auto simp: create_directory_def spec_leaf_def view_dirs)
    qed
  qed
qed (simp add: create_directory_def spec_leaf_def)

section \<open>Lookups and runs\<close>

fun spec_walk :: "ns_maps \<Rightarrow> bytes list \<Rightarrow> bytes list \<Rightarrow> walk_end" where
  "spec_walk v pre [] = Missing"
| "spec_walk v pre [c] = (let p = map name_to_key (pre @ [c]) in
     case vw_objs v p of Some i \<Rightarrow> Found i
     | None \<Rightarrow> (case vw_links v p of None \<Rightarrow> Missing
         | Some e \<Rightarrow> Jump (if starts_with SEP (target_str e) then target_str e
             else if length (joined pre) \<le> 1 then SEP # target_str e else joined pre @ SEP # target_str e)))"
| "spec_walk v pre (c # c2 # cs) = (let p = map name_to_key (pre @ [c]) in
     if p \<in> vw_dirs v then spec_walk v (pre @ [c]) (c2 # cs)
     else case vw_links v p of None \<Rightarrow> Missing
         | Some e \<Rightarrow> (let rest_path = target_str e @ joined (c2 # cs)
             in Jump (if starts_with SEP rest_path then rest_path else SEP # rest_path)))"

fun spec_resolve :: "nat \<Rightarrow> ns_maps \<Rightarrow> bytes \<Rightarrow> (u64, ns_error) result" where
  "spec_resolve 0 v path = Err OB_SYMLINK_LOOP"
| "spec_resolve (Suc hops) v path = (case parse_path path of
      Err e \<Rightarrow> Err e
    | Ok cs \<Rightarrow> if cs = [] then Err OB_NOT_FOUND
        else (case spec_walk v [] cs of Found i \<Rightarrow> Ok i | Missing \<Rightarrow> Err OB_NOT_FOUND | Jump p \<Rightarrow> spec_resolve hops v p))"

lemma resolve_walk_refines:
  "dir_at d (map name_to_key pre) = Some s \<Longrightarrow> resolve_walk s pre cs = spec_walk (ns_view d) pre cs"
proof (induction s pre cs rule: resolve_walk.induct)
  case (2 s pre c)
  then show ?case by (auto simp: Let_def view_objs view_links split: option.splits)
next
  case (3 s pre c c2 cs)
  have sub: "dir_at d (map name_to_key (pre @ [c])) = map_of (dir_subs s) (name_to_key c)"
    using 3(2) by (induction pre arbitrary: d) (auto split: option.splits)
  then show ?case using 3 view_dirs_sub [OF 3(2), of "name_to_key c"] view_links [OF 3(2), of "name_to_key c"]
    by (auto simp: Let_def split: option.splits)
qed simp

lemma resolve_refines:
  "depth + hops = Suc MAX_SYMLINK_HOPS \<Longrightarrow> resolve_symlink_internal d path depth = spec_resolve hops (ns_view d) path"
proof (induction hops arbitrary: depth path)
  case 0
  then show ?case by (subst resolve_symlink_internal.simps) simp
next
  case (Suc hops)
  have "resolve_walk d [] cs = spec_walk (ns_view d) [] cs" for cs by (rule resolve_walk_refines) simp
  then show ?case using Suc
    by (subst resolve_symlink_internal.simps) (auto split: result.splits walk_end.splits)
qed

datatype ns_op = NsMkdir bytes | NsInsert bytes u64 | NsRemove bytes | NsSymlink bytes bytes | NsUnlink bytes
  | NsLookup bytes | NsIsDir bytes

datatype ns_result = Done "(unit, ns_error) result" | Object "(u64, ns_error) result"
  | Link "(SymlinkEntry, ns_error) result" | IsDir bool

fun ns_step :: "ns_op \<Rightarrow> DirectoryObject \<Rightarrow> ns_result \<times> DirectoryObject" where
  "ns_step (NsMkdir path) d = map_prod Done id (create_directory path d)"
| "ns_step (NsInsert path i) d = map_prod Done id (keep d (insert_object path i d))"
| "ns_step (NsRemove path) d = map_prod Object id (keep d (remove_object path d))"
| "ns_step (NsSymlink path target) d = map_prod Done id (keep d (insert_symlink path target d))"
| "ns_step (NsUnlink path) d = map_prod Link id (keep d (remove_symlink path d))"
| "ns_step (NsLookup path) d = (Object (lookup_path path d), d)"
| "ns_step (NsIsDir path) d = (IsDir (is_directory path d), d)"

fun maps_step :: "ns_op \<Rightarrow> ns_maps \<Rightarrow> ns_result \<times> ns_maps" where
  "maps_step (NsMkdir path) v = map_prod Done id (case parse_path path of
     Ok [] \<Rightarrow> (if vw_objs v [name_to_key [SEP]] \<noteq> None then Ok () else Err OB_NOT_FOUND, v)
   | _ \<Rightarrow> spec_leaf OB_INVALID_PATH spec_mkdir path v)"
| "maps_step (NsInsert path i) v = map_prod Done id (spec_leaf OB_INVALID_PATH (spec_insert i) path v)"
| "maps_step (NsRemove path) v = map_prod Object id (spec_leaf OB_INVALID_PATH spec_remove path v)"
| "maps_step (NsSymlink path target) v = map_prod Done id (case parse_path path of
     Ok (c # cs) \<Rightarrow> if target = [] \<or> length target > 254 then (Err OB_SYMLINK_INVALID_TARGET, v)
       else spec_leaf OB_INVALID_PATH (spec_symlink target) path v
   | _ \<Rightarrow> spec_leaf OB_INVALID_PATH (spec_symlink target) path v)"
| "maps_step (NsUnlink path) v = map_prod Link id (spec_leaf OB_INVALID_PATH spec_unlink path v)"
| "maps_step (NsLookup path) v = (Object (spec_resolve (Suc MAX_SYMLINK_HOPS) v path), v)"
| "maps_step (NsIsDir path) v = (IsDir (case parse_path path of Err e \<Rightarrow> False | Ok cs \<Rightarrow> map name_to_key cs \<in> vw_dirs v), v)"

lemma insert_symlink_refines:
  "map_prod id ns_view (keep d (insert_symlink path target d)) = (case parse_path path of
     Ok (c # cs) \<Rightarrow> if target = [] \<or> length target > 254 then (Err OB_SYMLINK_INVALID_TARGET, ns_view d)
       else spec_leaf OB_INVALID_PATH (spec_symlink target) path (ns_view d)
   | _ \<Rightarrow> spec_leaf OB_INVALID_PATH (spec_symlink target) path (ns_view d))"
  using leaf_refines(4) [of d target path]
  by (auto simp: insert_symlink_def keep_def spec_leaf_def split: result.splits list.splits)

interpretation ns: op_refinement "\<lambda>_. True" ns_view ns_step maps_step
proof unfold_locales
  fix d op
  show "map_prod id ns_view (ns_step op d) = maps_step op (ns_view d)"
    by (cases op)
      (simp_all add: map_prod_swap create_directory_refines leaf_refines insert_symlink_refines lookup_path_def
        resolve_refines [of 0 "Suc MAX_SYMLINK_HOPS"] is_directory_def view_dirs split: result.split)
qed simp

definition empty_maps :: ns_maps where
  "empty_maps = \<lparr> vw_objs = Map.empty, vw_links = Map.empty, vw_dirs = {[]} \<rparr>"

lemma view_new: "ns_view ns_new = empty_maps"
proof -
  have "dtop ns_new = [[] \<mapsto> ([], [])]"
  proof
    show "dtop ns_new js = [[] \<mapsto> ([], [])] js" for js by (cases js) (auto simp: dtop_def ns_new_def dir_new_def)
  qed
  then show ?thesis by (auto simp: ns_view_def view_of_def empty_maps_def fun_eq_iff split: if_splits)
qed

text \<open>
  C25. Every sequence of namespace operations on the directory tree returns what a set of directories
  and two maps from case-folded key paths return: creating directories, inserting and removing objects
  and symbolic links, and lookups that follow links, with every error.
\<close>

theorem ns_ops_refine_maps:
  "fst (run_ops ns_step ops ns_new) = fst (run_ops maps_step ops empty_maps)"
  using ns.run_results [where s = ns_new and ops = ops] by (simp add: view_new)

text \<open>
  A path whose walk ends at a symbolic link to the same path is reported as a loop: the lookup
  returns an error instead of running forever.
\<close>

lemma lookup_self_link_loops:
  assumes "parse_path path = Ok cs" and "cs \<noteq> []" and "resolve_walk root [] cs = Jump path"
  shows "lookup_path path root = Err OB_SYMLINK_LOOP"
proof -
  have "resolve_symlink_internal root path depth = Err OB_SYMLINK_LOOP" for depth
  proof (induction "Suc MAX_SYMLINK_HOPS - depth" arbitrary: depth)
    case 0
    then show ?case by (subst resolve_symlink_internal.simps) simp
  next
    case (Suc n)
    then have "n = Suc MAX_SYMLINK_HOPS - (depth + 1)" by simp
    then show ?case using Suc.hyps(1) assms by (subst resolve_symlink_internal.simps) simp
  qed
  then show ?thesis by (simp add: lookup_path_def)
qed

definition self_link :: DirectoryObject where
  "self_link = snd (ns_step (NsSymlink (ascii [CHR 0x5C, CHR ''a'']) (ascii [CHR 0x5C, CHR ''a''])) ns_new)"

text \<open>
  Two different names of 24 bytes, which the path parser accepts, are the same entry when they
  agree in the first 23: the second cannot be inserted, and looking it up finds the first object.
\<close>

lemma long_names_collide:
  assumes "parse_path (SEP # n1) = Ok [n1]" and "parse_path (SEP # n2) = Ok [n2]"
    and "length n1 = 24" and "length n2 = 24" and "take 23 n1 = take 23 n2"
    and "insert_object (SEP # n1) i ns_new = Ok ((), d)"
  shows "insert_object (SEP # n2) j d = Err OB_ALREADY_EXISTS \<and> lookup_path (SEP # n2) d = Ok i"
proof -
  have key: "name_to_key n2 = name_to_key n1"
    using assms(3-5) by (simp add: name_to_key_def)
  have "dir_children d = [(name_to_key n1, i)]"
    using assms(1,6) by (auto simp: insert_object_def at_leaf_def insert_leaf_def ns_new_def dir_new_def bt_contains_def)
  then show ?thesis using assms(2) key
    by (simp add: insert_object_def at_leaf_def insert_leaf_def bt_contains_def lookup_path_def
        resolve_symlink_internal.simps)
qed

definition name24 :: "u8 \<Rightarrow> bytes" where
  "name24 b = replicate 23 0x61 @ [b]"

text \<open>
  The root directory can never be entered as an object, whatever the namespace holds: the path of
  the root has no components, so the insertion made for it at start-up fails.
\<close>

lemma insert_root_fails: "insert_object [SEP] i d = Err OB_INVALID_PATH"
  by (simp add: insert_object_def at_leaf_def parse_path_def starts_with_def trim_end_def)

section \<open>Protected directories\<close>

text \<open>What a directory shows under one name.\<close>

definition entry_at :: "DirectoryObject \<Rightarrow> key list \<Rightarrow> u64 option \<times> SymlinkEntry option \<times> bool" where
  "entry_at d p = (vw_objs (ns_view d) p, vw_links (ns_view d) p, p \<in> vw_dirs (ns_view d))"

lemma spec_leaf_frame:
  assumes "map_prod id ns_view r = spec_leaf e f path (ns_view d)"
    and "\<And>n p v q. q \<noteq> p \<Longrightarrow> vw_objs (snd (f n p v)) q = vw_objs v q \<and> vw_links (snd (f n p v)) q = vw_links v q \<and>
      (q \<in> vw_dirs (snd (f n p v)) \<longleftrightarrow> q \<in> vw_dirs v)"
    and "\<And>cs. parse_path path = Ok cs \<Longrightarrow> q \<noteq> map name_to_key cs"
  shows "entry_at (snd r) q = entry_at d q"
proof -
  have "ns_view (snd r) = snd (spec_leaf e f path (ns_view d))" using assms(1) by (metis snd_map_prod)
  then show ?thesis using assms(2,3) by (auto simp: entry_at_def spec_leaf_def split: result.splits)
qed

lemma parent_check_protected:
  assumes "parent_check path root = None" and "dir_at root ks = Some d" and "dir_protected d" and "ks \<noteq> []"
    and "parse_path path = Ok cs"
  shows "ks @ [k] \<noteq> map name_to_key cs"
proof
  assume eq: "ks @ [k] = map name_to_key cs"
  then have "map name_to_key (butlast cs) = ks" by (metis butlast_snoc map_butlast)
  moreover have "length cs > 1" using arg_cong [OF eq, of length] assms(4) by (cases ks) auto
  ultimately show False using assms by (simp add: parent_check_def)
qed

text \<open>
  C28. A protected directory below the root keeps its listing: the checked insertion of an object, of a
  symbolic link or of a directory, whatever its path and whether or not it succeeds, changes no entry
  of the protected directory.
\<close>

theorem protected_directory_unchanged:
  assumes "dir_at root ks = Some d" and "dir_protected d" and "ks \<noteq> []"
  shows "entry_at (snd (keep root (ob_insert_object_checked path i root))) (ks @ [k]) = entry_at root (ks @ [k]) \<and>
    entry_at (snd (keep root (ob_insert_symlink_checked path target root))) (ks @ [k]) = entry_at root (ks @ [k]) \<and>
    entry_at (snd (ob_create_directory_checked path root)) (ks @ [k]) = entry_at root (ks @ [k])"
proof (cases "parent_check path root")
  case (Some e)
  then show ?thesis
    by (simp add: ob_insert_object_checked_def ob_insert_symlink_checked_def ob_create_directory_checked_def keep_def)
next
  case None
  note out = parent_check_protected [OF None assms]
  have "entry_at (snd (keep root (insert_object path i root))) (ks @ [k]) = entry_at root (ks @ [k])"
    using leaf_refines(1) by (rule spec_leaf_frame) (auto simp: spec_insert_def out)
  moreover have "entry_at (snd (keep root (at_leaf OB_INVALID_PATH (symlink_leaf target) path root))) (ks @ [k]) = entry_at root (ks @ [k])"
    using leaf_refines(4) by (rule spec_leaf_frame) (auto simp: spec_symlink_def out)
  then have "entry_at (snd (keep root (insert_symlink path target root))) (ks @ [k]) = entry_at root (ks @ [k])"
    by (auto simp: insert_symlink_def keep_def split: result.splits)
  moreover have "entry_at (snd (create_directory path root)) (ks @ [k]) = entry_at root (ks @ [k])"
  proof (cases "parse_path path = Ok []")
    case True
    then show ?thesis by (simp add: create_directory_def)
  next
    case False
    then have "map_prod id ns_view (create_directory path root) = spec_leaf OB_INVALID_PATH spec_mkdir path (ns_view root)"
      unfolding create_directory_refines by (auto split: result.split list.split)
    then show ?thesis by (rule spec_leaf_frame) (auto simp: spec_mkdir_def out)
  qed
  ultimately show ?thesis
    using None by (simp add: ob_insert_object_checked_def ob_insert_symlink_checked_def ob_create_directory_checked_def)
qed

definition device_ns :: DirectoryObject where
  "device_ns = (let d = snd (create_directory (ascii [CHR 0x5C, CHR ''d'']) ns_new)
     in snd (keep d (set_protected (ascii [CHR 0x5C, CHR ''d'']) True d)))"

theorem protected_directory_unchanged_witness:
  "(\<exists>d. dir_at device_ns [name_to_key (ascii ''d'')] = Some d \<and> dir_protected d) \<and>
   entry_at (snd (keep device_ns (ob_insert_object_checked (ascii [CHR 0x5C, CHR ''d'', CHR 0x5C, CHR ''x'']) 7 device_ns)))
     ([name_to_key (ascii ''d'')] @ [name_to_key (ascii ''x'')]) =
   entry_at device_ns ([name_to_key (ascii ''d'')] @ [name_to_key (ascii ''x'')])"
proof -
  have "map_option dir_protected (dir_at device_ns [name_to_key (ascii ''d'')]) = Some True" by code_simp
  then have "\<exists>d. dir_at device_ns [name_to_key (ascii ''d'')] = Some d \<and> dir_protected d" by auto
  then show ?thesis using protected_directory_unchanged [of device_ns "[name_to_key (ascii ''d'')]"] by fastforce
qed

section \<open>Normal forms\<close>

text \<open>A component that survives normalisation.\<close>

definition proper :: "bytes \<Rightarrow> bool" where
  "proper c \<longleftrightarrow> c \<noteq> [] \<and> SEP \<notin> set c"

lemma split_on_parts: "p \<in> set (split_on c s) \<Longrightarrow> c \<notin> set p"
  by (induction c s arbitrary: p rule: split_on.induct) (auto split: list.splits if_splits)

lemma norm_parts:
  assumes "\<forall>p\<in>set ps. SEP \<notin> set p" and "\<forall>p\<in>set out. proper p \<and> p \<noteq> ascii ''.'' \<and> p \<noteq> ascii ''..''"
  shows "p \<in> set (foldl norm_part out ps) \<Longrightarrow> proper p \<and> p \<noteq> ascii ''.'' \<and> p \<noteq> ascii ''..''"
  using assms
proof (induction ps arbitrary: out)
  case (Cons q ps)
  have "\<forall>p\<in>set (norm_part out q). proper p \<and> p \<noteq> ascii ''.'' \<and> p \<noteq> ascii ''..''"
    using Cons.prems by (auto simp: norm_part_def proper_def dest: in_set_butlastD)
  then show ?case using Cons by simp
qed simp

lemma split_on_joined:
  "proper c \<Longrightarrow> \<forall>x\<in>set cs. proper x \<Longrightarrow> split_on SEP (c @ joined cs) = c # cs"
proof (induction cs arbitrary: c)
  case Nil
  have "SEP \<notin> set c \<Longrightarrow> split_on SEP c = [c]" for c by (induction c) auto
  then show ?case using Nil by (simp add: joined_def proper_def)
next
  case (Cons x cs)
  have "SEP \<notin> set c \<Longrightarrow> split_on SEP (c @ SEP # s) = c # split_on SEP s" for c s by (induction c) auto
  then show ?case using Cons by (simp add: joined_def proper_def)
qed

lemma joined_snoc_last: "cs \<noteq> [] \<Longrightarrow> \<forall>x\<in>set cs. proper x \<Longrightarrow> last (joined cs) \<noteq> SEP"
proof -
  assume "cs \<noteq> []" and "\<forall>x\<in>set cs. proper x"
  then obtain cs' c where "cs = cs' @ [c]" and "c \<noteq> []" and "SEP \<notin> set c"
    by (cases cs rule: rev_cases) (auto simp: proper_def)
  moreover then have "last c \<noteq> SEP" using last_in_set [of c] by metis
  ultimately show ?thesis by (simp add: joined_def)
qed

lemma parse_prepare:
  assumes "\<forall>c\<in>set cs. proper c" and "cs \<noteq> []"
  shows "trim_end SEP (joined cs) = joined cs \<and> split_on SEP (drop 1 (joined cs)) = cs \<and> starts_with SEP (joined cs)"
proof -
  obtain c cs' where cs: "cs = c # cs'" using assms(2) by (cases cs) auto
  have "trim_end SEP (joined cs) = joined cs"
    using joined_snoc_last [OF assms(2,1)] by (cases "joined cs" rule: rev_cases) (auto simp: trim_end_def)
  then show ?thesis using split_on_joined [of c cs'] assms(1) by (simp add: cs joined_def starts_with_def)
qed

lemma upper_not_SEP: "b \<noteq> SEP \<Longrightarrow> to_ascii_upper b \<noteq> SEP"
proof
  assume "b \<noteq> SEP" and "to_ascii_upper b = SEP"
  then have "in_range 97 122 b" and "b = SEP + 32"
    by (auto simp: to_ascii_upper_def diff_eq_eq split: if_splits)
  then show False by (simp add: in_range_def SEP_def)
qed

text \<open>
  Joining components and parsing the result gives the components back, when they are proper names
  of at most 24 bytes and the path is at most 255 bytes long.
\<close>

lemma parse_path_joined:
  assumes "\<forall>c\<in>set cs. proper c \<and> length c \<le> MAX_NAME_LEN" and "cs \<noteq> []" and "length (joined cs) \<le> MAX_PATH_LEN"
  shows "parse_path (joined cs) = Ok cs"
proof -
  have "check_components ds = None" if "\<forall>c\<in>set ds. proper c \<and> length c \<le> MAX_NAME_LEN" for ds
    using that by (induction ds) (auto simp: proper_def)
  moreover have "length (joined cs) > 1" using assms(1,2) by (cases cs) (auto simp: joined_def proper_def)
  ultimately show ?thesis
    using assms parse_prepare [of cs] by (simp add: parse_path_def)
qed

lemma join_parts_eq:
  assumes "ps \<noteq> [] \<or> has_drive"
  shows "join_parts has_drive ps = (if has_drive then joined ps else tl (joined ps))"
proof -
  have gen: "concat (map (\<lambda>(i, p). (if i > 0 \<or> has_drive then SEP # p else p)) (enumerate n qs)) = joined qs"
    if "n > 0 \<or> has_drive" for n qs using that by (induction qs arbitrary: n) (auto simp: joined_def)
  show ?thesis
  proof (cases ps)
    case (Cons p ps')
    then show ?thesis using gen [of 0 ps] gen [of 1 ps'] by (cases has_drive) (auto simp: join_parts_def joined_def)
  qed (use assms in \<open>simp add: join_parts_def joined_def\<close>)
qed

lemma normalize_joined:
  assumes "take 2 path \<noteq> [SEP, 0x3A]"
  obtains "normalize_path path = [SEP]"
  | cs where "normalize_path path = joined cs" and "cs \<noteq> []"
      and "\<forall>c\<in>set cs. proper c \<and> c \<noteq> ascii ''.'' \<and> c \<noteq> ascii ''..''"
proof -
  let ?drive = "length path \<ge> 2 \<and> path ! 1 = 0x3A"
  let ?trimmed = "dropWhile (\<lambda>b. b = SEP) (if ?drive then drop 2 path else path)"
  let ?parts = "foldl norm_part [] (split_on SEP ?trimmed)"
  have parts: "\<forall>c\<in>set ?parts. proper c \<and> c \<noteq> ascii ''.'' \<and> c \<noteq> ascii ''..''"
    using norm_parts [of "split_on SEP ?trimmed" "[]"] split_on_parts by fastforce
  consider "path = [] \<or> ?trimmed = []" | "path \<noteq> []" "?trimmed \<noteq> []" "?drive" | "path \<noteq> []" "?trimmed \<noteq> []" "\<not> ?drive"
    by blast
  then show thesis
  proof cases
    case 1
    then show thesis using that(1) unfolding normalize_path_def Let_def by (cases "path = []") simp_all
  next
    case 2
    let ?d = "[to_ascii_upper (path ! 0), 0x3A]"
    have "path ! 0 \<noteq> SEP" using 2(3) assms by (cases path; cases "tl path") auto
    then have "proper ?d \<and> ?d \<noteq> ascii ''.'' \<and> ?d \<noteq> ascii ''..''"
      using upper_not_SEP by (auto simp: proper_def SEP_def ascii_def)
    moreover have "normalize_path path = joined (?d # ?parts)"
      using 2 join_parts_eq [of ?parts True] unfolding normalize_path_def Let_def by (simp add: joined_def)
    ultimately show thesis using parts that(2) [of "?d # ?parts"] by simp
  next
    case 3
    have n: "normalize_path path = SEP # join_parts False ?parts"
    proof -
      have "(?drive) = False" using 3(3) by simp
      then show ?thesis using 3(1,2) unfolding normalize_path_def Let_def by (simp only: if_False if_True append_Nil append_Cons refl)
    qed
    show thesis
    proof (cases "?parts = []")
      case True
      then have "normalize_path path = [SEP]" using n by (simp add: join_parts_def)
      then show thesis by (rule that(1))
    next
      case False
      then have "normalize_path path = joined ?parts"
        using n join_parts_eq [of ?parts False] by (cases ?parts) (auto simp: joined_def)
      then show thesis using parts False that(2) by blast
    qed
  qed
qed

text \<open>
  A normalised path is canonical: it never fails to parse as malformed, and its components are
  neither empty nor dot nor dot-dot, unless the input names the drive of a backslash.
\<close>

lemma normalize_path_canonical:
  assumes "take 2 path \<noteq> [SEP, 0x3A]"
  shows "case parse_path (normalize_path path) of
      Ok cs \<Rightarrow> ascii ''.'' \<notin> set cs \<and> ascii ''..'' \<notin> set cs \<and> [] \<notin> set cs
    | Err e \<Rightarrow> e = OB_PATH_TOO_LONG \<or> e = OB_NAME_TOO_LONG"
  using assms
proof (cases rule: normalize_joined)
  case 1
  then show ?thesis by (simp add: parse_path_def starts_with_def trim_end_def)
next
  case (2 cs)
  have split: "trim_end SEP (joined cs) = joined cs \<and> split_on SEP (drop 1 (joined cs)) = cs \<and> starts_with SEP (joined cs)"
    using parse_prepare [of cs] 2 by blast
  have "check_components ds = None \<or> check_components ds = Some OB_NAME_TOO_LONG" if "\<forall>c\<in>set ds. proper c" for ds
    using that by (induction ds) (auto simp: proper_def)
  then have "check_components cs = None \<or> check_components cs = Some OB_NAME_TOO_LONG" using 2 by blast
  moreover have "ascii ''.'' \<notin> set cs \<and> ascii ''..'' \<notin> set cs \<and> [] \<notin> set cs" using 2(3) by (auto simp: proper_def)
  moreover have "length (joined cs) > 1" using 2 by (cases cs) (auto simp: joined_def proper_def)
  ultimately show ?thesis using split unfolding parse_path_def Let_def 2(1) by auto
qed

end
