(* ===== verification/ObTable.thy ===== *)
theory ObTable
  imports IdIndex Security Namespace
begin

text \<open>
  The Object Manager (neodos-kernel/src/object: \<open>types.rs\<close>, \<open>table.rs\<close>, \<open>security.rs\<close> and the entry
  points of \<open>namespace/mod.rs\<close> that create objects): reference-counted objects in slots found through
  an id index, the security descriptors kept beside them, and opening an object by its path.

  The table, the namespace and the descriptors are one state \<open>ObMan\<close>. \<open>None\<close> is an operation that does
  not return (a probe loop of the index, or an out-of-range slot, which would panic). An \<open>ObOperations\<close>
  table is a number; what its \<open>on_destroy\<close> does is the parameter \<open>cb\<close>, applied to the state after the
  object is unlinked; the state may be extended by the components such callbacks work on. The overflow and underflow counters are left out.
\<close>

section \<open>Objects\<close>

datatype ObType = ObUnknown | ObProcess | ObDriver | ObDevice | ObPipe | ObEventBus | ObBlockDevice | ObFilesystem
  | ObMemoryRegion | ObSymlink | ObMountPoint | ObDirectory | ObKey | ObEvent | ObSemaphore | ObTimer | ObThread
  | ObSection | ObSocket | ObSession | ObService | ObPowerManager | ObKeyboardDevice

datatype ObError = ObNotFound | ObAlreadyExists | ObInvalidParam | ObRefCountHeld | ObOutOfMemory | ObAccessDenied
  | ObNotSupported | ObInvalidType | ObTableFull

abbreviation (input) OB_NAME_LEN :: nat where "OB_NAME_LEN \<equiv> 128"

record ObObject =
  ob_id :: u64
  ob_type :: ObType
  ob_name :: bytes
  ob_refcount :: u32
  ob_flags :: u32
  ob_native_id :: u64
  ob_ops :: "nat option"

definition ob_set_name :: "bytes \<Rightarrow> ObObject \<Rightarrow> ObObject" where
  "ob_set_name s ob = (let len = min (length s) (OB_NAME_LEN - 1)
     in ob \<lparr> ob_name := take len s @ 0 # drop (len + 1) (ob_name ob) \<rparr>)"

record ObTable =
  ot_slots :: "ObObject option list"
  ot_index :: IdIndex
  ot_count :: nat
  ot_next_id :: u64

definition ob_table_new :: ObTable where
  "ob_table_new = \<lparr> ot_slots = [], ot_index = idx_new, ot_count = 0, ot_next_id = 1 \<rparr>"

definition ob_create :: "ObType \<Rightarrow> bytes \<Rightarrow> u64 \<Rightarrow> u32 \<Rightarrow> nat option \<Rightarrow> ObTable \<Rightarrow> (u64 \<times> ObTable) option" where
  "ob_create obj_type name native_id flags ops t =
    (let i = ot_next_id t;
         object = ob_set_name name \<lparr> ob_id = i, ob_type = obj_type, ob_name = replicate OB_NAME_LEN 0, ob_refcount = 1,
                    ob_flags = flags, ob_native_id = native_id, ob_ops = ops \<rparr>;
         (slot_idx, slots) = (case position (\<lambda>s. s = None) (ot_slots t) of
             Some pos \<Rightarrow> (pos, (ot_slots t)[pos := Some object])
           | None \<Rightarrow> (length (ot_slots t), ot_slots t @ [Some object]))
     in map_option (\<lambda>ix. (i, \<lparr> ot_slots = slots, ot_index = ix, ot_count = ot_count t + 1, ot_next_id = i + 1 \<rparr>))
          (idx_insert (ot_index t) i slot_idx))"

definition ob_lookup :: "u64 \<Rightarrow> ObTable \<Rightarrow> ObObject option option" where
  "ob_lookup i t = map_option (\<lambda>r. case r of None \<Rightarrow> None
     | Some idx \<Rightarrow> if idx < length (ot_slots t) then ot_slots t ! idx else None) (idx_get (ot_index t) i)"

text \<open>An update through \<open>lookup_mut\<close>.\<close>

definition ob_modify :: "(ObObject \<Rightarrow> 'r \<times> ObObject) \<Rightarrow> u64 \<Rightarrow> ObTable \<Rightarrow> (('r, ObError) result \<times> ObTable) option" where
  "ob_modify f i t = map_option (\<lambda>r. case r of None \<Rightarrow> (Err ObNotFound, t)
     | Some idx \<Rightarrow> if idx < length (ot_slots t)
         then (case ot_slots t ! idx of None \<Rightarrow> (Err ObNotFound, t)
               | Some ob \<Rightarrow> (let (x, ob') = f ob in (Ok x, t \<lparr> ot_slots := (ot_slots t)[idx := Some ob'] \<rparr>)))
         else (Err ObNotFound, t)) (idx_get (ot_index t) i)"

definition ob_reference :: "u64 \<Rightarrow> ObTable \<Rightarrow> ((u32, ObError) result \<times> ObTable) option" where
  "ob_reference = ob_modify (\<lambda>ob. let n = saturating_add (ob_refcount ob) 1 in (n, ob \<lparr> ob_refcount := n \<rparr>))"

definition ob_dereference :: "u64 \<Rightarrow> ObTable \<Rightarrow> ((u32, ObError) result \<times> ObTable) option" where
  "ob_dereference = ob_modify (\<lambda>ob. let n = (if ob_refcount ob > 0 then ob_refcount ob - 1 else ob_refcount ob)
     in (n, ob \<lparr> ob_refcount := n \<rparr>))"

definition ob_set_object_name :: "bytes \<Rightarrow> u64 \<Rightarrow> ObTable \<Rightarrow> ((unit, ObError) result \<times> ObTable) option" where
  "ob_set_object_name name = ob_modify (\<lambda>ob. ((), ob_set_name name ob))"

definition ob_unlink :: "u64 \<Rightarrow> ObTable \<Rightarrow> ((nat option \<times> u64, ObError) result \<times> ObTable) option" where
  "ob_unlink i t = Option.bind (idx_get (ot_index t) i) (\<lambda>r. case r of
      None \<Rightarrow> Some (Err ObNotFound, t)
    | Some idx \<Rightarrow>
        if idx \<ge> length (ot_slots t) then None
        else let slot = ot_slots t ! idx;
                 refcount = (case slot of None \<Rightarrow> 0 | Some ob \<Rightarrow> ob_refcount ob)
             in if refcount > 1 then Some (Err ObRefCountHeld, t)
                else map_option (\<lambda>ix. (Ok (Option.bind slot ob_ops, case slot of None \<Rightarrow> 0 | Some ob \<Rightarrow> ob_native_id ob),
                    t \<lparr> ot_slots := (ot_slots t)[idx := None], ot_index := ix, ot_count := ot_count t - 1 \<rparr>))
                  (idx_remove (ot_index t) i))"

section \<open>The Object Manager\<close>

record ObMan =
  om_table :: ObTable
  om_security :: "u64 \<Rightarrow> SecurityDescriptor option"
  om_ns :: DirectoryObject

definition om_new :: ObMan where
  "om_new = \<lparr> om_table = ob_table_new, om_security = Map.empty, om_ns = ns_new \<rparr>"

text \<open>What the \<open>on_destroy\<close> of an operations table does, given the object's id and native id.\<close>

type_synonym 'z destroy_cb = "nat \<Rightarrow> u64 \<Rightarrow> u64 \<Rightarrow> 'z ObMan_scheme \<Rightarrow> 'z ObMan_scheme option"

text \<open>An operation of the table alone.\<close>

definition on_table :: "(ObTable \<Rightarrow> ('r \<times> ObTable) option) \<Rightarrow> 'z ObMan_scheme \<Rightarrow> ('r \<times> 'z ObMan_scheme) option" where
  "on_table f m = map_option (\<lambda>(r, t). (r, m \<lparr> om_table := t \<rparr>)) (f (om_table m))"

definition ob_create_object :: "ObType \<Rightarrow> bytes \<Rightarrow> u64 \<Rightarrow> u32 \<Rightarrow> nat option \<Rightarrow> 'z ObMan_scheme \<Rightarrow> (u64 \<times> 'z ObMan_scheme) option" where
  "ob_create_object obj_type name native_id flags ops = on_table (ob_create obj_type name native_id flags ops)"

text \<open>\<open>take_for_destroy\<close> also drops the security descriptor.\<close>

definition take_for_destroy :: "u64 \<Rightarrow> 'z ObMan_scheme \<Rightarrow> ((nat option \<times> u64, ObError) result \<times> 'z ObMan_scheme) option" where
  "take_for_destroy i m = map_option (\<lambda>(r, m'). (r, case r of Err _ \<Rightarrow> m'
     | Ok _ \<Rightarrow> m' \<lparr> om_security := (om_security m')(i := None) \<rparr>)) (on_table (ob_unlink i) m)"

text \<open>The second phase of closing and destroying: the callback, then the stale namespace entry.\<close>

definition finish_destroy ::
  "'z destroy_cb \<Rightarrow> u64 \<Rightarrow> nat option \<times> u64 \<Rightarrow> 'z ObMan_scheme \<Rightarrow> 'z ObMan_scheme option" where
  "finish_destroy cb i r m = map_option (\<lambda>m1. m1 \<lparr> om_ns := snd (ob_remove_by_id i (om_ns m1)) \<rparr>)
     (case fst r of None \<Rightarrow> Some m | Some ops \<Rightarrow> cb ops i (snd r) m)"

definition ob_destroy_object ::
  "'z destroy_cb \<Rightarrow> u64 \<Rightarrow> 'z ObMan_scheme \<Rightarrow> ((unit, ObError) result \<times> 'z ObMan_scheme) option" where
  "ob_destroy_object cb i m = Option.bind (take_for_destroy i m) (\<lambda>(r, m'). case r of
      Err e \<Rightarrow> Some (Err e, m') | Ok x \<Rightarrow> map_option (Pair (Ok ())) (finish_destroy cb i x m'))"

definition ob_close_object ::
  "'z destroy_cb \<Rightarrow> u64 \<Rightarrow> 'z ObMan_scheme \<Rightarrow> ((unit, ObError) result \<times> 'z ObMan_scheme) option" where
  "ob_close_object cb i m = Option.bind (on_table (ob_dereference i) m) (\<lambda>(r, m1). case r of
      Err e \<Rightarrow> Some (Err e, m1)
    | Ok cnt \<Rightarrow> if cnt > 0 then Some (Ok (), m1) else ob_destroy_object cb i m1)"

definition ob_open_object :: "u64 \<Rightarrow> 'z ObMan_scheme \<Rightarrow> ((unit, ObError) result \<times> 'z ObMan_scheme) option" where
  "ob_open_object i m = map_option (\<lambda>(r, m'). (case r of Err e \<Rightarrow> Err e | Ok _ \<Rightarrow> Ok (), m')) (on_table (ob_reference i) m)"

definition ob_set_security :: "u64 \<Rightarrow> SecurityDescriptor \<Rightarrow> 'z ObMan_scheme \<Rightarrow> ((unit, ObError) result \<times> 'z ObMan_scheme) option" where
  "ob_set_security i sd m = map_option (\<lambda>r. case r of
      None \<Rightarrow> (Err ObNotFound, m)
    | Some ob \<Rightarrow> (Ok (), m \<lparr> om_security := (om_security m)(i \<mapsto> sd) \<rparr>)) (ob_lookup i (om_table m))"

text \<open>The base type entries of \<open>init_object_manager\<close>.\<close>

definition base_entries :: "(ObType \<times> bytes \<times> u64) list" where
  "base_entries = [(ObDirectory, [SEP], 0), (ObProcess, ascii ''Process'', 1), (ObDriver, ascii ''Driver'', 2),
     (ObDevice, ascii ''Device'', 3), (ObPipe, ascii ''Pipe'', 4), (ObFilesystem, ascii ''Filesystem'', 5),
     (ObDirectory, ascii ''Directory'', 6), (ObKey, ascii ''Key'', 7), (ObEvent, ascii ''Event'', 8),
     (ObMemoryRegion, ascii ''MemoryRegion'', 9), (ObSection, ascii ''Section'', 10), (ObSocket, ascii ''Socket'', 11)]"

fun create_entries :: "(ObType \<times> bytes \<times> u64) list \<Rightarrow> 'z ObMan_scheme \<Rightarrow> 'z ObMan_scheme option" where
  "create_entries [] m = Some m"
| "create_entries ((ty, name, native) # es) m =
    Option.bind (ob_create_object ty name native 0 None m) (\<lambda>(i, m'). create_entries es m')"

definition init_object_manager :: "'z ObMan_scheme \<Rightarrow> 'z ObMan_scheme option" where
  "init_object_manager = create_entries base_entries"

section \<open>Namespace entry points that use the table\<close>

definition keep_ns :: "('r \<times> DirectoryObject, ns_error) result \<Rightarrow> 'z ObMan_scheme \<Rightarrow> ('r, ns_error) result \<times> 'z ObMan_scheme" where
  "keep_ns r m = (case r of Ok (x, d) \<Rightarrow> (Ok x, m \<lparr> om_ns := d \<rparr>) | Err e \<Rightarrow> (Err e, m))"

definition root_dirs :: "string list" where
  "root_dirs = [''Device'', ''DosDevices'', ''Global'', ''Driver'', ''FileSystem'', ''Ob'', ''Registry'', ''System'', ''Process'']"

definition FS_PREFIX :: bytes where "FS_PREFIX = joined [ascii ''Global'', ascii ''FileSystem'']"

definition init_object_namespace :: "'z ObMan_scheme \<Rightarrow> 'z ObMan_scheme option" where
  "init_object_namespace m =
    (let mk = (\<lambda>d path. snd (create_directory path d));
         d1 = foldl mk (om_ns m) (map (\<lambda>s. SEP # ascii s) root_dirs);
         d2 = mk d1 FS_PREFIX;
         d3 = foldl (\<lambda>d path. snd (keep d (set_protected path True d))) d2 (map (\<lambda>s. SEP # ascii s) root_dirs)
     in Option.bind (create_entries (map (\<lambda>s. (ObDirectory, ascii s, 0)) root_dirs @ [(ObDirectory, tl FS_PREFIX, 0)])
          (m \<lparr> om_ns := d3 \<rparr>)) (\<lambda>m1.
        Option.bind (ob_create_object ObDirectory [SEP] 0 0 None m1) (\<lambda>(root_id, m2).
          Some (if root_id \<noteq> 0 then snd (keep_ns (insert_object [SEP] root_id (om_ns m2)) m2) else m2))))"

definition obj_type_to_auto_path :: "ObType \<Rightarrow> bytes \<Rightarrow> bytes" where
  "obj_type_to_auto_path ty name = joined (map ascii (case ty of
      ObProcess \<Rightarrow> [''Ob'', ''Process''] | ObDriver \<Rightarrow> [''Driver''] | ObPipe \<Rightarrow> [''Ob'', ''Pipe'']
    | ObDevice \<Rightarrow> [''Device''] | ObBlockDevice \<Rightarrow> [''Device''] | ObEventBus \<Rightarrow> [''Global'', ''EventBus'']
    | ObFilesystem \<Rightarrow> [''FileSystem''] | ObMemoryRegion \<Rightarrow> [''Ob'', ''Memory''] | ObSymlink \<Rightarrow> [''Ob'', ''Symlink'']
    | ObMountPoint \<Rightarrow> [''Global'', ''Mount''] | ObDirectory \<Rightarrow> [''Ob'', ''Dir''] | ObSocket \<Rightarrow> [''Ob'', ''Socket'']
    | _ \<Rightarrow> [''Ob'', ''Unknown''])) @ SEP # name"

definition ob_insert_object_auto :: "ObType \<Rightarrow> bytes \<Rightarrow> u64 \<Rightarrow> 'z ObMan_scheme \<Rightarrow> (unit, ns_error) result \<times> 'z ObMan_scheme" where
  "ob_insert_object_auto ty name i m =
    (let path = obj_type_to_auto_path ty name;
         d = (case parse_path path of
               Ok comps \<Rightarrow> if length comps > 1 then snd (create_dir_internal (om_ns m) (butlast comps)) else om_ns m
             | Err e \<Rightarrow> om_ns m)
     in keep_ns (insert_object path i d) (m \<lparr> om_ns := d \<rparr>))"

definition ob_remove_object_auto :: "ObType \<Rightarrow> bytes \<Rightarrow> 'z ObMan_scheme \<Rightarrow> 'z ObMan_scheme" where
  "ob_remove_object_auto ty name m = snd (keep_ns (remove_object (obj_type_to_auto_path ty name) (om_ns m)) m)"

text \<open>\<open>enumerate\<close>: the subdirectories, then the objects with their type numbers, names cut to 31 bytes.\<close>

definition obtype_number :: "ObType \<Rightarrow> u32" where
  "obtype_number ty = (case ty of ObUnknown \<Rightarrow> 0 | ObProcess \<Rightarrow> 1 | ObDriver \<Rightarrow> 2 | ObDevice \<Rightarrow> 3 | ObPipe \<Rightarrow> 4
     | ObEventBus \<Rightarrow> 5 | ObBlockDevice \<Rightarrow> 6 | ObFilesystem \<Rightarrow> 7 | ObMemoryRegion \<Rightarrow> 8 | ObSymlink \<Rightarrow> 9 | ObMountPoint \<Rightarrow> 10
     | ObDirectory \<Rightarrow> 11 | ObKey \<Rightarrow> 12 | ObEvent \<Rightarrow> 13 | ObSemaphore \<Rightarrow> 14 | ObTimer \<Rightarrow> 15 | ObThread \<Rightarrow> 16 | ObSection \<Rightarrow> 17
     | ObSocket \<Rightarrow> 18 | ObSession \<Rightarrow> 19 | ObService \<Rightarrow> 20 | ObPowerManager \<Rightarrow> 21 | ObKeyboardDevice \<Rightarrow> 22)"

record NamespaceEntry =
  ne_name :: bytes
  ne_type :: u32
  ne_id :: u64

abbreviation (input) name32 :: "bytes \<Rightarrow> bytes" where
  "name32 s \<equiv> (let len = min (length s) 31 in take len s @ replicate (32 - len) 0)"

fun enum_children :: "ObTable \<Rightarrow> (key \<times> u64) list \<Rightarrow> NamespaceEntry list option" where
  "enum_children t [] = Some []"
| "enum_children t ((k, i) # cs) = Option.bind (ob_lookup i t) (\<lambda>r.
    map_option (Cons \<lparr> ne_name = name32 (key_to_str k),
        ne_type = (case r of None \<Rightarrow> 0 | Some ob \<Rightarrow> obtype_number (ob_type ob)), ne_id = i \<rparr>) (enum_children t cs))"

definition ns_enumerate :: "bytes \<Rightarrow> 'z ObMan_scheme \<Rightarrow> (NamespaceEntry list, ns_error) result option" where
  "ns_enumerate path m = (case parse_path path of
      Err e \<Rightarrow> Some (Err e)
    | Ok components \<Rightarrow> (case dir_at (om_ns m) (map name_to_key components) of
        None \<Rightarrow> Some (Err OB_NOT_FOUND)
      | Some d \<Rightarrow> map_option (\<lambda>objs. Ok (map (\<lambda>(k, s). \<lparr> ne_name = name32 (key_to_str (dir_name s)),
            ne_type = obtype_number ObDirectory, ne_id = 0 \<rparr>) (dir_subs d) @ objs))
          (enum_children (om_table m) (dir_children d))))"

text \<open>
  \<open>ob_open_path\<close>. The file system is the parameter \<open>vfs\<close>: what \<open>vfs.resolve_path\<close> gives for a path
  with a drive letter, its drive, inode and directory flag.
\<close>

definition access_ok :: "Token \<Rightarrow> u64 \<Rightarrow> u32 \<Rightarrow> 'z ObMan_scheme \<Rightarrow> bool" where
  "access_ok token i desired m = fst (se_access_check False token (om_security m i) desired)"

definition reference_id :: "u64 \<Rightarrow> 'z ObMan_scheme \<Rightarrow> ((u64, ObError) result \<times> 'z ObMan_scheme) option" where
  "reference_id i m = map_option (\<lambda>(r, m'). (case r of Err e \<Rightarrow> Err e | Ok _ \<Rightarrow> Ok i, m')) (on_table (ob_reference i) m)"

definition open_directory ::
  "'z destroy_cb \<Rightarrow> bytes \<Rightarrow> Token \<Rightarrow> u32 \<Rightarrow> 'z ObMan_scheme \<Rightarrow> ((u64, ObError) result \<times> 'z ObMan_scheme) option" where
  "open_directory cb path token desired m =
    Option.bind (ob_create_object ObDirectory path 0 0 None m) (\<lambda>(dir_id, m1).
    Option.bind (case insert_object path dir_id (om_ns m1) of
        Ok (_, d) \<Rightarrow> Some (Ok dir_id, m1 \<lparr> om_ns := d \<rparr>)
      | Err _ \<Rightarrow> Option.bind (ob_destroy_object cb dir_id m1) (\<lambda>(_, m2).
          Some (case lookup_path path (om_ns m2) of Ok i \<Rightarrow> Ok i | Err _ \<Rightarrow> Err ObNotFound, m2))) (\<lambda>(r, m3).
      case r of
        Err e \<Rightarrow> Some (Err e, m3)
      | Ok i \<Rightarrow> if access_ok token i desired m3 then reference_id i m3
                 else map_option (\<lambda>(_, m4). (Err ObAccessDenied, m4)) (ob_destroy_object cb i m3)))"

definition open_file ::
  "(bytes \<Rightarrow> (u8 \<times> u32 \<times> bool) option) \<Rightarrow> bytes \<Rightarrow> 'z ObMan_scheme \<Rightarrow> ((u64, ObError) result \<times> 'z ObMan_scheme) option" where
  "open_file vfs path m =
    (if take (length FS_PREFIX + 1) path = FS_PREFIX @ [SEP]
     then let vfs_path = drop (length FS_PREFIX + 1) path
          in if vfs_path \<noteq> [] \<and> 0x3A \<in> set vfs_path
             then (case vfs vfs_path of
                 None \<Rightarrow> Some (Err ObNotFound, m)
               | Some (drive, inode, is_dir) \<Rightarrow>
                   Option.bind (ob_create_object (if is_dir then ObDirectory else ObFilesystem) path (ucast inode) (ucast drive) (Some 0) m)
                     (\<lambda>(i, m1). reference_id i m1))
             else Some (Err ObNotFound, m)
     else Some (Err ObNotFound, m))"

definition open_fallback ::
  "'z destroy_cb \<Rightarrow> (bytes \<Rightarrow> (u8 \<times> u32 \<times> bool) option) \<Rightarrow> bytes \<Rightarrow> Token \<Rightarrow> u32 \<Rightarrow> 'z ObMan_scheme
    \<Rightarrow> ((u64, ObError) result \<times> 'z ObMan_scheme) option" where
  "open_fallback cb vfs path token desired m =
    (if take (length FS_PREFIX + 1) path \<noteq> FS_PREFIX @ [SEP] \<and> is_directory path (om_ns m)
     then open_directory cb path token desired m else open_file vfs path m)"

definition ob_open_path ::
  "'z destroy_cb \<Rightarrow> (bytes \<Rightarrow> (u8 \<times> u32 \<times> bool) option) \<Rightarrow> bytes \<Rightarrow> Token \<Rightarrow> u32 \<Rightarrow> 'z ObMan_scheme
    \<Rightarrow> ((u64, ObError) result \<times> 'z ObMan_scheme) option" where
  "ob_open_path cb vfs path token desired m = (case lookup_path path (om_ns m) of
      Ok i \<Rightarrow> Option.bind (ob_lookup i (om_table m)) (\<lambda>r. case r of
          Some ob \<Rightarrow> if access_ok token i desired m then reference_id i m else Some (Err ObAccessDenied, m)
        | None \<Rightarrow> open_fallback cb vfs path token desired (snd (keep_ns (remove_object path (om_ns m)) m)))
    | Err _ \<Rightarrow> open_fallback cb vfs path token desired m)"

section \<open>The table is a map\<close>

text \<open>
  \<open>ob_inv n\<close>: the index and the slots describe each other, ids have been handed out in order, and \<open>n\<close>
  more objects can be created before the 64-bit id counter reaches the index's reserved key.
\<close>

definition ob_inv :: "nat \<Rightarrow> ObTable \<Rightarrow> bool" where
  "ob_inv n t \<longleftrightarrow> idx_inv (ot_index t) \<and> 0 < unat (ot_next_id t) \<and> unat (ot_next_id t) + n < 2 ^ 64 \<and>
    (\<forall>i idx. idx_map (ot_index t) i = Some idx \<longrightarrow>
       idx < length (ot_slots t) \<and> (\<exists>ob. ot_slots t ! idx = Some ob \<and> ob_id ob = i) \<and> unat i < unat (ot_next_id t)) \<and>
    (\<forall>idx ob. idx < length (ot_slots t) \<longrightarrow> ot_slots t ! idx = Some ob \<longrightarrow> idx_map (ot_index t) (ob_id ob) = Some idx)"

definition ob_map :: "ObTable \<Rightarrow> u64 \<Rightarrow> ObObject option" where
  "ob_map t i = (case idx_map (ot_index t) i of None \<Rightarrow> None | Some idx \<Rightarrow> ot_slots t ! idx)"

definition ob_abs :: "ObTable \<Rightarrow> (u64 \<Rightarrow> ObObject option) \<times> u64" where
  "ob_abs t = (ob_map t, ot_next_id t)"

lemma ob_invD:
  assumes "ob_inv n t"
  shows "idx_inv (ot_index t)" and "0 < unat (ot_next_id t)" and "unat (ot_next_id t) + n < 2 ^ 64"
    and "idx_map (ot_index t) i = Some idx \<Longrightarrow> idx < length (ot_slots t)"
    and "idx_map (ot_index t) i = Some idx \<Longrightarrow> \<exists>ob. ot_slots t ! idx = Some ob \<and> ob_id ob = i"
    and "idx_map (ot_index t) i = Some idx \<Longrightarrow> unat i < unat (ot_next_id t)"
    and "idx < length (ot_slots t) \<Longrightarrow> ot_slots t ! idx = Some ob \<Longrightarrow> idx_map (ot_index t) (ob_id ob) = Some idx"
  using assms unfolding ob_inv_def by blast+

lemma ob_invI:
  assumes "idx_inv (ot_index t)" and "0 < unat (ot_next_id t)" and "unat (ot_next_id t) + n < 2 ^ 64"
    and "\<And>i idx. idx_map (ot_index t) i = Some idx \<Longrightarrow>
       idx < length (ot_slots t) \<and> (\<exists>ob. ot_slots t ! idx = Some ob \<and> ob_id ob = i) \<and> unat i < unat (ot_next_id t)"
    and "\<And>idx ob. idx < length (ot_slots t) \<Longrightarrow> ot_slots t ! idx = Some ob \<Longrightarrow> idx_map (ot_index t) (ob_id ob) = Some idx"
  shows "ob_inv n t"
  using assms unfolding ob_inv_def by blast

lemma TOMBSTONE_unat: "unat TOMBSTONE = 2 ^ 64 - 1"
  by (simp add: TOMBSTONE_def)

lemma live_iff: "idx_live i \<longleftrightarrow> 0 < unat i \<and> unat i < 2 ^ 64 - 1"
proof -
  have "i = TOMBSTONE \<longleftrightarrow> unat i = 2 ^ 64 - 1" using TOMBSTONE_unat word_unat_eq_iff [of i TOMBSTONE] by argo
  moreover have "i = EMPTY \<longleftrightarrow> unat i = 0" by (simp add: EMPTY_def unat_eq_0)
  moreover have "unat i < 2 ^ 64" using unat_bound [of i] by simp
  ultimately show ?thesis unfolding idx_live_def by linarith
qed

lemma idx_get_any: "ob_inv n t \<Longrightarrow> i \<noteq> TOMBSTONE \<Longrightarrow> idx_get (ot_index t) i = Some (idx_map (ot_index t) i)"
  by (simp add: idx_get_map ob_invD(1))

lemma ob_map_id: "ob_inv n t \<Longrightarrow> ob_map t i = Some ob \<Longrightarrow> ob_id ob = i"
  using ob_invD(5) [of n t i] by (auto simp: ob_map_def split: option.splits)

lemma ob_map_Some: "ob_inv n t \<Longrightarrow> idx_map (ot_index t) i = Some idx \<Longrightarrow> \<exists>ob. ob_map t i = Some ob \<and> ot_slots t ! idx = Some ob \<and> ob_id ob = i"
  using ob_invD(5) [of n t i idx] by (auto simp: ob_map_def)

lemma ob_map_None: "ob_inv n t \<Longrightarrow> ob_map t i = None \<longleftrightarrow> idx_map (ot_index t) i = None"
  using ob_map_Some [of n t i] by (cases "idx_map (ot_index t) i") (auto simp: ob_map_def)

lemma ob_lookup_map: "ob_inv n t \<Longrightarrow> i \<noteq> TOMBSTONE \<Longrightarrow> ob_lookup i t = Some (ob_map t i)"
  using ob_invD(4) [of n t i] by (auto simp: ob_lookup_def idx_get_any ob_map_def split: option.splits)

lemma ob_inv_mono: "ob_inv (Suc n) t \<Longrightarrow> ob_inv n t"
  by (auto simp: ob_inv_def)

text \<open>Updating one object in place.\<close>

lemma ob_modify_map:
  assumes inv: "ob_inv n t" and "i \<noteq> TOMBSTONE" and keep_id: "\<And>ob. ob_id (snd (f ob)) = ob_id ob"
  shows "\<exists>r t'. ob_modify f i t = Some (r, t') \<and> ob_inv n t' \<and> ot_next_id t' = ot_next_id t \<and>
    (case ob_map t i of None \<Rightarrow> r = Err ObNotFound \<and> ob_map t' = ob_map t
     | Some ob \<Rightarrow> r = Ok (fst (f ob)) \<and> ob_map t' = (ob_map t)(i \<mapsto> snd (f ob)))"
proof (cases "idx_map (ot_index t) i")
  case None
  then show ?thesis using inv by (simp add: ob_modify_def idx_get_any [OF inv assms(2)] ob_map_def)
next
  case (Some idx)
  obtain ob where ob: "ob_map t i = Some ob" "ot_slots t ! idx = Some ob" "ob_id ob = i" using ob_map_Some [OF inv Some] by blast
  let ?t = "t \<lparr> ot_slots := (ot_slots t)[idx := Some (snd (f ob))] \<rparr>"
  have idx: "idx < length (ot_slots t)" using ob_invD(4) [OF inv Some] .
  have uniq: "j = i" if "idx_map (ot_index t) j = Some idx" for j using ob_invD(5) [OF inv that] ob(2,3) by auto
  have "ob_inv n ?t"
  proof (rule ob_invI)
    fix j k
    assume j: "idx_map (ot_index ?t) j = Some k"
    then have "k < length (ot_slots t)" "unat j < unat (ot_next_id t)" "\<exists>ob. ot_slots t ! k = Some ob \<and> ob_id ob = j"
      using ob_invD(4,5,6) [OF inv, of j k] by simp_all
    then show "k < length (ot_slots ?t) \<and> (\<exists>ob. ot_slots ?t ! k = Some ob \<and> ob_id ob = j) \<and> unat j < unat (ot_next_id ?t)"
      using j uniq [of j] ob(3) keep_id [of ob] by (cases "k = idx") auto
  next
    fix k ob'
    assume "k < length (ot_slots ?t)" "ot_slots ?t ! k = Some ob'"
    then show "idx_map (ot_index ?t) (ob_id ob') = Some k"
      using ob_invD(7) [OF inv, of k ob'] Some ob(3) keep_id [of ob] by (cases "k = idx") auto
  qed (use ob_invD(1-3) [OF inv] in simp_all)
  moreover have "ob_map ?t = (ob_map t)(i \<mapsto> snd (f ob))"
  proof
    fix j
    show "ob_map ?t j = ((ob_map t)(i \<mapsto> snd (f ob))) j"
      using idx Some uniq [of j] ob_invD(4) [OF inv, of j] by (cases "idx_map (ot_index t) j") (auto simp: ob_map_def nth_list_update)
  qed
  moreover have "ob_modify f i t = Some (Ok (fst (f ob)), ?t)"
    using Some idx ob by (simp add: ob_modify_def idx_get_any [OF inv assms(2)] case_prod_beta)
  ultimately show ?thesis using ob(1) by simp
qed

definition fresh_object :: "u64 \<Rightarrow> ObType \<Rightarrow> bytes \<Rightarrow> u64 \<Rightarrow> u32 \<Rightarrow> nat option \<Rightarrow> ObObject" where
  "fresh_object i obj_type name native_id flags ops =
    ob_set_name name \<lparr> ob_id = i, ob_type = obj_type, ob_name = replicate OB_NAME_LEN 0, ob_refcount = 1,
      ob_flags = flags, ob_native_id = native_id, ob_ops = ops \<rparr>"

lemma ob_set_name_id [simp]:
  "ob_id (ob_set_name s ob) = ob_id ob" "ob_refcount (ob_set_name s ob) = ob_refcount ob"
  by (simp_all add: ob_set_name_def Let_def)

lemma fresh_object_id [simp]: "ob_id (fresh_object i ty name nid fl ops) = i"
  by (simp add: fresh_object_def)

text \<open>The slot a new object goes to was free, and no other slot changes.\<close>

lemma place_object:
  obtains idx xs' where "(case position (\<lambda>s. s = None) xs of Some pos \<Rightarrow> (pos, xs[pos := Some ob]) | None \<Rightarrow> (length xs, xs @ [Some ob])) = (idx, xs')"
    and "idx < length xs'" and "xs' ! idx = Some ob" and "idx < length xs \<Longrightarrow> xs ! idx = None"
    and "\<And>k. k \<noteq> idx \<Longrightarrow> k < length xs' \<longleftrightarrow> k < length xs" and "\<And>k. k \<noteq> idx \<Longrightarrow> k < length xs \<Longrightarrow> xs' ! k = xs ! k"
proof (cases "position (\<lambda>s. s = None) xs")
  case None
  then show thesis by (intro that [of "length xs" "xs @ [Some ob]"]) (auto simp: nth_append less_Suc_eq)
next
  case (Some pos)
  then show thesis using position_SomeD [OF Some] by (intro that [of pos "xs[pos := Some ob]"]) auto
qed

lemma ob_create_map:
  assumes inv: "ob_inv (Suc n) t"
  shows "\<exists>t'. ob_create ty name nid fl ops t = Some (ot_next_id t, t') \<and> ob_inv n t' \<and> ot_next_id t' = ot_next_id t + 1 \<and>
    ob_map t (ot_next_id t) = None \<and> ob_map t' = (ob_map t)(ot_next_id t \<mapsto> fresh_object (ot_next_id t) ty name nid fl ops)"
proof -
  let ?i = "ot_next_id t" and ?ob = "fresh_object (ot_next_id t) ty name nid fl ops"
  have next_bound: "unat ?i + Suc n < 2 ^ 64" "0 < unat ?i" using ob_invD(2,3) [OF inv] by simp_all
  then have live: "idx_live ?i" by (simp add: live_iff)
  have new: "idx_map (ot_index t) ?i = None"
    using ob_invD(6) [OF inv, of ?i] by (cases "idx_map (ot_index t) ?i") auto
  have succ: "unat (?i + 1) = unat ?i + 1" using next_bound unat_add_no_wrap [of ?i 1] by simp
  obtain idx xs where pl: "(case position (\<lambda>s. s = None) (ot_slots t) of Some pos \<Rightarrow> (pos, (ot_slots t)[pos := Some ?ob])
        | None \<Rightarrow> (length (ot_slots t), ot_slots t @ [Some ?ob])) = (idx, xs)"
      "idx < length xs" "xs ! idx = Some ?ob" "idx < length (ot_slots t) \<Longrightarrow> ot_slots t ! idx = None"
      "\<And>k. k \<noteq> idx \<Longrightarrow> k < length xs \<longleftrightarrow> k < length (ot_slots t)" "\<And>k. k \<noteq> idx \<Longrightarrow> k < length (ot_slots t) \<Longrightarrow> xs ! k = ot_slots t ! k"
    by (rule place_object [of "ot_slots t" ?ob]) blast
  obtain ix where ix: "idx_inv ix" "idx_map ix = (idx_map (ot_index t))(?i \<mapsto> idx)" "idx_insert (ot_index t) ?i idx = Some ix"
    using idx_insert_fresh [OF ob_invD(1) [OF inv] live new, of idx] by blast
  let ?t = "\<lparr> ot_slots = xs, ot_index = ix, ot_count = ot_count t + 1, ot_next_id = ?i + 1 \<rparr>"
  have other: "k \<noteq> idx" if "idx_map (ot_index t) j = Some k" for j k
    using ob_invD(4,5) [OF inv that] pl(4) by auto
  have "ob_inv n ?t"
  proof (rule ob_invI)
    fix j k assume j: "idx_map (ot_index ?t) j = Some k"
    show "k < length (ot_slots ?t) \<and> (\<exists>ob. ot_slots ?t ! k = Some ob \<and> ob_id ob = j) \<and> unat j < unat (ot_next_id ?t)"
    proof (cases "j = ?i")
      case False
      then have j': "idx_map (ot_index t) j = Some k" using j ix(2) by simp
      then show ?thesis using ob_invD(4-6) [OF inv j'] pl(5,6) [OF other [OF j']] succ by simp
    qed (use j ix(2) pl(2,3) succ in simp)
  next
    fix k ob assume k: "k < length (ot_slots ?t)" "ot_slots ?t ! k = Some ob"
    show "idx_map (ot_index ?t) (ob_id ob) = Some k"
    proof (cases "k = idx")
      case False
      then have "idx_map (ot_index t) (ob_id ob) = Some k" using k pl(5,6) [OF False] ob_invD(7) [OF inv, of k ob] by simp
      then show ?thesis using new ix(2) by auto
    qed (use k pl(3) ix(2) in auto)
  qed (use ix next_bound succ in simp_all)
  moreover have "ob_map ?t = (ob_map t)(?i \<mapsto> ?ob)"
  proof
    fix j show "ob_map ?t j = ((ob_map t)(?i \<mapsto> ?ob)) j"
      using ix(2) pl(3) pl(6) other [of j] ob_invD(4) [OF inv, of j]
      by (cases "idx_map (ot_index t) j") (auto simp: ob_map_def)
  qed
  moreover have "ob_create ty name nid fl ops t = Some (?i, ?t)"
    unfolding ob_create_def Let_def fresh_object_def [symmetric] pl(1) using ix(3) by simp
  ultimately show ?thesis using new ob_map_None [OF inv, of ?i] by simp
qed

lemma ob_unlink_map:
  assumes inv: "ob_inv n t" and "i \<noteq> TOMBSTONE"
  shows "\<exists>r t'. ob_unlink i t = Some (r, t') \<and> ob_inv n t' \<and> ot_next_id t' = ot_next_id t \<and>
    (case ob_map t i of None \<Rightarrow> r = Err ObNotFound \<and> ob_map t' = ob_map t
     | Some ob \<Rightarrow> if ob_refcount ob > 1 then r = Err ObRefCountHeld \<and> ob_map t' = ob_map t
         else r = Ok (ob_ops ob, ob_native_id ob) \<and> ob_map t' = (ob_map t)(i := None))"
proof (cases "idx_map (ot_index t) i")
  case None
  then show ?thesis using inv by (simp add: ob_unlink_def idx_get_any [OF assms] ob_map_def)
next
  case (Some idx)
  obtain ob where ob: "ob_map t i = Some ob" "ot_slots t ! idx = Some ob" "ob_id ob = i" using ob_map_Some [OF inv Some] by blast
  have idx: "idx < length (ot_slots t)" using ob_invD(4) [OF inv Some] .
  have uniq: "j = i" if "idx_map (ot_index t) j = Some idx" for j using ob_invD(5) [OF inv that] ob(2,3) by auto
  show ?thesis
  proof (cases "ob_refcount ob > 1")
    case True
    then show ?thesis using inv Some idx ob by (simp add: ob_unlink_def idx_get_any [OF assms])
  next
    case False
    have "idx_live i" using Some idx_map_dead [of i] by fastforce
    then obtain ix where ix: "idx_remove (ot_index t) i = Some ix" "idx_inv ix" "idx_map ix = (idx_map (ot_index t))(i := None)"
      using idx_remove_map [OF ob_invD(1) [OF inv]] by blast
    let ?t = "t \<lparr> ot_slots := (ot_slots t)[idx := None], ot_index := ix, ot_count := ot_count t - 1 \<rparr>"
    have "ob_inv n ?t"
    proof (rule ob_invI)
      fix j k assume "idx_map (ot_index ?t) j = Some k"
      then have j: "idx_map (ot_index t) j = Some k" "j \<noteq> i" using ix(3) by (auto split: if_splits)
      then have "k \<noteq> idx" using uniq by blast
      then show "k < length (ot_slots ?t) \<and> (\<exists>ob. ot_slots ?t ! k = Some ob \<and> ob_id ob = j) \<and> unat j < unat (ot_next_id ?t)"
        using ob_invD(4-6) [OF inv j(1)] by simp
    next
      fix k ob' assume k: "k < length (ot_slots ?t)" "ot_slots ?t ! k = Some ob'"
      then have "k \<noteq> idx" using idx by auto
      then have "idx_map (ot_index t) (ob_id ob') = Some k" using k ob_invD(7) [OF inv, of k ob'] by simp
      then show "idx_map (ot_index ?t) (ob_id ob') = Some k" using ix(3) Some \<open>k \<noteq> idx\<close> by auto
    qed (use ob_invD(2,3) [OF inv] ix(2) in simp_all)
    moreover have "ob_map ?t = (ob_map t)(i := None)"
    proof
      fix j show "ob_map ?t j = ((ob_map t)(i := None)) j"
      proof (cases "idx_map (ot_index t) j = Some idx")
        case True
        then show ?thesis using uniq [of j] ix(3) by (simp add: ob_map_def)
      next
        case False
        then show ?thesis using ix(3) by (cases "idx_map (ot_index t) j") (auto simp: ob_map_def)
      qed
    qed
    moreover have "ob_unlink i t = Some (Ok (ob_ops ob, ob_native_id ob), ?t)"
      using Some idx ob False ix(1) by (simp add: ob_unlink_def idx_get_any [OF assms])
    ultimately show ?thesis using ob(1) False by simp
  qed
qed

section \<open>Runs of the table\<close>

datatype ob_op = ObCreate ObType bytes u64 u32 "nat option" | ObLookup u64 | ObRef u64 | ObDeref u64 | ObTake u64 | ObRename u64 bytes

datatype ob_result = Created u64 | Looked "ObObject option" | Counted "(u32, ObError) result"
  | Taken "(nat option \<times> u64, ObError) result" | Renamed "(unit, ObError) result"

fun ob_step :: "ob_op \<Rightarrow> ObTable \<Rightarrow> (ob_result \<times> ObTable) option" where
  "ob_step (ObCreate ty name nid fl ops) t = map_option (map_prod Created id) (ob_create ty name nid fl ops t)"
| "ob_step (ObLookup i) t = map_option (\<lambda>r. (Looked r, t)) (ob_lookup i t)"
| "ob_step (ObRef i) t = map_option (map_prod Counted id) (ob_reference i t)"
| "ob_step (ObDeref i) t = map_option (map_prod Counted id) (ob_dereference i t)"
| "ob_step (ObTake i) t = map_option (map_prod Taken id) (ob_unlink i t)"
| "ob_step (ObRename i name) t = map_option (map_prod Renamed id) (ob_set_object_name name i t)"

fun op_id :: "ob_op \<Rightarrow> u64" where
  "op_id (ObCreate ty name nid fl ops) = 0"
| "op_id (ObLookup i) = i"
| "op_id (ObRef i) = i"
| "op_id (ObDeref i) = i"
| "op_id (ObTake i) = i"
| "op_id (ObRename i name) = i"

definition map_modify :: "(ObObject \<Rightarrow> 'r \<times> ObObject) \<Rightarrow> u64 \<Rightarrow> (u64 \<Rightarrow> ObObject option) \<Rightarrow> ('r, ObError) result \<times> (u64 \<Rightarrow> ObObject option)" where
  "map_modify f i m = (case m i of None \<Rightarrow> (Err ObNotFound, m) | Some ob \<Rightarrow> (Ok (fst (f ob)), m(i \<mapsto> snd (f ob))))"

text \<open>The specification: a map from ids to objects and the next id.\<close>

fun map_step :: "ob_op \<Rightarrow> (u64 \<Rightarrow> ObObject option) \<times> u64 \<Rightarrow> ob_result \<times> (u64 \<Rightarrow> ObObject option) \<times> u64" where
  "map_step (ObCreate ty name nid fl ops) (m, nx) = (Created nx, m(nx \<mapsto> fresh_object nx ty name nid fl ops), nx + 1)"
| "map_step (ObLookup i) (m, nx) = (Looked (m i), m, nx)"
| "map_step (ObRef i) (m, nx) = (let (r, m') = map_modify (\<lambda>ob. let n = saturating_add (ob_refcount ob) 1 in (n, ob \<lparr> ob_refcount := n \<rparr>)) i m
     in (Counted r, m', nx))"
| "map_step (ObDeref i) (m, nx) = (let (r, m') = map_modify (\<lambda>ob. let n = saturating_sub (ob_refcount ob) 1 in (n, ob \<lparr> ob_refcount := n \<rparr>)) i m
     in (Counted r, m', nx))"
| "map_step (ObTake i) (m, nx) = (case m i of
      None \<Rightarrow> (Taken (Err ObNotFound), m, nx)
    | Some ob \<Rightarrow> if ob_refcount ob > 1 then (Taken (Err ObRefCountHeld), m, nx)
        else (Taken (Ok (ob_ops ob, ob_native_id ob)), m(i := None), nx))"
| "map_step (ObRename i name) (m, nx) = (let (r, m') = map_modify (\<lambda>ob. ((), ob_set_name name ob)) i m in (Renamed r, m', nx))"

lemma dec_saturates: "(if n > 0 then n - 1 else n) = saturating_sub n (1 :: 'a::len word)"
proof -
  have "0 < n \<longleftrightarrow> 1 \<le> n" by (simp add: word_less_nat_alt word_le_nat_alt Suc_le_eq)
  then show ?thesis by (auto simp: saturating_sub_def not_less)
qed

lemma ob_modify_step:
  assumes "ob_inv (Suc n) t" and "i \<noteq> TOMBSTONE" and "\<And>ob. ob_id (snd (f ob)) = ob_id ob"
  shows "\<exists>r t'. ob_modify f i t = Some (r, t') \<and> ob_inv n t' \<and> ot_next_id t' = ot_next_id t \<and> map_modify f i (ob_map t) = (r, ob_map t')"
  using ob_modify_map [OF ob_inv_mono [OF assms(1)] assms(2,3)] by (auto simp: map_modify_def split: option.splits)

interpretation obt: bounded_refinement ob_inv ob_abs "\<lambda>op. op_id op \<noteq> TOMBSTONE" ob_step map_step
proof unfold_locales
  fix n t op assume inv: "ob_inv (Suc n) t" and op: "op_id op \<noteq> TOMBSTONE"
  show "\<exists>r t'. ob_step op t = Some (r, t') \<and> ob_inv n t' \<and> map_step op (ob_abs t) = (r, ob_abs t')"
  proof (cases op)
    case (ObCreate ty name nid fl ops)
    then show ?thesis using ob_create_map [OF inv, of ty name nid fl ops] by (auto simp: ob_abs_def)
  next
    case (ObLookup i)
    then show ?thesis using op ob_lookup_map [OF inv, of i] ob_inv_mono [OF inv] by (simp add: ob_abs_def)
  next
    case (ObRef i)
    then show ?thesis using op ob_modify_step [OF inv, of i "\<lambda>ob. let n = saturating_add (ob_refcount ob) 1 in (n, ob \<lparr> ob_refcount := n \<rparr>)"]
      by (auto simp: ob_abs_def ob_reference_def Let_def)
  next
    case (ObDeref i)
    then show ?thesis using op ob_modify_step [OF inv, of i "\<lambda>ob. let n = saturating_sub (ob_refcount ob) 1 in (n, ob \<lparr> ob_refcount := n \<rparr>)"]
      by (auto simp: ob_abs_def ob_dereference_def dec_saturates Let_def)
  next
    case (ObTake i)
    then show ?thesis using op ob_unlink_map [OF ob_inv_mono [OF inv], of i] by (auto simp: ob_abs_def split: option.splits if_splits)
  next
    case (ObRename i name)
    then show ?thesis using op ob_modify_step [OF inv, of i "\<lambda>ob. ((), ob_set_name name ob)"]
      by (auto simp: ob_abs_def ob_set_object_name_def)
  qed
qed

lemma ob_new_inv: "n < 2 ^ 64 - 1 \<Longrightarrow> ob_inv n ob_table_new"
  by (rule ob_invI) (simp_all add: ob_table_new_def idx_new_inv idx_new_map)

text \<open>
  C24. The object table behaves as a map from ids to objects under every sequence of creations, lookups,
  reference and dereference calls, removals and renames that does not exhaust the 64-bit ids and does
  not use the id the index reserves: every operation returns, with the result and error of the map,
  although objects live in recycled slots behind an open-addressing index.
\<close>

theorem ob_ops_refine_map:
  assumes "length ops < 2 ^ 64 - 1" and "\<forall>op\<in>set ops. op_id op \<noteq> TOMBSTONE"
  shows "map_option fst (run_opt ob_step ops ob_table_new) = Some (fst (run_ops map_step ops (Map.empty, 1)))"
proof -
  have "ob_abs ob_table_new = (Map.empty, 1)" by (simp add: ob_abs_def ob_map_def ob_table_new_def idx_new_map fun_eq_iff)
  then show ?thesis using obt.run_opt_refines [of ops 0 ob_table_new] ob_new_inv [of "length ops"] assms
    by (auto simp: list_all_iff)
qed

theorem ob_ops_refine_map_witness:
  "map_option fst (run_opt ob_step [ObCreate ObEvent [0x61] 5 0 None, ObRef 1, ObTake 1, ObDeref 1, ObTake 1, ObLookup 1] ob_table_new)
    = Some [Created 1, Counted (Ok 2), Taken (Err ObRefCountHeld), Counted (Ok 1), Taken (Ok (None, 5)), Looked None]"
proof -
  have "fst (run_ops map_step [ObCreate ObEvent [0x61] 5 0 None, ObRef 1, ObTake 1, ObDeref 1, ObTake 1, ObLookup 1] (Map.empty, 1))
    = [Created 1, Counted (Ok 2), Taken (Err ObRefCountHeld), Counted (Ok 1), Taken (Ok (None, 5)), Looked None]"
    by (simp add: map_modify_def fresh_object_def ob_set_name_def Let_def saturating_add_def saturating_sub_def)
  then show ?thesis
    using ob_ops_refine_map [of "[ObCreate ObEvent [0x61] 5 0 None, ObRef 1, ObTake 1, ObDeref 1, ObTake 1, ObLookup 1]"]
    by (simp add: TOMBSTONE_def)
qed

section \<open>The reserved id\<close>

text \<open>Nine objects, the last removed, and a tenth that reuses its slot.\<close>

definition reuse_run :: "ob_op list" where
  "reuse_run = replicate 9 (ObCreate ObEvent [0x61] 0 0 None) @ [ObTake 9, ObCreate ObSemaphore [0x62] 5 0 None]"

lemma idx_hash_ids:
  "idx_hash 1 = 2654435769" "idx_hash 2 = 1013904242" "idx_hash 3 = 3668340012"
  "idx_hash 4 = 2027808485" "idx_hash 5 = 387276959" "idx_hash 6 = 3041712728"
  "idx_hash 7 = 1401181202" "idx_hash 8 = 4055616971" "idx_hash 9 = 2415085445"
  "idx_hash 10 = 774553918" "idx_hash (- 1) = 1640531526"
  by (simp_all add: idx_hash_def drop_bit_eq_div)

definition ix16 :: "u64 list \<Rightarrow> nat list \<Rightarrow> nat \<Rightarrow> nat \<Rightarrow> IdIndex" where
  "ix16 ks vs l u = \<lparr> ix_keys = ks, ix_vals = vs, ix_len = l, ix_used = u, ix_mask = 15 \<rparr>"

lemma reuse_index:
  "idx_insert (ix16 [0,0,0,0,0,0,0,0,0,0,0,0,0,0,0,0] [0,0,0,0,0,0,0,0,0,0,0,0,0,0,0,0] 0 0) 1 0 = Some (ix16 [0,0,0,0,0,0,0,0,0,1,0,0,0,0,0,0] [0,0,0,0,0,0,0,0,0,0,0,0,0,0,0,0] 1 1)"
  "idx_insert (ix16 [0,0,0,0,0,0,0,0,0,1,0,0,0,0,0,0] [0,0,0,0,0,0,0,0,0,0,0,0,0,0,0,0] 1 1) 2 1 = Some (ix16 [0,0,2,0,0,0,0,0,0,1,0,0,0,0,0,0] [0,0,1,0,0,0,0,0,0,0,0,0,0,0,0,0] 2 2)"
  "idx_insert (ix16 [0,0,2,0,0,0,0,0,0,1,0,0,0,0,0,0] [0,0,1,0,0,0,0,0,0,0,0,0,0,0,0,0] 2 2) 3 2 = Some (ix16 [0,0,2,0,0,0,0,0,0,1,0,0,3,0,0,0] [0,0,1,0,0,0,0,0,0,0,0,0,2,0,0,0] 3 3)"
  "idx_insert (ix16 [0,0,2,0,0,0,0,0,0,1,0,0,3,0,0,0] [0,0,1,0,0,0,0,0,0,0,0,0,2,0,0,0] 3 3) 4 3 = Some (ix16 [0,0,2,0,0,4,0,0,0,1,0,0,3,0,0,0] [0,0,1,0,0,3,0,0,0,0,0,0,2,0,0,0] 4 4)"
  "idx_insert (ix16 [0,0,2,0,0,4,0,0,0,1,0,0,3,0,0,0] [0,0,1,0,0,3,0,0,0,0,0,0,2,0,0,0] 4 4) 5 4 = Some (ix16 [0,0,2,0,0,4,0,0,0,1,0,0,3,0,0,5] [0,0,1,0,0,3,0,0,0,0,0,0,2,0,0,4] 5 5)"
  "idx_insert (ix16 [0,0,2,0,0,4,0,0,0,1,0,0,3,0,0,5] [0,0,1,0,0,3,0,0,0,0,0,0,2,0,0,4] 5 5) 6 5 = Some (ix16 [0,0,2,0,0,4,0,0,6,1,0,0,3,0,0,5] [0,0,1,0,0,3,0,0,5,0,0,0,2,0,0,4] 6 6)"
  "idx_insert (ix16 [0,0,2,0,0,4,0,0,6,1,0,0,3,0,0,5] [0,0,1,0,0,3,0,0,5,0,0,0,2,0,0,4] 6 6) 7 6 = Some (ix16 [0,0,2,7,0,4,0,0,6,1,0,0,3,0,0,5] [0,0,1,6,0,3,0,0,5,0,0,0,2,0,0,4] 7 7)"
  "idx_insert (ix16 [0,0,2,7,0,4,0,0,6,1,0,0,3,0,0,5] [0,0,1,6,0,3,0,0,5,0,0,0,2,0,0,4] 7 7) 8 7 = Some (ix16 [0,0,2,7,0,4,0,0,6,1,0,8,3,0,0,5] [0,0,1,6,0,3,0,0,5,0,0,7,2,0,0,4] 8 8)"
  "idx_insert (ix16 [0,0,2,7,0,4,0,0,6,1,0,8,3,0,0,5] [0,0,1,6,0,3,0,0,5,0,0,7,2,0,0,4] 8 8) 9 8 = Some (ix16 [0,0,2,7,0,4,9,0,6,1,0,8,3,0,0,5] [0,0,1,6,0,3,8,0,5,0,0,7,2,0,0,4] 9 9)"
  "idx_get (ix16 [0,0,2,7,0,4,9,0,6,1,0,8,3,0,0,5] [0,0,1,6,0,3,8,0,5,0,0,7,2,0,0,4] 9 9) 9 = Some (Some 8)"
  "idx_remove (ix16 [0,0,2,7,0,4,9,0,6,1,0,8,3,0,0,5] [0,0,1,6,0,3,8,0,5,0,0,7,2,0,0,4] 9 9) 9 = Some (ix16 [0,0,2,7,0,4,TOMBSTONE,0,6,1,0,8,3,0,0,5] [0,0,1,6,0,3,8,0,5,0,0,7,2,0,0,4] 8 9)"
  "idx_insert (ix16 [0,0,2,7,0,4,TOMBSTONE,0,6,1,0,8,3,0,0,5] [0,0,1,6,0,3,8,0,5,0,0,7,2,0,0,4] 8 9) 10 8 = Some (ix16 [0,0,2,7,0,4,TOMBSTONE,0,6,1,0,8,3,0,10,5] [0,0,1,6,0,3,8,0,5,0,0,7,2,0,8,4] 9 10)"
  "idx_get (ix16 [0,0,2,7,0,4,TOMBSTONE,0,6,1,0,8,3,0,10,5] [0,0,1,6,0,3,8,0,5,0,0,7,2,0,8,4] 9 10) (- 1) = Some (Some 8)"
  by (simp_all add: ix16_def idx_insert_def idx_remove_def idx_get_def idx_insert_no_grow_def Let_def
      EMPTY_def TOMBSTONE_def idx_hash_ids idx_insert_loop.simps idx_remove_loop.simps idx_get_loop.simps)

lemma ob_create_eq:
  "ob_create ty name nid fl ops t = (let ob = fresh_object (ot_next_id t) ty name nid fl ops;
     (idx, slots) = (case position (\<lambda>s. s = None) (ot_slots t) of Some pos \<Rightarrow> (pos, (ot_slots t)[pos := Some ob])
        | None \<Rightarrow> (length (ot_slots t), ot_slots t @ [Some ob]))
     in map_option (\<lambda>ix. (ot_next_id t, \<lparr> ot_slots = slots, ot_index = ix, ot_count = ot_count t + 1, ot_next_id = ot_next_id t + 1 \<rparr>))
          (idx_insert (ot_index t) (ot_next_id t) idx))"
  by (simp add: ob_create_def fresh_object_def Let_def)

lemma fresh_object_sel [simp]:
  "ob_type (fresh_object i ty name nid fl ops) = ty" "ob_native_id (fresh_object i ty name nid fl ops) = nid"
  "ob_refcount (fresh_object i ty name nid fl ops) = 1" "ob_ops (fresh_object i ty name nid fl ops) = ops"
  by (simp_all add: fresh_object_def ob_set_name_def Let_def)

text \<open>
  The table after that run. Its index keeps the mark of a deletion, whose key is the id with all bits
  set that handles use for standard input, and the marked entry still names a slot that is in use again.
\<close>

definition reuse_table :: ObTable where
  "reuse_table = \<lparr> ot_slots = map (\<lambda>i. Some (fresh_object i ObEvent [0x61] 0 0 None)) [1, 2, 3, 4, 5, 6, 7, 8]
       @ [Some (fresh_object 10 ObSemaphore [0x62] 5 0 None)],
     ot_index = ix16 [0,0,2,7,0,4,TOMBSTONE,0,6,1,0,8,3,0,10,5] [0,0,1,6,0,3,8,0,5,0,0,7,2,0,8,4] 9 10,
     ot_count = 9, ot_next_id = 11 \<rparr>"

lemma reuse_run_table: "map_option snd (run_opt ob_step reuse_run ob_table_new) = Some reuse_table"
proof -
  have new: "idx_new = ix16 [0,0,0,0,0,0,0,0,0,0,0,0,0,0,0,0] [0,0,0,0,0,0,0,0,0,0,0,0,0,0,0,0] 0 0"
    by (simp add: idx_new_def ix16_def EMPTY_def numeral_eq_Suc)
  have nine: "replicate 9 x = [x, x, x, x, x, x, x, x, x]" for x :: ob_op by (simp add: numeral_eq_Suc)
  show ?thesis
    by (simp add: reuse_table_def reuse_run_def nine ob_table_new_def ob_create_eq ob_lookup_def ob_unlink_def new
        reuse_index [unfolded numeral_nat One_nat_def]) (simp only: numeral_nat One_nat_def)
qed

section \<open>Descriptors and opening by path\<close>

text \<open>A state is sound when the table is and only existing objects have a descriptor.\<close>

definition om_ok :: "nat \<Rightarrow> 'z ObMan_scheme \<Rightarrow> bool" where
  "om_ok n m \<longleftrightarrow> ob_inv n (om_table m) \<and> (\<forall>i. om_security m i \<noteq> None \<longrightarrow> ob_map (om_table m) i \<noteq> None)"

text \<open>What is relied on of the destroy callbacks: they keep the state sound.\<close>

definition cb_ok :: "'z destroy_cb \<Rightarrow> bool" where
  "cb_ok cb \<longleftrightarrow> (\<forall>n ops i x m m'. om_ok n m \<longrightarrow> cb ops i x m = Some m' \<longrightarrow> om_ok n m')"

inductive om_reach :: "'z destroy_cb \<Rightarrow> nat \<Rightarrow> 'z ObMan_scheme \<Rightarrow> bool" for cb where
  boot: "n < 2 ^ 64 - 1 \<Longrightarrow> om_table m = ob_table_new \<Longrightarrow> om_security m = Map.empty \<Longrightarrow> om_reach cb n m"
| create: "om_reach cb (Suc n) m \<Longrightarrow> ob_create_object ty name nid fl ops m = Some (i, m') \<Longrightarrow> om_reach cb n m'"
| secure: "om_reach cb n m \<Longrightarrow> i \<noteq> TOMBSTONE \<Longrightarrow> ob_set_security i sd m = Some (r, m') \<Longrightarrow> om_reach cb n m'"
| open_object: "om_reach cb n m \<Longrightarrow> i \<noteq> TOMBSTONE \<Longrightarrow> ob_open_object i m = Some (r, m') \<Longrightarrow> om_reach cb n m'"
| close_object: "om_reach cb n m \<Longrightarrow> i \<noteq> TOMBSTONE \<Longrightarrow> ob_close_object cb i m = Some (r, m') \<Longrightarrow> om_reach cb n m'"
| destroy: "om_reach cb n m \<Longrightarrow> i \<noteq> TOMBSTONE \<Longrightarrow> ob_destroy_object cb i m = Some (r, m') \<Longrightarrow> om_reach cb n m'"

lemma om_ok_ns [simp]: "om_ok n (m \<lparr> om_ns := d \<rparr>) = om_ok n m"
  by (simp add: om_ok_def)

lemma create_ok:
  assumes "om_ok (Suc n) m" and "ob_create_object ty name nid fl ops m = Some (i, m')"
  shows "om_ok n m'" and "om_security m' i = None" and "ob_map (om_table m') i = Some (fresh_object i ty name nid fl ops)"
proof -
  obtain t where "m' = m \<lparr> om_table := t \<rparr>" "ob_inv n t" "ob_map (om_table m) i = None"
      "ob_map t = (ob_map (om_table m))(i \<mapsto> fresh_object i ty name nid fl ops)"
    using ob_create_map [of n "om_table m" ty name nid fl ops] assms by (auto simp: om_ok_def ob_create_object_def on_table_def)
  then show "om_ok n m'" "om_security m' i = None" "ob_map (om_table m') i = Some (fresh_object i ty name nid fl ops)"
    using assms(1) by (auto simp: om_ok_def)
qed

lemma modify_ok:
  assumes "om_ok n m" and "i \<noteq> TOMBSTONE" and "\<And>ob. ob_id (snd (f ob)) = ob_id ob"
  shows "\<exists>r t. on_table (ob_modify f i) m = Some (r, m \<lparr> om_table := t \<rparr>) \<and> om_ok n (m \<lparr> om_table := t \<rparr>) \<and>
    map_modify f i (ob_map (om_table m)) = (r, ob_map t)"
proof -
  obtain r t where t: "ob_modify f i (om_table m) = Some (r, t)" "ob_inv n t" "map_modify f i (ob_map (om_table m)) = (r, ob_map t)"
    using ob_modify_map [of n "om_table m" i f] assms by (auto simp: om_ok_def map_modify_def split: option.splits)
  moreover have "ob_map t = snd (map_modify f i (ob_map (om_table m)))" using t(3) by simp
  then have "ob_map t j = None \<longleftrightarrow> ob_map (om_table m) j = None" for j by (auto simp: map_modify_def split: option.splits)
  then have "om_ok n (m \<lparr> om_table := t \<rparr>)" using assms(1) t(2) by (auto simp: om_ok_def)
  ultimately have "on_table (ob_modify f i) m = Some (r, m \<lparr> om_table := t \<rparr>) \<and> om_ok n (m \<lparr> om_table := t \<rparr>) \<and>
    map_modify f i (ob_map (om_table m)) = (r, ob_map t)" by (simp add: on_table_def)
  then show ?thesis by blast
qed

lemma destroy_ok:
  assumes "cb_ok cb"
    and "om_ok n m" and "i \<noteq> TOMBSTONE" and "ob_destroy_object cb i m = Some (r, m')"
  shows "om_ok n m'"
proof -
  obtain q t where t: "ob_unlink i (om_table m) = Some (q, t)" "ob_inv n t"
      "case ob_map (om_table m) i of None \<Rightarrow> q = Err ObNotFound \<and> ob_map t = ob_map (om_table m)
        | Some ob \<Rightarrow> if ob_refcount ob > 1 then q = Err ObRefCountHeld \<and> ob_map t = ob_map (om_table m)
          else q = Ok (ob_ops ob, ob_native_id ob) \<and> ob_map t = (ob_map (om_table m))(i := None)"
    using ob_unlink_map [of n "om_table m" i] assms(2,3) by (auto simp: om_ok_def)
  let ?m = "case q of Err _ \<Rightarrow> m \<lparr> om_table := t \<rparr> | Ok _ \<Rightarrow> m \<lparr> om_table := t, om_security := (om_security m)(i := None) \<rparr>"
  have "om_ok n ?m" using t(2,3) assms(2) by (auto simp: om_ok_def split: option.splits if_splits)
  moreover have "take_for_destroy i m = Some (q, ?m)" using t(1) by (simp add: take_for_destroy_def on_table_def split: result.split)
  ultimately show ?thesis using assms(1,4)
    by (auto simp: cb_ok_def ob_destroy_object_def finish_destroy_def split: result.splits option.splits)
qed

lemma close_ok:
  assumes "cb_ok cb"
    and "om_ok n m" and "i \<noteq> TOMBSTONE" and "ob_close_object cb i m = Some (r, m')"
  shows "om_ok n m'"
proof -
  obtain q t where t: "on_table (ob_dereference i) m = Some (q, m \<lparr> om_table := t \<rparr>)" and ok: "om_ok n (m \<lparr> om_table := t \<rparr>)"
    using modify_ok [OF assms(2,3), of "\<lambda>ob. let n = (if ob_refcount ob > 0 then ob_refcount ob - 1 else ob_refcount ob)
     in (n, ob \<lparr> ob_refcount := n \<rparr>)"] by (auto simp: ob_dereference_def Let_def)
  consider "m' = m \<lparr> om_table := t \<rparr>" | "ob_destroy_object cb i (m \<lparr> om_table := t \<rparr>) = Some (r, m')"
    using assms(4) t by (cases q) (auto simp: ob_close_object_def split: if_splits)
  then show ?thesis
  proof cases
    case 2
    then show ?thesis by (rule destroy_ok [OF assms(1) ok assms(3)])
  qed (use ok in simp)
qed

lemma reach_ok:
  assumes "om_reach cb n m" and "cb_ok cb"
  shows "om_ok n m"
  using assms(1)
proof induction
  case (boot n m)
  then show ?case using ob_new_inv by (simp add: om_ok_def)
next
  case (create n m ty name nid fl ops i m')
  then show ?case using create_ok(1) by blast
next
  case (secure n m i sd r m')
  then show ?case using ob_lookup_map [of n "om_table m" i] by (auto simp: om_ok_def ob_set_security_def split: option.splits if_splits)
next
  case (open_object n m i r m')
  then show ?case using modify_ok [of n m i "\<lambda>ob. let n = saturating_add (ob_refcount ob) 1 in (n, ob \<lparr> ob_refcount := n \<rparr>)"]
    by (auto simp: ob_open_object_def ob_reference_def Let_def)
next
  case (close_object n m i r m')
  then show ?case using close_ok [OF assms(2)] by blast
next
  case (destroy n m i r m')
  then show ?case using destroy_ok [OF assms(2)] by blast
qed




definition named_ns :: DirectoryObject where
  "named_ns = snd (keep ns_new (insert_object [SEP, 0x61] 1 ns_new))"


end
