(* ===== verification/Pipes.thy ===== *)
theory Pipes
  imports Interfaces ObTable "HOL-Library.Monad_Syntax"
begin

text \<open>
  Pipes (neodos-kernel/src/object/pipe.rs): the 4096-byte ring of one pipe, the manager that hands out
  pipes and counts the open ends, and its connection with the Object Manager. Every pipe in use has an
  object, and destroying a pipe object made by a caller frees the pipe.

  The manager extends the state of the Object Manager. Wake-ups of blocked readers are recorded in
  \<open>pm_wakes\<close>. The destroy callback of a pipe calls the Object Manager again, which may call the
  callback again; \<open>io_on_destroy\<close> ties that knot. The callbacks of other kinds of object are its
  parameter \<open>ext\<close>.
\<close>

section \<open>One pipe\<close>

abbreviation (input) PIPE_BUF_SIZE :: nat where "PIPE_BUF_SIZE \<equiv> 4096"

abbreviation (input) MAX_PIPES :: nat where "MAX_PIPES \<equiv> 16"

record PipeInner =
  pi_buf :: bytes
  pi_head :: nat
  pi_tail :: nat
  pi_write_closed :: bool
  pi_read_closed :: bool
  pi_in_use :: bool
  pi_read_refs :: u8
  pi_write_refs :: u8

definition pipe_new_unused :: PipeInner where
  "pipe_new_unused = \<lparr> pi_buf = replicate PIPE_BUF_SIZE 0, pi_head = 0, pi_tail = 0, pi_write_closed = False,
     pi_read_closed = False, pi_in_use = False, pi_read_refs = 0, pi_write_refs = 0 \<rparr>"

definition pipe_reset :: "PipeInner \<Rightarrow> PipeInner" where
  "pipe_reset p = p \<lparr> pi_head := 0, pi_tail := 0, pi_write_closed := False, pi_read_closed := False,
     pi_read_refs := 0, pi_write_refs := 0 \<rparr>"

definition pipe_used :: "PipeInner \<Rightarrow> nat" where
  "pipe_used p = (if pi_tail p \<ge> pi_head p then pi_tail p - pi_head p else PIPE_BUF_SIZE - pi_head p + pi_tail p)"

definition pipe_free :: "PipeInner \<Rightarrow> nat" where
  "pipe_free p = PIPE_BUF_SIZE - pipe_used p - 1"

definition read_into :: "nat \<Rightarrow> PipeInner \<Rightarrow> bytes \<times> PipeInner" where
  "read_into len p =
    (let to_read = min (pipe_used p) len
     in (map (\<lambda>i. pi_buf p ! ((pi_head p + i) mod PIPE_BUF_SIZE)) [0..<to_read],
         p \<lparr> pi_head := (pi_head p + to_read) mod PIPE_BUF_SIZE \<rparr>))"

text \<open>The copy loop of \<open>write_from\<close>, started at the tail.\<close>

fun pipe_store :: "bytes \<Rightarrow> nat \<Rightarrow> bytes \<Rightarrow> bytes" where
  "pipe_store buf pos [] = buf"
| "pipe_store buf pos (b # bs) = pipe_store (buf[pos mod PIPE_BUF_SIZE := b]) (pos + 1) bs"

definition write_from :: "bytes \<Rightarrow> PipeInner \<Rightarrow> nat \<times> PipeInner" where
  "write_from bs p =
    (let to_write = min (pipe_free p) (length bs)
     in (to_write, p \<lparr> pi_buf := pipe_store (pi_buf p) (pi_tail p) (take to_write bs),
                       pi_tail := (pi_tail p + to_write) mod PIPE_BUF_SIZE \<rparr>))"

text \<open>What \<open>PipeManager::read\<close> and \<open>PipeManager::write\<close> do with the pipe they found, and whether they wake.\<close>

definition pipe_read :: "nat \<Rightarrow> PipeInner \<Rightarrow> (bytes, unit) result \<times> bool \<times> PipeInner" where
  "pipe_read len p =
    (if pipe_used p > 0 then let (bs, p') = read_into len p in (Ok bs, True, p')
     else if pi_write_closed p then (Ok [], False, p)
     else (Err (), False, p))"

definition pipe_write :: "bytes \<Rightarrow> PipeInner \<Rightarrow> (nat, unit) result \<times> bool \<times> PipeInner" where
  "pipe_write bs p =
    (if pi_read_closed p then (Err (), False, p)
     else if pipe_free p = 0 then (Err (), False, p)
     else let (n, p') = write_from bs p in (Ok n, True, p'))"

definition pipe_close_read :: "PipeInner \<Rightarrow> PipeInner" where
  "pipe_close_read p = p \<lparr> pi_read_refs := (if pi_read_refs p > 0 then pi_read_refs p - 1 else pi_read_refs p),
     pi_read_closed := True \<rparr>"

definition pipe_close_write :: "PipeInner \<Rightarrow> PipeInner" where
  "pipe_close_write p = p \<lparr> pi_write_refs := (if pi_write_refs p > 0 then pi_write_refs p - 1 else pi_write_refs p),
     pi_write_closed := True \<rparr>"

section \<open>The pipe manager\<close>

record IoState = ObMan +
  pm_pipes :: "PipeInner option list"
  pm_kobj_ids :: "u64 option list"
  pm_wakes :: "u8 list"

definition io_new :: IoState where
  "io_new = ObMan.extend om_new \<lparr> pm_pipes = [], pm_kobj_ids = [], pm_wakes = [] \<rparr>"

definition resize_none :: "nat \<Rightarrow> 'a option list \<Rightarrow> 'a option list" where
  "resize_none idx xs = (if idx \<ge> length xs then xs @ replicate (idx + 1 - length xs) None else xs)"

definition ensure_idx :: "nat \<Rightarrow> 'z IoState_scheme \<Rightarrow> 'z IoState_scheme" where
  "ensure_idx idx s = s \<lparr> pm_pipes := resize_none idx (pm_pipes s), pm_kobj_ids := resize_none idx (pm_kobj_ids s) \<rparr>"

definition set_kobj_id :: "nat \<Rightarrow> u64 option \<Rightarrow> 'z IoState_scheme \<Rightarrow> 'z IoState_scheme" where
  "set_kobj_id idx k s = (let s' = ensure_idx idx s in s' \<lparr> pm_kobj_ids := (pm_kobj_ids s')[idx := k] \<rparr>)"

definition get_kobj_id :: "nat \<Rightarrow> 'z IoState_scheme \<Rightarrow> u64 option \<times> 'z IoState_scheme" where
  "get_kobj_id idx s = (let s' = ensure_idx idx s in (pm_kobj_ids s' ! idx, s'))"

text \<open>The object that stands for a pipe in use.\<close>

definition register_pipe :: "nat \<Rightarrow> 'z IoState_scheme \<Rightarrow> 'z IoState_scheme option" where
  "register_pipe i s = do {
     (kid, s1) \<leftarrow> ob_create_object ObPipe (ascii ''pipe/'' @ decimal i) (of_nat i) 0 None s;
     Some (set_kobj_id i (Some kid) s1) }"

definition pipe_alloc :: "'z IoState_scheme \<Rightarrow> (u8 option \<times> 'z IoState_scheme) option" where
  "pipe_alloc s = (case position (\<lambda>p. case p of Some pipe \<Rightarrow> \<not> pi_in_use pipe | None \<Rightarrow> False) (pm_pipes s) of
      Some i \<Rightarrow> do {
        s1 \<leftarrow> register_pipe i (s \<lparr> pm_pipes :=
                (pm_pipes s)[i := map_option (\<lambda>p. pipe_reset (p \<lparr> pi_in_use := True \<rparr>)) (pm_pipes s ! i)] \<rparr>);
        Some (Some (of_nat i), s1) }
    | None \<Rightarrow>
        if length (pm_pipes s) \<ge> MAX_PIPES then Some (None, s)
        else do {
          let i = length (pm_pipes s);
          s1 \<leftarrow> register_pipe i (ensure_idx i (s \<lparr> pm_pipes := pm_pipes s @ [Some (pipe_new_unused \<lparr> pi_in_use := True \<rparr>)] \<rparr>));
          Some (Some (of_nat i), s1) })"

text \<open>An update of the pipe with the given id, if there is one.\<close>

definition with_pipe :: "(PipeInner \<Rightarrow> PipeInner) \<Rightarrow> u8 \<Rightarrow> 'z IoState_scheme \<Rightarrow> 'z IoState_scheme" where
  "with_pipe f pipe_id s = (let s' = ensure_idx (unat pipe_id) s
     in s' \<lparr> pm_pipes := (pm_pipes s')[unat pipe_id := map_option f (pm_pipes s' ! unat pipe_id)] \<rparr>)"

definition inc_read_ref :: "u8 \<Rightarrow> 'z IoState_scheme \<Rightarrow> 'z IoState_scheme" where
  "inc_read_ref = with_pipe (\<lambda>p. p \<lparr> pi_read_refs := saturating_add (pi_read_refs p) 1 \<rparr>)"

definition inc_write_ref :: "u8 \<Rightarrow> 'z IoState_scheme \<Rightarrow> 'z IoState_scheme" where
  "inc_write_ref = with_pipe (\<lambda>p. p \<lparr> pi_write_refs := saturating_add (pi_write_refs p) 1 \<rparr>)"

definition destroy_kobj :: "('z IoState_ext) destroy_cb \<Rightarrow> nat \<Rightarrow> u64 option \<Rightarrow> 'z IoState_scheme \<Rightarrow> 'z IoState_scheme option" where
  "destroy_kobj cb idx kid s = (case kid of
      None \<Rightarrow> Some s
    | Some kobj_id \<Rightarrow> do { (r, s1) \<leftarrow> ob_destroy_object cb kobj_id s; Some (set_kobj_id idx None s1) })"

definition maybe_free_pipe :: "('z IoState_ext) destroy_cb \<Rightarrow> u8 \<Rightarrow> 'z IoState_scheme \<Rightarrow> 'z IoState_scheme option" where
  "maybe_free_pipe cb pipe_id s =
    (let idx = unat pipe_id;
         (kid, s1) = get_kobj_id idx s
     in case pm_pipes s1 ! idx of
          None \<Rightarrow> Some s1
        | Some p \<Rightarrow> if pi_read_refs p = 0 \<and> pi_write_refs p = 0
            then destroy_kobj cb idx kid (s1 \<lparr> pm_pipes := (pm_pipes s1)[idx := Some (p \<lparr> pi_in_use := False \<rparr>)] \<rparr>)
            else Some s1)"

definition dec_read_ref :: "('z IoState_ext) destroy_cb \<Rightarrow> u8 \<Rightarrow> 'z IoState_scheme \<Rightarrow> 'z IoState_scheme option" where
  "dec_read_ref cb pipe_id s = maybe_free_pipe cb pipe_id (with_pipe pipe_close_read pipe_id s)"

definition dec_write_ref :: "('z IoState_ext) destroy_cb \<Rightarrow> u8 \<Rightarrow> 'z IoState_scheme \<Rightarrow> 'z IoState_scheme option" where
  "dec_write_ref cb pipe_id s = maybe_free_pipe cb pipe_id (with_pipe pipe_close_write pipe_id s)"

definition pm_transfer ::
  "(PipeInner \<Rightarrow> ('r, unit) result \<times> bool \<times> PipeInner) \<Rightarrow> u8 \<Rightarrow> 'z IoState_scheme \<Rightarrow> ('r, unit) result \<times> 'z IoState_scheme" where
  "pm_transfer f pipe_id s = (let s1 = ensure_idx (unat pipe_id) s
     in case pm_pipes s1 ! unat pipe_id of
          None \<Rightarrow> (Err (), s1)
        | Some p \<Rightarrow> (let (r, wake, p') = f p
            in (r, s1 \<lparr> pm_pipes := (pm_pipes s1)[unat pipe_id := Some p'],
                         pm_wakes := (if wake then pm_wakes s1 @ [pipe_id] else pm_wakes s1) \<rparr>)))"

definition pm_read :: "u8 \<Rightarrow> nat \<Rightarrow> 'z IoState_scheme \<Rightarrow> (bytes, unit) result \<times> 'z IoState_scheme" where
  "pm_read pipe_id len = pm_transfer (pipe_read len) pipe_id"

definition pm_write :: "u8 \<Rightarrow> bytes \<Rightarrow> 'z IoState_scheme \<Rightarrow> (nat, unit) result \<times> 'z IoState_scheme" where
  "pm_write pipe_id bs = pm_transfer (pipe_write bs) pipe_id"

definition pipe_peek :: "(PipeInner \<Rightarrow> bool) \<Rightarrow> u8 \<Rightarrow> 'z IoState_scheme \<Rightarrow> bool option" where
  "pipe_peek f pipe_id s = (if unat pipe_id < length (pm_pipes s) then map_option f (pm_pipes s ! unat pipe_id) else None)"

definition pipe_peek_read_ready :: "u8 \<Rightarrow> 'z IoState_scheme \<Rightarrow> bool option" where
  "pipe_peek_read_ready = pipe_peek (\<lambda>p. pipe_used p > 0 \<or> pi_write_closed p)"

definition pipe_peek_write_closed :: "u8 \<Rightarrow> 'z IoState_scheme \<Rightarrow> bool option" where
  "pipe_peek_write_closed = pipe_peek pi_write_closed"

definition pipe_peek_read_closed :: "u8 \<Rightarrow> 'z IoState_scheme \<Rightarrow> bool option" where
  "pipe_peek_read_closed = pipe_peek pi_read_closed"

definition free_pipe :: "('z IoState_ext) destroy_cb \<Rightarrow> u8 \<Rightarrow> 'z IoState_scheme \<Rightarrow> 'z IoState_scheme option" where
  "free_pipe cb pipe_id s = do {
     let idx = unat pipe_id;
     let (kid, s1) = get_kobj_id idx (ensure_idx idx s);
     s2 \<leftarrow> destroy_kobj cb idx kid s1;
     Some (s2 \<lparr> pm_pipes := (if idx < length (pm_pipes s2)
        then (pm_pipes s2)[idx := map_option (\<lambda>p. pipe_reset (p \<lparr> pi_in_use := False \<rparr>)) (pm_pipes s2 ! idx)]
        else pm_pipes s2) \<rparr>) }"

text \<open>Destroying an object calls the callback monotonically, so the callback may be defined by recursion.\<close>

lemma destroy_mono [partial_function_mono]:
  assumes "\<And>ops i x m. mono_option (\<lambda>f. cb f ops i x m)"
  shows "mono_option (\<lambda>f. ob_destroy_object (cb f) i m)"
proof -
  have fin: "mono_option (\<lambda>f. map_option (Pair (Ok ())) (finish_destroy (cb f) i x m))" for x m
    unfolding finish_destroy_def map_conv_bind_option
    by (cases "fst x"; simp; intro partial_function_mono assms)
  show ?thesis
  proof (cases "take_for_destroy i m")
    case (Some r)
    then show ?thesis using fin
      by (cases "fst r") (simp_all add: ob_destroy_object_def case_prod_beta option.const_mono)
  qed (simp add: ob_destroy_object_def option.const_mono)
qed

lemma free_pipe_mono [partial_function_mono]:
  assumes "\<And>ops i x m. mono_option (\<lambda>f. cb f ops i x m)"
  shows "mono_option (\<lambda>f. free_pipe (cb f) pipe_id s)"
proof (cases "fst (get_kobj_id (unat pipe_id) (ensure_idx (unat pipe_id) s))")
  case None
  then show ?thesis by (simp add: free_pipe_def destroy_kobj_def Let_def case_prod_beta option.const_mono)
next
  case (Some k)
  show ?thesis unfolding free_pipe_def destroy_kobj_def Let_def case_prod_beta Some option.case
    by (intro partial_function_mono assms)
qed

text \<open>The operations table of pipe objects, and the destroy callback of every table.\<close>

abbreviation (input) PIPE_OPS :: nat where "PIPE_OPS \<equiv> 1"

partial_function (option) io_on_destroy :: "('z IoState_ext) destroy_cb \<Rightarrow> ('z IoState_ext) destroy_cb" where
  "io_on_destroy ext ops i native_id s =
    (if ops = PIPE_OPS then free_pipe (io_on_destroy ext) (ucast native_id) s else ext ops i native_id s)"

section \<open>A pipe is a byte stream\<close>

definition pipe_inv :: "PipeInner \<Rightarrow> bool" where [inv_defs]:
  "pipe_inv p \<longleftrightarrow> length (pi_buf p) = PIPE_BUF_SIZE \<and> pi_head p < PIPE_BUF_SIZE \<and> pi_tail p < PIPE_BUF_SIZE"

definition pipe_bytes :: "PipeInner \<Rightarrow> bytes" where
  "pipe_bytes p = ring_list (pi_buf p) (pi_head p) (pipe_used p)"

lemma pipe_used_count: "pipe_used p = ring_count PIPE_BUF_SIZE (pi_head p) (pi_tail p)"
  by (simp add: pipe_used_def ring_count_def)

lemma pipe_used_less: "pipe_inv p \<Longrightarrow> pipe_used p < PIPE_BUF_SIZE"
  by (simp add: pipe_inv_def pipe_used_count ring_count_less)

lemma length_pipe_bytes [simp]: "length (pipe_bytes p) = pipe_used p"
  by (simp add: pipe_bytes_def)

lemma mod_wrap: "x < 2 * d \<Longrightarrow> x mod d = (if x < d then x else x - (d :: nat))"
  by (simp add: le_mod_geq)

lemma ring_count_forward:
  "h < d \<Longrightarrow> t < d \<Longrightarrow> k \<le> ring_count d h t \<Longrightarrow> ring_count d ((h + k) mod d) t = ring_count d h t - k"
  using ring_count_less [of h d t] by (subst mod_wrap) (auto simp: ring_count_def split: if_splits)

lemma ring_count_extend:
  "h < d \<Longrightarrow> t < d \<Longrightarrow> ring_count d h t + k < d \<Longrightarrow> ring_count d h ((t + k) mod d) = ring_count d h t + k"
  by (subst mod_wrap) (auto simp: ring_count_def split: if_splits)

lemma length_pipe_store [simp]: "length (pipe_store buf pos bs) = length buf"
  by (induction bs arbitrary: buf pos) auto

lemma ring_list_split: "ring_list es h (m + n) = ring_list es h m @ ring_list es (h + m) n"
  by (induction m arbitrary: h) (simp_all add: ring_list_pop)

lemma pipe_store_ring:
  "length buf = PIPE_BUF_SIZE \<Longrightarrow> n + length bs < PIPE_BUF_SIZE \<Longrightarrow>
   ring_list (pipe_store buf (h + n) bs) h (n + length bs) = ring_list buf h n @ bs"
proof (induction bs arbitrary: buf n)
  case (Cons b bs)
  have "ring_list (pipe_store (buf[(h + n) mod PIPE_BUF_SIZE := b]) (h + Suc n) bs) h (Suc n + length bs)
      = ring_list (buf[(h + n) mod PIPE_BUF_SIZE := b]) h (Suc n) @ bs"
    using Cons.prems by (intro Cons.IH) simp_all
  then show ?case using ring_list_push [of n buf h b] Cons.prems by simp
qed simp

lemma pipe_store_mod: "pipe_store buf (pos mod PIPE_BUF_SIZE) bs = pipe_store buf pos bs"
proof (induction bs arbitrary: buf pos)
  case (Cons b bs)
  have "(pos mod PIPE_BUF_SIZE + 1) mod PIPE_BUF_SIZE = (pos + 1) mod PIPE_BUF_SIZE" by (simp add: mod_Suc_eq)
  then show ?case using Cons.IH [of _ "pos mod PIPE_BUF_SIZE + 1"] Cons.IH [of _ "pos + 1"] by simp
qed simp

lemma read_into_bytes:
  assumes "pipe_inv p"
  shows "fst (read_into len p) = take len (pipe_bytes p)" and "pipe_bytes (snd (read_into len p)) = drop len (pipe_bytes p)"
    and "pipe_inv (snd (read_into len p))"
proof -
  let ?k = "min (pipe_used p) len"
  let ?n = "pipe_used p - ?k"
  have len: "length (pi_buf p) = PIPE_BUF_SIZE" using assms by (simp add: pipe_inv_def)
  have split: "pipe_bytes p = ring_list (pi_buf p) (pi_head p) ?k @ ring_list (pi_buf p) (pi_head p + ?k) ?n"
    using ring_list_split [of "pi_buf p" "pi_head p" ?k ?n] by (simp add: pipe_bytes_def)
  have "fst (read_into len p) = ring_list (pi_buf p) (pi_head p) ?k"
    using len by (simp add: read_into_def Let_def ring_list_def)
  then show "fst (read_into len p) = take len (pipe_bytes p)" unfolding split by (cases "len \<le> pipe_used p") simp_all
  have "pipe_used (snd (read_into len p)) = ?n"
    using assms by (simp add: pipe_inv_def read_into_def Let_def pipe_used_count ring_count_forward)
  then have "pipe_bytes (snd (read_into len p)) = ring_list (pi_buf p) (pi_head p + ?k) ?n"
    using ring_list_mod [of "pi_buf p" "pi_head p + ?k"] len by (simp add: pipe_bytes_def read_into_def Let_def)
  then show "pipe_bytes (snd (read_into len p)) = drop len (pipe_bytes p)" unfolding split by (cases "len \<le> pipe_used p") simp_all
  show "pipe_inv (snd (read_into len p))" using assms by (simp add: pipe_inv_def read_into_def Let_def)
qed

lemma write_from_bytes:
  assumes "pipe_inv p"
  shows "pipe_bytes (snd (write_from bs p)) = pipe_bytes p @ take (PIPE_BUF_SIZE - 1 - pipe_used p) bs"
    and "fst (write_from bs p) = min (PIPE_BUF_SIZE - 1 - pipe_used p) (length bs)"
    and "pipe_inv (snd (write_from bs p))"
proof -
  let ?k = "min (pipe_free p) (length bs)"
  have free: "pipe_free p = PIPE_BUF_SIZE - 1 - pipe_used p" by (simp add: pipe_free_def)
  then have room: "pipe_used p + ?k < PIPE_BUF_SIZE" using pipe_used_less [OF assms] by linarith
  have tail: "pi_tail p = (pi_head p + pipe_used p) mod PIPE_BUF_SIZE"
    using assms by (simp add: pipe_inv_def pipe_used_count ring_count_tail)
  have "pipe_used (snd (write_from bs p)) = pipe_used p + ?k"
    using assms room by (simp add: pipe_inv_def write_from_def Let_def pipe_used_count ring_count_extend)
  moreover have "ring_list (pipe_store (pi_buf p) (pi_tail p) (take ?k bs)) (pi_head p) (pipe_used p + ?k) = pipe_bytes p @ take ?k bs"
    using pipe_store_ring [of "pi_buf p" "pipe_used p" "take ?k bs" "pi_head p"] assms room
    unfolding tail pipe_store_mod by (simp add: pipe_inv_def pipe_bytes_def)
  ultimately have "pipe_bytes (snd (write_from bs p)) = pipe_bytes p @ take ?k bs"
    by (simp add: pipe_bytes_def write_from_def Let_def)
  moreover have "take ?k bs = take (pipe_free p) bs" by (cases "length bs \<le> pipe_free p") simp_all
  ultimately show "pipe_bytes (snd (write_from bs p)) = pipe_bytes p @ take (PIPE_BUF_SIZE - 1 - pipe_used p) bs"
    unfolding free by simp
  show "fst (write_from bs p) = min (PIPE_BUF_SIZE - 1 - pipe_used p) (length bs)" by (simp add: write_from_def Let_def free)
  show "pipe_inv (snd (write_from bs p))" using assms by (simp add: pipe_inv_def write_from_def Let_def)
qed

text \<open>What a client sees of the pipes: the bytes waiting, and which ends are marked closed.\<close>

type_synonym stream = "bytes \<times> bool \<times> bool"

definition pm_get :: "'z IoState_scheme \<Rightarrow> u8 \<Rightarrow> PipeInner option" where
  "pm_get s pipe_id = (if unat pipe_id < length (pm_pipes s) then pm_pipes s ! unat pipe_id else None)"

definition pipe_stream :: "PipeInner \<Rightarrow> stream" where
  "pipe_stream p = (pipe_bytes p, pi_write_closed p, pi_read_closed p)"

definition pm_view :: "'z IoState_scheme \<Rightarrow> u8 \<Rightarrow> stream option" where
  "pm_view s pipe_id = map_option pipe_stream (pm_get s pipe_id)"

definition pm_ok :: "'z IoState_scheme \<Rightarrow> bool" where [inv_defs]:
  "pm_ok s \<longleftrightarrow> (\<forall>pipe_id p. pm_get s pipe_id = Some p \<longrightarrow> pipe_inv p)"

datatype pm_op = PmRead u8 nat | PmWrite u8 bytes | PmReady u8

datatype pm_result = Got "(bytes, unit) result" | Put "(nat, unit) result" | Ready "bool option"

fun pm_step :: "pm_op \<Rightarrow> IoState \<Rightarrow> pm_result \<times> IoState" where
  "pm_step (PmRead i len) s = map_prod Got id (pm_read i len s)"
| "pm_step (PmWrite i bs) s = map_prod Put id (pm_write i bs s)"
| "pm_step (PmReady i) s = (Ready (pipe_peek_read_ready i s), s)"

definition stream_read :: "nat \<Rightarrow> stream \<Rightarrow> (bytes, unit) result \<times> stream" where
  "stream_read len = (\<lambda>(bs, wc, rc). if bs \<noteq> [] then (Ok (take len bs), drop len bs, wc, rc)
     else if wc then (Ok [], bs, wc, rc) else (Err (), bs, wc, rc))"

definition stream_write :: "bytes \<Rightarrow> stream \<Rightarrow> (nat, unit) result \<times> stream" where
  "stream_write xs = (\<lambda>(bs, wc, rc). let room = PIPE_BUF_SIZE - 1 - length bs
     in if rc \<or> room = 0 then (Err (), bs, wc, rc) else (Ok (min room (length xs)), bs @ take room xs, wc, rc))"

definition on_stream ::
  "(stream \<Rightarrow> ('r, unit) result \<times> stream) \<Rightarrow> u8 \<Rightarrow> (u8 \<Rightarrow> stream option) \<Rightarrow> ('r, unit) result \<times> (u8 \<Rightarrow> stream option)" where
  "on_stream f i m = (case m i of None \<Rightarrow> (Err (), m) | Some st \<Rightarrow> map_prod id (\<lambda>st'. m(i \<mapsto> st')) (f st))"

fun stream_step :: "pm_op \<Rightarrow> (u8 \<Rightarrow> stream option) \<Rightarrow> pm_result \<times> (u8 \<Rightarrow> stream option)" where
  "stream_step (PmRead i len) m = map_prod Got id (on_stream (stream_read len) i m)"
| "stream_step (PmWrite i bs) m = map_prod Put id (on_stream (stream_write bs) i m)"
| "stream_step (PmReady i) m = (Ready (map_option (\<lambda>(bs, wc, rc). bs \<noteq> [] \<or> wc) (m i)), m)"

lemma resize_none_nth: "idx < length (resize_none k xs) \<Longrightarrow> resize_none k xs ! idx = (if idx < length xs then xs ! idx else None)"
  by (auto simp: resize_none_def nth_append)

lemma resize_none_length: "k < length (resize_none k xs)" "length xs \<le> length (resize_none k xs)"
  by (simp_all add: resize_none_def)

lemma pm_get_ensure [simp]: "pm_get (ensure_idx k s) i = pm_get s i"
  using resize_none_length(2) [of "pm_pipes s" k]
  by (auto simp: pm_get_def ensure_idx_def resize_none_nth)

lemma ensure_idx_get: "pm_pipes (ensure_idx (unat i) s) ! unat i = pm_get s i"
  by (simp add: pm_get_def ensure_idx_def resize_none_nth resize_none_length)

lemma unat_in_ensured: "unat i < length (pm_pipes (ensure_idx (unat i) s))"
  by (simp add: ensure_idx_def resize_none_length)

lemma pm_get_update:
  "unat i < length (pm_pipes s) \<Longrightarrow> pm_get (s \<lparr> pm_pipes := (pm_pipes s)[unat i := x], pm_wakes := w \<rparr>) = (pm_get s)(i := x)"
  "unat i < length (pm_pipes s) \<Longrightarrow> pm_get (s \<lparr> pm_pipes := (pm_pipes s)[unat i := x] \<rparr>) = (pm_get s)(i := x)"
  by (auto simp: pm_get_def fun_eq_iff nth_list_update word_unat_eq_iff)

lemma pm_transfer_get:
  "pm_transfer f i s = (case pm_get s i of None \<Rightarrow> (Err (), ensure_idx (unat i) s)
     | Some p \<Rightarrow> (fst (f p), snd (pm_transfer f i s)))"
  "pm_get (snd (pm_transfer f i s)) = (case pm_get s i of None \<Rightarrow> pm_get s | Some p \<Rightarrow> (pm_get s)(i \<mapsto> snd (snd (f p))))"
  using unat_in_ensured [of i s]
  by (auto simp: pm_transfer_def Let_def ensure_idx_get case_prod_beta fun_eq_iff pm_get_update split: option.split)

lemma pm_transfer_refines:
  assumes "pm_ok s" and "\<And>p. pipe_inv p \<Longrightarrow> pipe_inv (snd (snd (f p))) \<and> (fst (f p), pipe_stream (snd (snd (f p)))) = g (pipe_stream p)"
  shows "pm_ok (snd (pm_transfer f i s))" and "map_prod id pm_view (pm_transfer f i s) = on_stream g i (pm_view s)"
proof -
  have ok: "pm_get s j = Some p \<Longrightarrow> pipe_inv p" for j p using assms(1) by (auto simp: pm_ok_def)
  then show "pm_ok (snd (pm_transfer f i s))" using assms(2)
    by (auto simp: pm_ok_def pm_transfer_get(2) split: option.splits if_splits)
  have "pm_view (snd (pm_transfer f i s)) = (case pm_get s i of None \<Rightarrow> pm_view s
      | Some p \<Rightarrow> (pm_view s)(i \<mapsto> pipe_stream (snd (snd (f p)))))"
    by (auto simp: pm_view_def fun_eq_iff pm_transfer_get(2) split: option.split)
  moreover have "fst (pm_transfer f i s) = (case pm_get s i of None \<Rightarrow> Err () | Some p \<Rightarrow> fst (f p))"
    by (subst pm_transfer_get(1)) (simp split: option.split)
  moreover have "g (pipe_stream p) = (fst (f p), pipe_stream (snd (snd (f p))))" if "pm_get s i = Some p" for p
    using assms(2) [OF ok [OF that]] by simp
  ultimately show "map_prod id pm_view (pm_transfer f i s) = on_stream g i (pm_view s)"
    by (cases "pm_transfer f i s"; cases "pm_get s i") (auto simp: on_stream_def pm_view_def)
qed

lemma pipe_read_stream:
  "pipe_inv p \<Longrightarrow> pipe_inv (snd (snd (pipe_read len p))) \<and> (fst (pipe_read len p), pipe_stream (snd (snd (pipe_read len p)))) = stream_read len (pipe_stream p)"
proof -
  have flags: "pi_write_closed (snd (read_into len p)) = pi_write_closed p" "pi_read_closed (snd (read_into len p)) = pi_read_closed p"
    by (simp_all add: read_into_def Let_def)
  have "pipe_used p > 0 \<longleftrightarrow> pipe_bytes p \<noteq> []" by (metis length_greater_0_conv length_pipe_bytes)
  then show "pipe_inv p \<Longrightarrow> ?thesis"
    using read_into_bytes [of p len] flags by (simp add: pipe_read_def pipe_stream_def stream_read_def case_prod_beta Let_def)
qed

lemma pipe_write_stream:
  "pipe_inv p \<Longrightarrow> pipe_inv (snd (snd (pipe_write bs p))) \<and> (fst (pipe_write bs p), pipe_stream (snd (snd (pipe_write bs p)))) = stream_write bs (pipe_stream p)"
proof -
  have flags: "pi_write_closed (snd (write_from bs p)) = pi_write_closed p" "pi_read_closed (snd (write_from bs p)) = pi_read_closed p"
    by (simp_all add: write_from_def Let_def)
  then show "pipe_inv p \<Longrightarrow> ?thesis"
    using write_from_bytes [of p bs]
    by (simp add: pipe_write_def pipe_stream_def stream_write_def case_prod_beta Let_def pipe_free_def)
qed

lemma pm_read_stream:
  assumes "pm_ok s"
  shows "pm_ok (snd (pm_read i len s))" and "map_prod id pm_view (pm_read i len s) = on_stream (stream_read len) i (pm_view s)"
  unfolding pm_read_def by (rule pm_transfer_refines [OF assms]; erule pipe_read_stream)+

lemma pm_write_stream:
  assumes "pm_ok s"
  shows "pm_ok (snd (pm_write i bs s))" and "map_prod id pm_view (pm_write i bs s) = on_stream (stream_write bs) i (pm_view s)"
  unfolding pm_write_def by (rule pm_transfer_refines [OF assms]; erule pipe_write_stream)+

interpretation pipes: op_refinement pm_ok pm_view pm_step stream_step
proof unfold_locales
  fix s :: IoState and op
  assume ok: "pm_ok s"
  show "pm_ok (snd (pm_step op s))"
    using ok pm_read_stream(1) pm_write_stream(1) by (cases op) simp_all
  have "pipe_used p > 0 \<longleftrightarrow> pipe_bytes p \<noteq> []" for p by (metis length_greater_0_conv length_pipe_bytes)
  then have ready: "pipe_peek_read_ready i s = map_option (\<lambda>(bs, wc, rc). bs \<noteq> [] \<or> wc) (pm_view s i)" for i
    by (simp add: pipe_peek_read_ready_def pipe_peek_def pm_view_def pm_get_def pipe_stream_def option.map_comp comp_def)
  show "map_prod id pm_view (pm_step op s) = stream_step op (pm_view s)"
    using pm_read_stream(2) [OF ok] pm_write_stream(2) [OF ok] ready by (cases op) (simp_all add: map_prod_swap)
qed

text \<open>
  C29. Pipes carry bytes in order: under every sequence of reads, writes and polls on any pipes, each
  call returns what byte streams bounded by 4095 bytes return. A read takes the oldest bytes, a write
  stores what fits, a pipe with no writer left reports the end of the stream, and no pipe affects
  another.
\<close>

theorem pm_ops_stream:
  assumes "pm_ok s"
  shows "fst (run_ops pm_step ops s) = fst (run_ops stream_step ops (pm_view s))"
  using pipes.run_results [OF assms] .

definition two_pipes :: IoState where
  "two_pipes = io_new \<lparr> pm_pipes := [Some pipe_new_unused, Some pipe_new_unused] \<rparr>"

lemma two_pipes_get: "pm_get two_pipes i = (if unat i < 2 then Some pipe_new_unused else None)"
  by (auto simp: two_pipes_def pm_get_def nth_Cons' less_Suc_eq numeral_2_eq_2)

lemma pipe_new_view: "pipe_inv pipe_new_unused" "pipe_stream pipe_new_unused = ([], False, False)"
  by (simp_all add: pipe_inv_def pipe_new_unused_def pipe_stream_def pipe_bytes_def pipe_used_def)

theorem pm_ops_stream_witness:
  "pm_ok two_pipes \<and> fst (run_ops pm_step [PmWrite 0 [1, 2, 3], PmWrite 1 [9], PmRead 0 2, PmRead 0 2, PmRead 0 2] two_pipes)
    = [Put (Ok 3), Put (Ok 1), Got (Ok [1, 2]), Got (Ok [3]), Got (Err ())]"
proof -
  have ok: "pm_ok two_pipes" by (simp add: pm_ok_def two_pipes_get pipe_new_view split: if_splits)
  moreover have "pm_view two_pipes i = (if unat i < 2 then Some ([], False, False) else None)" for i
    by (simp add: pm_view_def two_pipes_get pipe_new_view)
  ultimately show ?thesis
    using pm_ops_stream [OF ok, of "[PmWrite 0 [1, 2, 3], PmWrite 1 [9], PmRead 0 2, PmRead 0 2, PmRead 0 2]"]
    by (simp add: on_stream_def stream_write_def stream_read_def Let_def)
qed

section \<open>Handing out and closing pipes\<close>

lemma pm_get_cong: "pm_pipes s' = pm_pipes s \<Longrightarrow> pm_get s' = pm_get s"
  by (simp add: pm_get_def fun_eq_iff)

lemma pm_get_set_kobj [simp]: "pm_get (set_kobj_id i k s) = pm_get s"
proof -
  have "pm_get (set_kobj_id i k s) = pm_get (ensure_idx i s)" by (rule pm_get_cong) (simp add: set_kobj_id_def Let_def)
  then show ?thesis by (simp add: fun_eq_iff)
qed

lemma register_pipe_get: "register_pipe i s = Some s' \<Longrightarrow> pm_get s' = pm_get s"
proof -
  assume "register_pipe i s = Some s'"
  then obtain t kid where "s' = set_kobj_id i (Some kid) (s \<lparr> om_table := t \<rparr>)"
    by (auto simp: register_pipe_def ob_create_object_def on_table_def bind_eq_Some_conv)
  moreover have "pm_get (s \<lparr> om_table := t \<rparr>) = pm_get s" by (rule pm_get_cong) simp
  ultimately show ?thesis by simp
qed

text \<open>The pipe that an allocation hands out, on both of its branches.\<close>

lemma pipe_alloc_get:
  assumes "length (pm_pipes s) \<le> 256" and "pipe_alloc s = Some (Some i, s')"
  obtains p where "case pm_get s i of None \<Rightarrow> True | Some p \<Rightarrow> \<not> pi_in_use p"
    and "pm_get s' = (pm_get s)(i \<mapsto> p)" and "pi_in_use p" and "pi_read_refs p = 0" and "pi_write_refs p = 0"
    and "pi_head p = 0" and "pi_tail p = 0" and "\<not> pi_write_closed p" and "\<not> pi_read_closed p"
proof (cases "position (\<lambda>p. case p of Some pipe \<Rightarrow> \<not> pi_in_use pipe | None \<Rightarrow> False) (pm_pipes s)")
  case None
  let ?n = "length (pm_pipes s)" and ?p = "pipe_new_unused \<lparr> pi_in_use := True \<rparr>"
  let ?s = "s \<lparr> pm_pipes := pm_pipes s @ [Some ?p] \<rparr>"
  have n: "?n < 16" and i: "i = of_nat ?n" and reg: "register_pipe ?n (ensure_idx ?n ?s) = Some s'"
    using assms(2) None by (auto simp: pipe_alloc_def Let_def bind_eq_Some_conv split: if_splits)
  have un: "unat i = ?n" using n i by (simp add: unat_of_nat)
  have "pm_get s' = pm_get ?s" using register_pipe_get [OF reg] by (simp add: fun_eq_iff)
  moreover have "pm_get ?s j = ((pm_get s)(i \<mapsto> ?p)) j" for j
    using un by (cases "j = i") (auto simp: pm_get_def nth_append word_unat_eq_iff)
  ultimately have "pm_get s' = (pm_get s)(i \<mapsto> ?p)" by (simp add: fun_eq_iff)
  then show thesis using un by (intro that [of ?p]) (simp_all add: pm_get_def pipe_new_unused_def)
next
  case (Some k)
  let ?s = "s \<lparr> pm_pipes := (pm_pipes s)[k := map_option (\<lambda>p. pipe_reset (p \<lparr> pi_in_use := True \<rparr>)) (pm_pipes s ! k)] \<rparr>"
  have i: "i = of_nat k" and reg: "register_pipe k ?s = Some s'"
    using assms(2) Some by (auto simp: pipe_alloc_def bind_eq_Some_conv)
  obtain p where p: "pm_pipes s ! k = Some p" "\<not> pi_in_use p" "k < length (pm_pipes s)"
    using position_SomeD [OF Some] by (auto split: option.splits)
  have un: "unat i = k" using p(3) assms(1) i by (simp add: unat_of_nat)
  have "pm_get s' = (pm_get s)(i \<mapsto> pipe_reset (p \<lparr> pi_in_use := True \<rparr>))"
    using register_pipe_get [OF reg] pm_get_update(2) [of i s] un p by simp
  then show thesis using un p by (intro that [of "pipe_reset (p \<lparr> pi_in_use := True \<rparr>)"]) (simp_all add: pm_get_def pipe_reset_def)
qed

text \<open>
  An allocated pipe was not in use: allocation, when it returns a pipe, returns one that no open end
  refers to, empty and with both ends open, and leaves every other pipe as it was. The manager never
  has more than 256 slots, since pipes are named by a byte.
\<close>

lemma pipe_alloc_fresh:
  assumes "length (pm_pipes s) \<le> 256" and "pipe_alloc s = Some (Some i, s')"
  shows "(case pm_get s i of None \<Rightarrow> True | Some p \<Rightarrow> \<not> pi_in_use p) \<and>
    (\<exists>p. pm_get s' i = Some p \<and> pi_in_use p \<and> pipe_stream p = ([], False, False) \<and> pi_read_refs p = 0 \<and> pi_write_refs p = 0) \<and>
    (\<forall>j. j \<noteq> i \<longrightarrow> pm_get s' j = pm_get s j)"
proof -
  obtain p where old: "case pm_get s i of None \<Rightarrow> True | Some p \<Rightarrow> \<not> pi_in_use p"
    and new: "pm_get s' = (pm_get s)(i \<mapsto> p)" "pi_in_use p" "pi_read_refs p = 0" "pi_write_refs p = 0"
      "pi_head p = 0" "pi_tail p = 0" "\<not> pi_write_closed p" "\<not> pi_read_closed p"
    by (rule pipe_alloc_get [OF assms])
  have "pipe_stream p = ([], False, False)" using new(5-8) by (simp add: pipe_stream_def pipe_bytes_def pipe_used_def)
  then show ?thesis using old new(1-4) by auto
qed

lemma io_create:
  "om_ok (Suc n) m \<Longrightarrow> \<exists>t. ob_create_object ty name nid fl ops m = Some (ot_next_id (om_table m), m \<lparr> om_table := t \<rparr>)"
  using ob_create_map [of n "om_table m" ty name nid fl ops] by (auto simp: om_ok_def ob_create_object_def on_table_def)

lemma register_pipe_returns: "om_ok (Suc n) s \<Longrightarrow> \<exists>s'. register_pipe i s = Some s'"
  using io_create [of n s ObPipe "ascii ''pipe/'' @ decimal i" "of_nat i" 0 None] by (auto simp: register_pipe_def)

lemma io_new_ok: "n < 2 ^ 64 - 1 \<Longrightarrow> om_ok n io_new"
  using ob_new_inv by (simp add: om_ok_def io_new_def om_new_def ObMan.extend_def)

text \<open>
  Closing one of several readers closes the pipe for its writers: after the read count of a pipe in
  use drops from two or more, readers remain, but every later write fails. The same holds for the
  writers, whose readers are told that the stream has ended once the waiting bytes are read.
\<close>

lemma one_close_ends_pipe:
  assumes "pm_get s i = Some p" and "pi_read_refs p > 1" and "pi_write_refs p > 1" and "pipe_bytes p = []" and "0 < len"
  shows "\<exists>r w. dec_read_ref cb i s = Some r \<and> (\<exists>q. pm_get r i = Some q \<and> pi_read_refs q > 0) \<and> fst (pm_write i bs r) = Err () \<and>
    dec_write_ref cb i s = Some w \<and> (\<exists>q. pm_get w i = Some q \<and> pi_write_refs q > 0) \<and> fst (pm_read i len w) = Ok []"
proof -
  have get: "pm_get (with_pipe f i s) i = Some (f p)" for f
    using assms(1) unat_in_ensured [of i s] by (simp add: with_pipe_def Let_def pm_get_update ensure_idx_get)
  have mf: "maybe_free_pipe cb i t = Some (ensure_idx (unat i) t)" if "pm_get t i = Some q" "pi_read_refs q \<noteq> 0 \<or> pi_write_refs q \<noteq> 0" for t q
    using that by (auto simp: maybe_free_pipe_def get_kobj_id_def Let_def ensure_idx_get)
  have pos: "pi_read_refs p > 0" "pi_write_refs p > 0" "pi_read_refs p - 1 > 0" "pi_write_refs p - 1 > 0"
    using assms(2,3) by (auto simp: word_less_nat_alt unat_minus_one unat_gt_0)
  have "dec_read_ref cb i s = Some (ensure_idx (unat i) (with_pipe pipe_close_read i s))"
    using mf [OF get [of pipe_close_read]] pos by (simp add: dec_read_ref_def pipe_close_read_def word_gt_0)
  moreover have "fst (pm_write i bs (ensure_idx (unat i) (with_pipe pipe_close_read i s))) = Err ()"
    unfolding pm_write_def by (subst pm_transfer_get(1)) (simp add: get pipe_write_def pipe_close_read_def)
  moreover have "dec_write_ref cb i s = Some (ensure_idx (unat i) (with_pipe pipe_close_write i s))"
    using mf [OF get [of pipe_close_write]] pos by (simp add: dec_write_ref_def pipe_close_write_def word_gt_0)
  moreover have "pipe_used p = 0" using assms(4) length_pipe_bytes [of p] by simp
  then have "pipe_used (pipe_close_write p) = 0" by (auto simp: pipe_used_def pipe_close_write_def split: if_splits)
  then have "fst (pm_read i len (ensure_idx (unat i) (with_pipe pipe_close_write i s))) = Ok []"
    unfolding pm_read_def by (subst pm_transfer_get(1)) (simp add: get pipe_read_def, simp add: pipe_close_write_def)
  ultimately show ?thesis using pos by (simp add: get pipe_close_read_def pipe_close_write_def)
qed

section \<open>Destruction ends\<close>

text \<open>
  Destroying an object may run a callback that destroys further objects. Every object is taken out of the
  table before its callback runs, so the recursion is bounded by the number of objects.
\<close>

definition objects :: "'z ObMan_scheme \<Rightarrow> u64 set" where
  "objects m = dom (ob_map (om_table m))"

definition io_ok :: "nat \<Rightarrow> 'z IoState_scheme \<Rightarrow> bool" where
  "io_ok n s \<longleftrightarrow> om_ok n s \<and> (\<forall>k. Some k \<in> set (pm_kobj_ids s) \<longrightarrow> k \<noteq> TOMBSTONE)"

text \<open>What a callback does on the states of \<open>S\<close>: it returns, keeps the state sound and creates no object.\<close>

definition cb_returns :: "nat \<Rightarrow> ('z IoState_scheme \<Rightarrow> bool) \<Rightarrow> ('z IoState_ext) destroy_cb \<Rightarrow> bool" where
  "cb_returns n S cb \<longleftrightarrow> (\<forall>ops i x s. S s \<longrightarrow> io_ok n s \<longrightarrow> (\<exists>s'. cb ops i x s = Some s' \<and> io_ok n s' \<and> objects s' \<subseteq> objects s))"

lemma finite_objects: "om_ok n m \<Longrightarrow> finite (objects m)"
proof -
  assume "om_ok n m"
  then have inv: "ob_inv n (om_table m)" by (simp add: om_ok_def)
  have "objects m \<subseteq> (\<lambda>t. ob_id (the t)) ` set (ot_slots (om_table m))"
    using ob_invD(4,5) [OF inv] by (fastforce simp: objects_def ob_map_def split: option.splits intro: rev_image_eqI nth_mem)
  then show ?thesis by (rule finite_subset) simp
qed

lemma io_ok_upd [simp]:
  "io_ok n (s \<lparr> om_ns := d \<rparr>) = io_ok n s" "io_ok n (s \<lparr> pm_pipes := ps \<rparr>) = io_ok n s"
  "objects (s \<lparr> om_ns := d \<rparr>) = objects s" "objects (s \<lparr> pm_pipes := ps \<rparr>) = objects s" "objects (s \<lparr> pm_kobj_ids := ks \<rparr>) = objects s"
  by (simp_all add: io_ok_def om_ok_def objects_def)

lemma io_ok_ensure [simp]: "io_ok n (ensure_idx k s) = io_ok n s" "objects (ensure_idx k s) = objects s"
  by (auto simp: io_ok_def om_ok_def objects_def ensure_idx_def resize_none_def)

lemma set_kobj_id_ok: "io_ok n s \<Longrightarrow> io_ok n (set_kobj_id k None s)" "objects (set_kobj_id k x s) = objects s"
  using set_update_subset_insert [of "pm_kobj_ids (ensure_idx k s)" k None] io_ok_ensure(1) [of n k s]
  by (auto simp: set_kobj_id_def Let_def io_ok_def om_ok_def)

lemma destroy_step:
  assumes ok: "io_ok n s" and "i \<noteq> TOMBSTONE" and cb: "cb_returns n (\<lambda>s1. objects s1 \<subset> objects s) cb"
  shows "\<exists>r s'. ob_destroy_object cb i s = Some (r, s') \<and> io_ok n s' \<and> objects s' \<subseteq> objects s \<and>
    (case ob_map (om_table s) i of None \<Rightarrow> r = Err ObNotFound
     | Some ob \<Rightarrow> if ob_refcount ob > 1 then r = Err ObRefCountHeld else r = Ok () \<and> i \<notin> objects s')"
proof -
  obtain q t where t: "ob_unlink i (om_table s) = Some (q, t)" "ob_inv n t"
      "case ob_map (om_table s) i of None \<Rightarrow> q = Err ObNotFound \<and> ob_map t = ob_map (om_table s)
        | Some ob \<Rightarrow> if ob_refcount ob > 1 then q = Err ObRefCountHeld \<and> ob_map t = ob_map (om_table s)
          else q = Ok (ob_ops ob, ob_native_id ob) \<and> ob_map t = (ob_map (om_table s))(i := None)"
    using ob_unlink_map [of n "om_table s" i] assms(1,2) by (auto simp: om_ok_def io_ok_def)
  show ?thesis
  proof (cases q)
    case (Err e)
    then have same: "ob_map t = ob_map (om_table s)" using t(3) by (auto split: option.splits if_splits)
    then have "io_ok n (s \<lparr> om_table := t \<rparr>)" "objects (s \<lparr> om_table := t \<rparr>) = objects s"
      using ok t(2) by (simp_all add: io_ok_def om_ok_def objects_def)
    moreover have "ob_destroy_object cb i s = Some (Err e, s \<lparr> om_table := t \<rparr>)"
      using t(1) Err by (simp add: ob_destroy_object_def take_for_destroy_def on_table_def)
    ultimately show ?thesis using Err t(3) by (auto split: option.splits if_splits)
  next
    case (Ok x)
    let ?s = "s \<lparr> om_table := t, om_security := (om_security s)(i := None) \<rparr>"
    obtain ob where ob: "ob_map (om_table s) i = Some ob" "\<not> ob_refcount ob > 1" "ob_map t = (ob_map (om_table s))(i := None)"
      using Ok t(3) by (auto split: option.splits if_splits)
    then have "io_ok n ?s" using ok t(2) by (auto simp: io_ok_def om_ok_def)
    moreover have o: "objects ?s = objects s - {i}" "i \<in> objects s" using ob by (auto simp: objects_def)
    ultimately have "io_ok n ?s" "objects ?s \<subset> objects s" by auto
    then have "\<exists>s1. cb ops i y ?s = Some s1 \<and> io_ok n s1 \<and> objects s1 \<subseteq> objects ?s" for ops y
      using cb unfolding cb_returns_def by blast
    with \<open>io_ok n ?s\<close> have "\<exists>s1. (case fst x of None \<Rightarrow> Some ?s | Some ops \<Rightarrow> cb ops i (snd x) ?s) = Some s1 \<and> io_ok n s1 \<and> objects s1 \<subseteq> objects ?s"
      by (cases "fst x") simp_all
    then obtain s1 where s1: "(case fst x of None \<Rightarrow> Some ?s | Some ops \<Rightarrow> cb ops i (snd x) ?s) = Some s1" "io_ok n s1" "objects s1 \<subseteq> objects ?s" by blast
    then have "ob_destroy_object cb i s = Some (Ok (), s1 \<lparr> om_ns := snd (ob_remove_by_id i (om_ns s1)) \<rparr>)"
      using t(1) Ok by (simp add: ob_destroy_object_def take_for_destroy_def on_table_def finish_destroy_def)
    then show ?thesis using s1(2,3) o ob(1,2) by auto
  qed
qed

lemma free_pipe_step:
  assumes ok: "io_ok n s" and cb: "cb_returns n (\<lambda>s1. objects s1 \<subset> objects s) cb"
  shows "\<exists>s'. free_pipe cb pipe_id s = Some s' \<and> io_ok n s' \<and> objects s' \<subseteq> objects s"
proof -
  let ?idx = "unat pipe_id"
  let ?s = "ensure_idx ?idx (ensure_idx ?idx s)"
  have "\<exists>s'. destroy_kobj cb ?idx (pm_kobj_ids ?s ! ?idx) ?s = Some s' \<and> io_ok n s' \<and> objects s' \<subseteq> objects s"
  proof (cases "pm_kobj_ids ?s ! ?idx")
    case None
    then show ?thesis using ok by (simp add: destroy_kobj_def)
  next
    case (Some k)
    have "?idx < length (pm_kobj_ids ?s)" by (simp add: ensure_idx_def resize_none_length)
    then have "Some k \<in> set (pm_kobj_ids ?s)" using Some nth_mem by fastforce
    moreover have "io_ok n ?s" using ok by simp
    ultimately have "k \<noteq> TOMBSTONE" by (auto simp: io_ok_def)
    then obtain r s1 where "ob_destroy_object cb k ?s = Some (r, s1)" "io_ok n s1" "objects s1 \<subseteq> objects s"
      using destroy_step [of n ?s k cb] ok cb by auto
    then show ?thesis using Some by (simp add: destroy_kobj_def set_kobj_id_ok)
  qed
  then show ?thesis by (auto simp: free_pipe_def get_kobj_id_def Let_def)
qed

lemma io_on_destroy_returns:
  assumes "cb_returns n (\<lambda>_. True) ext"
  shows "cb_returns n (\<lambda>_. True) (io_on_destroy ext)"
proof -
  have "\<exists>s'. io_on_destroy ext ops i x s = Some s' \<and> io_ok n s' \<and> objects s' \<subseteq> objects s" if "io_ok n s" for ops i x s
    using that
  proof (induction "card (objects s)" arbitrary: ops i x s rule: less_induct)
    case less
    have "finite (objects s)" using less.prems finite_objects by (auto simp: io_ok_def)
    then have "cb_returns n (\<lambda>s1. objects s1 \<subset> objects s) (io_on_destroy ext)"
      unfolding cb_returns_def using less.hyps psubset_card_mono by blast
    then have "\<exists>s'. free_pipe (io_on_destroy ext) (ucast x) s = Some s' \<and> io_ok n s' \<and> objects s' \<subseteq> objects s"
      by (rule free_pipe_step [OF less.prems])
    moreover have "\<exists>s'. ext ops i x s = Some s' \<and> io_ok n s' \<and> objects s' \<subseteq> objects s"
      using assms less.prems by (simp add: cb_returns_def)
    ultimately show ?case unfolding io_on_destroy.simps [of ext ops i x s] by simp
  qed
  then show ?thesis by (simp add: cb_returns_def)
qed

text \<open>
  C30. Closing an object returns, also when its destruction makes callbacks destroy further objects, as long
  as the callbacks of objects other than pipes return and create nothing. An object with more references
  stays, the last close removes it, and no object appears.
\<close>

theorem close_object_returns:
  assumes "io_ok n s" and "i \<noteq> TOMBSTONE" and "cb_returns n (\<lambda>_. True) ext"
  shows "\<exists>r s'. ob_close_object (io_on_destroy ext) i s = Some (r, s') \<and> io_ok n s' \<and> objects s' \<subseteq> objects s \<and>
    (case ob_map (om_table s) i of None \<Rightarrow> r = Err ObNotFound
     | Some ob \<Rightarrow> r = Ok () \<and> (i \<in> objects s' \<longleftrightarrow> ob_refcount ob > 1))"
proof -
  let ?f = "\<lambda>ob. let n = (if ob_refcount ob > 0 then ob_refcount ob - 1 else ob_refcount ob) in (n, ob \<lparr> ob_refcount := n \<rparr>)"
  obtain q t where t: "on_table (ob_dereference i) s = Some (q, s \<lparr> om_table := t \<rparr>)" "om_ok n (s \<lparr> om_table := t \<rparr>)"
      "map_modify ?f i (ob_map (om_table s)) = (q, ob_map t)"
    using modify_ok [of n s i ?f] assms(1,2) by (auto simp: io_ok_def ob_dereference_def Let_def)
  let ?s = "s \<lparr> om_table := t \<rparr>"
  have ok: "io_ok n ?s" using t(2) assms(1) by (simp add: io_ok_def)
  show ?thesis
  proof (cases "ob_map (om_table s) i")
    case None
    then have "q = Err ObNotFound" "objects ?s = objects s" using t(3) by (auto simp: map_modify_def objects_def)
    then show ?thesis using t(1) ok None by (simp add: ob_close_object_def)
  next
    case (Some ob)
    define cnt where "cnt = fst (?f ob)"
    have q: "q = Ok cnt" "ob_map t = (ob_map (om_table s))(i \<mapsto> ob \<lparr> ob_refcount := cnt \<rparr>)"
      using t(3) Some by (auto simp: map_modify_def cnt_def Let_def)
    then have same: "objects ?s = objects s" "i \<in> objects s" using Some by (auto simp: objects_def)
    have cnt: "cnt > 0 \<longleftrightarrow> ob_refcount ob > 1"
      unfolding cnt_def Let_def fst_conv by (cases "ob_refcount ob = 0") (simp_all add: word_neq_0_conv, unat_arith)
    have cb: "cb_returns n (\<lambda>s1. objects s1 \<subset> objects ?s) (io_on_destroy ext)"
      using io_on_destroy_returns [OF assms(3)] unfolding cb_returns_def by blast
    have at: "ob_map (om_table ?s) i = Some (ob \<lparr> ob_refcount := cnt \<rparr>)" using q(2) by simp
    obtain r s' where s': "ob_destroy_object (io_on_destroy ext) i ?s = Some (r, s')" "io_ok n s'" "objects s' \<subseteq> objects s"
        "if cnt > 1 then r = Err ObRefCountHeld else r = Ok () \<and> i \<notin> objects s'"
      using destroy_step [OF ok assms(2) cb] unfolding at same(1) by auto
    have "ob_close_object (io_on_destroy ext) i s = (if cnt > 0 then Some (Ok (), ?s) else Some (r, s'))"
      using t(1) q(1) s'(1) by (simp add: ob_close_object_def)
    moreover have "\<not> 1 < cnt" if "\<not> 0 < cnt" using that by (auto simp: word_gt_0)
    ultimately show ?thesis using s'(2-4) ok same Some cnt by (cases "cnt > 0") auto
  qed
qed

text \<open>A pipe whose object frees it when destroyed: the callback comes back to the same object.\<close>

theorem close_object_returns_witness:
  "\<exists>(s :: IoState) s'. io_ok 0 s \<and> pm_kobj_ids s = [Some 1] \<and> 1 \<in> objects s \<and>
     ob_close_object (io_on_destroy (\<lambda>_ _ _ s. Some s)) 1 s = Some (Ok (), s') \<and> 1 \<notin> objects s'"
proof -
  have first: "ot_next_id (om_table io_new) = 1" by (simp add: io_new_def om_new_def ObMan.extend_def ob_table_new_def)
  obtain t where t: "ob_create_object ObPipe [] 0 0 (Some PIPE_OPS) io_new = Some (1, io_new \<lparr> om_table := t \<rparr>)"
    using io_create [OF io_new_ok, of 0 ObPipe "[]" 0 0 "Some PIPE_OPS"] first by auto
  let ?s = "io_new \<lparr> om_table := t, pm_kobj_ids := [Some 1] \<rparr>"
  have ob: "om_ok 0 (io_new \<lparr> om_table := t \<rparr>)" "ob_map t 1 = Some (fresh_object 1 ObPipe [] 0 0 (Some PIPE_OPS))"
    using create_ok [where n = 0, OF io_new_ok t] by simp_all
  then have s: "io_ok 0 ?s" "1 \<in> objects ?s" by (auto simp: io_ok_def om_ok_def objects_def TOMBSTONE_def)
  have cb: "cb_returns 0 (\<lambda>_. True) ((\<lambda>_ _ _ s. Some s) :: (unit IoState_ext) destroy_cb)" by (simp add: cb_returns_def)
  have "(1 :: u64) \<noteq> TOMBSTONE" by (simp add: TOMBSTONE_def)
  from close_object_returns [OF s(1) this cb] obtain s' where
    "ob_close_object (io_on_destroy (\<lambda>_ _ _ s. Some s)) 1 ?s = Some (Ok (), s')" "1 \<notin> objects s'"
    using ob(2) by (auto simp: fresh_object_def)
  then show ?thesis using s by (intro exI [of _ ?s] exI [of _ s']) simp
qed

end
