(* ===== verification/Input.thy ===== *)
theory Input
  imports Queues
begin

text \<open>
  Keyboard input (neodos-kernel/src/input: \<open>vt.rs\<close>, \<open>kbd/ring.rs\<close>, \<open>manager.rs\<close>): the byte queue and
  the ring of raw key events of each virtual terminal, and the manager that routes bytes and events to
  the active terminal, tracks the foreground process of each and defers work from interrupts.

  The atomic indices of the queues are plain fields, since every operation is one step. The saved
  screen of a terminal is a value of a parameter type \<open>'c\<close>. Calls into other components are collected
  in \<open>in_trace\<close>; deferred work goes to the work queue of \<open>Queues\<close>.
\<close>

section \<open>Byte queue of a terminal\<close>

abbreviation (input) VT_COUNT :: nat where "VT_COUNT \<equiv> 4"

abbreviation (input) VT_QUEUE_SIZE :: nat where "VT_QUEUE_SIZE \<equiv> 4096"

record VtInputQueue =
  vq_buffer :: bytes
  vq_head :: nat
  vq_tail :: nat

definition vq_new :: VtInputQueue where
  "vq_new = \<lparr> vq_buffer = replicate VT_QUEUE_SIZE 0, vq_head = 0, vq_tail = 0 \<rparr>"

definition vq_push :: "VtInputQueue \<Rightarrow> u8 \<Rightarrow> bool \<times> VtInputQueue" where
  "vq_push q b = (let next = (vq_tail q + 1) mod VT_QUEUE_SIZE in
     if next = vq_head q then (False, q)
     else (True, q \<lparr> vq_buffer := (vq_buffer q)[vq_tail q := b], vq_tail := next \<rparr>))"

definition vq_pop :: "VtInputQueue \<Rightarrow> u8 option \<times> VtInputQueue" where
  "vq_pop q = (if vq_head q = vq_tail q then (None, q)
     else (Some (vq_buffer q ! vq_head q), q \<lparr> vq_head := (vq_head q + 1) mod VT_QUEUE_SIZE \<rparr>))"

definition vq_has_data :: "VtInputQueue \<Rightarrow> bool" where
  "vq_has_data q \<longleftrightarrow> vq_head q \<noteq> vq_tail q"

definition vq_occupancy :: "VtInputQueue \<Rightarrow> nat" where
  "vq_occupancy q = (if vq_tail q \<ge> vq_head q then vq_tail q - vq_head q else VT_QUEUE_SIZE - vq_head q + vq_tail q)"

definition vq_inv :: "VtInputQueue \<Rightarrow> bool" where [inv_defs]:
  "vq_inv q \<longleftrightarrow> length (vq_buffer q) = VT_QUEUE_SIZE \<and> vq_head q < VT_QUEUE_SIZE \<and> vq_tail q < VT_QUEUE_SIZE"

definition vq_abs :: "VtInputQueue \<Rightarrow> bytes" where
  "vq_abs q = ring_list (vq_buffer q) (vq_head q) (vq_occupancy q)"

lemma vq_occupancy_count: "vq_occupancy q = ring_count VT_QUEUE_SIZE (vq_head q) (vq_tail q)"
  by (simp add: vq_occupancy_def ring_count_def)

interpretation vq: bounded_fifo vq_inv vq_abs "VT_QUEUE_SIZE - 1" vq_push vq_pop
proof
  fix q and b :: u8
  assume inv: "vq_inv q"
  show "vq_inv (snd (vq_push q b))" and "vq_inv (snd (vq_pop q))"
    using inv by (auto simp: vq_inv_def vq_push_def vq_pop_def Let_def)
  show "length (vq_abs q) \<le> VT_QUEUE_SIZE - 1"
    using inv ring_count_less [of "vq_head q" VT_QUEUE_SIZE "vq_tail q"]
    by (simp add: vq_abs_def vq_occupancy_count vq_inv_def)
  show "map_prod id vq_abs (vq_push q b) = list_push (VT_QUEUE_SIZE - 1) (vq_abs q) b"
    using inv ring_push_abs [of "vq_head q" "vq_buffer q" "vq_tail q" b]
    by (auto simp: vq_abs_def vq_occupancy_count vq_inv_def vq_push_def Let_def)
  show "map_prod id vq_abs (vq_pop q) = list_pop (vq_abs q)"
    using inv ring_pop_abs [of "vq_head q" "vq_buffer q" "vq_tail q"]
    by (auto simp: vq_abs_def vq_occupancy_count vq_inv_def vq_pop_def)
qed

lemma vq_new_inv: "vq_inv vq_new" and vq_new_abs: "vq_abs vq_new = []"
  by (simp_all add: vq_inv_def vq_new_def vq_abs_def vq_occupancy_def)

section \<open>Ring of raw key events\<close>

abbreviation (input) KEY_RING_CAP :: nat where "KEY_RING_CAP \<equiv> 256"

record KeyEvent =
  ke_scancode :: u16
  ke_vk :: u16
  ke_codepoint :: u32
  ke_modifiers :: u8
  ke_pressed :: u8
  ke_flags :: u8
  ke_pad :: u32

definition KEY_EVENT_NONE :: KeyEvent where
  "KEY_EVENT_NONE = \<lparr> ke_scancode = 0, ke_vk = 0, ke_codepoint = 0, ke_modifiers = 0, ke_pressed = 0, ke_flags = 0, ke_pad = 0 \<rparr>"

record KeyEventRing =
  kr_buf :: "KeyEvent list"
  kr_head :: u64
  kr_tail :: u64
  kr_dropped :: u64

definition kr_new :: KeyEventRing where
  "kr_new = \<lparr> kr_buf = replicate KEY_RING_CAP KEY_EVENT_NONE, kr_head = 0, kr_tail = 0, kr_dropped = 0 \<rparr>"

definition kr_push :: "KeyEventRing \<Rightarrow> KeyEvent \<Rightarrow> KeyEventRing" where
  "kr_push r ev =
    (let t = kr_tail r; h = kr_head r;
         r1 = (if unat (t - h) \<ge> KEY_RING_CAP then r \<lparr> kr_head := h + 1, kr_dropped := kr_dropped r + 1 \<rparr> else r)
     in r1 \<lparr> kr_buf := (kr_buf r1)[unat t mod KEY_RING_CAP := ev], kr_tail := t + 1 \<rparr>)"

definition kr_pop :: "KeyEventRing \<Rightarrow> KeyEvent option \<times> KeyEventRing" where
  "kr_pop r = (if kr_head r = kr_tail r then (None, r)
     else (Some (kr_buf r ! (unat (kr_head r) mod KEY_RING_CAP)), r \<lparr> kr_head := kr_head r + 1 \<rparr>))"

definition kr_has_data :: "KeyEventRing \<Rightarrow> bool" where
  "kr_has_data r \<longleftrightarrow> kr_head r \<noteq> kr_tail r"

definition kr_len :: "KeyEventRing \<Rightarrow> nat" where
  "kr_len r = unat (kr_tail r - kr_head r)"

definition kr_clear :: "KeyEventRing \<Rightarrow> KeyEventRing" where
  "kr_clear r = r \<lparr> kr_head := kr_tail r \<rparr>"


text \<open>A full ring drops its oldest event: the newest 256 are kept.\<close>

definition push_newest :: "nat \<Rightarrow> 'a list \<Rightarrow> 'a \<Rightarrow> 'a list" where
  "push_newest cap xs x = (if length xs < cap then xs else tl xs) @ [x]"

datatype ring_op = RingPush KeyEvent | RingPop | RingClear

fun ring_step :: "ring_op \<Rightarrow> KeyEventRing \<Rightarrow> KeyEvent option \<times> KeyEventRing" where
  "ring_step (RingPush ev) r = (None, kr_push r ev)"
| "ring_step RingPop r = kr_pop r"
| "ring_step RingClear r = (None, kr_clear r)"

fun newest_step :: "ring_op \<Rightarrow> KeyEvent list \<Rightarrow> KeyEvent option \<times> KeyEvent list" where
  "newest_step (RingPush ev) xs = (None, push_newest KEY_RING_CAP xs ev)"
| "newest_step RingPop xs = list_pop xs"
| "newest_step RingClear xs = (None, [])"

definition kr_inv :: "KeyEventRing \<Rightarrow> bool" where [inv_defs]:
  "kr_inv r \<longleftrightarrow> length (kr_buf r) = KEY_RING_CAP \<and> kr_len r \<le> KEY_RING_CAP"

definition kr_abs :: "KeyEventRing \<Rightarrow> KeyEvent list" where
  "kr_abs r = ring_list (kr_buf r) (unat (kr_head r)) (kr_len r)"

lemma unat_add_cap: "unat (a + b :: u64) mod KEY_RING_CAP = (unat a + unat b) mod KEY_RING_CAP"
  by (rule unat_add_mod) simp

lemma kr_len_eq: "kr_head r = h \<Longrightarrow> kr_tail r = h + n \<Longrightarrow> kr_len r = unat n"
  by (simp add: kr_len_def)

lemma ring_list_word:
  "length es = KEY_RING_CAP \<Longrightarrow> ring_list es (unat (h + 1 :: u64)) n = ring_list es (Suc (unat h)) n"
  using unat_add_cap [of h 1] by (intro ring_list_cong) simp

lemma kr_pop_abs:
  assumes "kr_inv r"
  shows "kr_inv (snd (kr_pop r))" and "map_prod id kr_abs (kr_pop r) = list_pop (kr_abs r)"
proof -
  have "kr_inv (snd (kr_pop r)) \<and> map_prod id kr_abs (kr_pop r) = list_pop (kr_abs r)"
  proof (cases "kr_head r = kr_tail r")
    case True
    then show ?thesis using assms by (simp add: kr_pop_def kr_abs_def kr_len_def)
  next
    case False
    define d where "d = kr_tail r - kr_head r"
    have "d \<noteq> 0" using False by (simp add: d_def)
    then have d: "unat d = Suc (unat (d - 1))" by (rule unat_pred_pos)
    have len: "kr_len r = unat d" "kr_len (r \<lparr> kr_head := kr_head r + 1 \<rparr>) = unat (d - 1)"
      by (simp_all add: kr_len_def d_def algebra_simps)
    then show ?thesis
      using False assms d by (auto simp: kr_pop_def kr_inv_def kr_abs_def ring_list_word ring_list_pop)
  qed
  then show "kr_inv (snd (kr_pop r))" and "map_prod id kr_abs (kr_pop r) = list_pop (kr_abs r)" by simp_all
qed

lemma kr_push_room:
  assumes "kr_inv r" and "kr_len r < KEY_RING_CAP"
  shows "kr_inv (r \<lparr> kr_buf := (kr_buf r)[unat (kr_tail r) mod KEY_RING_CAP := ev], kr_tail := kr_tail r + 1 \<rparr>) \<and>
    kr_abs (r \<lparr> kr_buf := (kr_buf r)[unat (kr_tail r) mod KEY_RING_CAP := ev], kr_tail := kr_tail r + 1 \<rparr>) = kr_abs r @ [ev]"
proof -
  define d where "d = kr_tail r - kr_head r"
  have d: "kr_len r = unat d" and tail: "kr_tail r = kr_head r + d" by (simp_all add: d_def kr_len_def)
  have "kr_len (r \<lparr> kr_buf := b, kr_tail := kr_tail r + 1 \<rparr>) = unat (d + 1)" for b by (simp add: kr_len_def d_def algebra_simps)
  moreover have "unat (d + 1) = Suc (unat d)" using assms(2) d by (intro unat_Suc_small) simp
  moreover have "unat (kr_tail r) mod KEY_RING_CAP = (unat (kr_head r) + unat d) mod KEY_RING_CAP" unfolding tail by (rule unat_add_cap)
  ultimately show ?thesis
    using assms d ring_list_push [of "unat d" "kr_buf r" "unat (kr_head r)" ev] by (simp add: kr_inv_def kr_abs_def)
qed

lemma kr_push_abs:
  assumes "kr_inv r"
  shows "kr_inv (kr_push r ev) \<and> kr_abs (kr_push r ev) = push_newest KEY_RING_CAP (kr_abs r) ev"
proof (cases "kr_len r < KEY_RING_CAP")
  case True
  then show ?thesis using kr_push_room [OF assms True, of ev]
    by (simp add: kr_push_def Let_def kr_len_def [symmetric] push_newest_def kr_abs_def)
next
  case False
  then have full: "kr_len r = KEY_RING_CAP" using assms by (simp add: kr_inv_def)
  let ?p = "snd (kr_pop r)" and ?r = "\<lambda>n. snd (kr_pop r) \<lparr> kr_dropped := n \<rparr>"
  have "kr_head r \<noteq> kr_tail r" using full by (auto simp: kr_len_def)
  then have push: "kr_push r ev = (let r1 = ?r (kr_dropped r + 1)
      in r1 \<lparr> kr_buf := (kr_buf r1)[unat (kr_tail r1) mod KEY_RING_CAP := ev], kr_tail := kr_tail r1 + 1 \<rparr>)"
    using full by (simp add: kr_push_def kr_pop_def Let_def kr_len_def)
  have "kr_abs ?p = snd (list_pop (kr_abs r))" using kr_pop_abs(2) [OF assms] by (metis snd_map_prod)
  then have tl: "kr_abs (?r n) = tl (kr_abs r)" for n by (cases "kr_abs r") (simp_all add: kr_abs_def kr_len_def)
  have inv: "kr_inv (?r n)" for n using kr_pop_abs(1) [OF assms] by (simp add: kr_inv_def kr_len_def)
  have "length (kr_abs (?r n)) = KEY_RING_CAP - 1" for n unfolding tl using full by (simp add: kr_abs_def)
  then have room: "kr_len (?r n) < KEY_RING_CAP" for n by (simp add: kr_abs_def)
  show ?thesis unfolding push Let_def using kr_push_room [OF inv room, of "kr_dropped r + 1" ev] tl full
    by (simp add: push_newest_def kr_abs_def [of r])
qed

interpretation keyring: op_refinement kr_inv kr_abs ring_step newest_step
proof unfold_locales
  fix r op
  assume inv: "kr_inv r"
  show "kr_inv (snd (ring_step op r))"
    using inv kr_push_abs [OF inv] kr_pop_abs(1) [OF inv] by (cases op) (simp_all add: kr_clear_def kr_inv_def kr_len_def)
  show "map_prod id kr_abs (ring_step op r) = newest_step op (kr_abs r)"
    using kr_push_abs [OF inv] kr_pop_abs(2) [OF inv] by (cases op) (simp_all add: kr_clear_def kr_abs_def kr_len_def)
qed

text \<open>
  Under every sequence of pushes, pops and clears the ring of raw key events returns what a list
  returns that keeps the newest 256 events, whatever the indices it starts from: the 64-bit indices
  may wrap around.
\<close>

lemma key_ring_keeps_newest:
  "fst (run_ops ring_step ops (kr_new \<lparr> kr_head := h, kr_tail := h \<rparr>)) = fst (run_ops newest_step ops [])"
proof -
  have "kr_inv (kr_new \<lparr> kr_head := h, kr_tail := h \<rparr>)" "kr_abs (kr_new \<lparr> kr_head := h, kr_tail := h \<rparr>) = []"
    by (simp_all add: kr_inv_def kr_new_def kr_abs_def kr_len_def)
  then show ?thesis using keyring.run_results by metis
qed

section \<open>Input manager\<close>

datatype input_work = InterruptForeground | PowerShutdown

datatype input_call = WakeKeyboard nat | WakeReaders | KeyBusEvent u32 u64 u64 | SetLeds u8 | SaveConfig

record 'c InputManager =
  im_active :: nat
  im_queues :: "VtInputQueue list"
  im_states :: "'c list"
  im_foreground :: "u32 list"
  im_key_rings :: "KeyEventRing list"
  im_raw :: "bool list"
  in_console :: 'c
  in_work :: "input_work WorkQueueManager"
  in_resched :: bool
  in_trace :: "input_call list"

definition im_new :: "'c \<Rightarrow> 'c \<Rightarrow> 'c InputManager" where
  "im_new blank console = \<lparr> im_active = 0, im_queues = replicate VT_COUNT vq_new, im_states = replicate VT_COUNT blank,
     im_foreground = replicate VT_COUNT 0, im_key_rings = replicate VT_COUNT kr_new, im_raw = replicate VT_COUNT False,
     in_console = console, in_work = wm_new, in_resched = False, in_trace = [] \<rparr>"

definition in_call :: "input_call \<Rightarrow> ('c, 'z) InputManager_scheme \<Rightarrow> ('c, 'z) InputManager_scheme" where
  "in_call c m = m \<lparr> in_trace := in_trace m @ [c] \<rparr>"

definition foreground_pid :: "('c, 'z) InputManager_scheme \<Rightarrow> u32" where
  "foreground_pid m = im_foreground m ! im_active m"

definition set_foreground_pid_for :: "nat \<Rightarrow> u32 \<Rightarrow> ('c, 'z) InputManager_scheme \<Rightarrow> ('c, 'z) InputManager_scheme" where
  "set_foreground_pid_for vt pid m = (if vt < VT_COUNT then m \<lparr> im_foreground := (im_foreground m)[vt := pid] \<rparr> else m)"

definition set_foreground_pid :: "u32 \<Rightarrow> ('c, 'z) InputManager_scheme \<Rightarrow> ('c, 'z) InputManager_scheme" where
  "set_foreground_pid pid m = set_foreground_pid_for (im_active m) pid m"

definition clear_foreground_pid :: "u32 \<Rightarrow> ('c, 'z) InputManager_scheme \<Rightarrow> ('c, 'z) InputManager_scheme" where
  "clear_foreground_pid pid m =
    (if pid = 0 then m
     else m \<lparr> im_foreground := map (\<lambda>q. if q = pid then 0 else q) (im_foreground m),
              im_raw := map2 (\<lambda>q raw. if q = pid then False else raw) (im_foreground m) (im_raw m) \<rparr>)"

definition switch_vt :: "nat \<Rightarrow> ('c, 'z) InputManager_scheme \<Rightarrow> ('c, 'z) InputManager_scheme" where
  "switch_vt vt_num m =
    (if vt_num \<ge> VT_COUNT \<or> vt_num = im_active m then m
     else let states = (im_states m)[im_active m := in_console m]
          in m \<lparr> im_states := states, in_console := states ! vt_num, im_active := vt_num \<rparr>)"

definition push_byte :: "u8 \<Rightarrow> ('c, 'z) InputManager_scheme \<Rightarrow> bool \<times> ('c, 'z) InputManager_scheme" where
  "push_byte b m = (let (ok, q) = vq_push (im_queues m ! im_active m) b
     in (ok, m \<lparr> im_queues := (im_queues m)[im_active m := q] \<rparr>))"

definition pop_byte_from_vt :: "nat \<Rightarrow> ('c, 'z) InputManager_scheme \<Rightarrow> u8 option \<times> ('c, 'z) InputManager_scheme" where
  "pop_byte_from_vt vt m =
    (if vt \<ge> VT_COUNT then (None, m)
     else let (r, q) = vq_pop (im_queues m ! vt) in (r, m \<lparr> im_queues := (im_queues m)[vt := q] \<rparr>))"

definition push_key_event_to :: "nat \<Rightarrow> KeyEvent \<Rightarrow> ('c, 'z) InputManager_scheme \<Rightarrow> ('c, 'z) InputManager_scheme" where
  "push_key_event_to vt ev m =
    (if vt \<ge> VT_COUNT then m
     else in_call (WakeKeyboard vt) (m \<lparr> im_key_rings := (im_key_rings m)[vt := kr_push (im_key_rings m ! vt) ev] \<rparr>))"

definition push_key_event :: "KeyEvent \<Rightarrow> ('c, 'z) InputManager_scheme \<Rightarrow> ('c, 'z) InputManager_scheme" where
  "push_key_event ev m = push_key_event_to (im_active m) ev m"

definition set_raw_mode :: "nat \<Rightarrow> bool \<Rightarrow> ('c, 'z) InputManager_scheme \<Rightarrow> ('c, 'z) InputManager_scheme" where
  "set_raw_mode vt on m =
    (if vt < VT_COUNT
     then let m1 = (if on then m \<lparr> im_key_rings := (im_key_rings m)[vt := kr_clear (im_key_rings m ! vt)] \<rparr> else m)
          in m1 \<lparr> im_raw := (im_raw m1)[vt := on] \<rparr>
     else m)"

definition raw_mode :: "nat \<Rightarrow> ('c, 'z) InputManager_scheme \<Rightarrow> bool" where
  "raw_mode vt m \<longleftrightarrow> vt < VT_COUNT \<and> im_raw m ! vt"

definition vt_active_occupancy_for :: "nat \<Rightarrow> ('c, 'z) InputManager_scheme \<Rightarrow> nat" where
  "vt_active_occupancy_for vt m = (if vt \<ge> VT_COUNT then 0 else vq_occupancy (im_queues m ! vt))"

definition request_foreground_interrupt :: "('c, 'z) InputManager_scheme \<Rightarrow> bool \<times> ('c, 'z) InputManager_scheme" where
  "request_foreground_interrupt m =
    (let pid = foreground_pid m
     in if pid = 0 then (False, m)
        else let (ok, w) = push_high (in_work m) InterruptForeground (ucast pid) in (ok, m \<lparr> in_work := w \<rparr>))"

definition request_shutdown :: "('c, 'z) InputManager_scheme \<Rightarrow> ('c, 'z) InputManager_scheme" where
  "request_shutdown m = m \<lparr> in_work := snd (push_high (in_work m) PowerShutdown 0) \<rparr>"

definition set_need_resched :: "('c, 'z) InputManager_scheme \<Rightarrow> ('c, 'z) InputManager_scheme" where
  "set_need_resched m = m \<lparr> in_resched := True \<rparr>"

definition wake_blocked_readers :: "('c, 'z) InputManager_scheme \<Rightarrow> ('c, 'z) InputManager_scheme" where
  "wake_blocked_readers m = set_need_resched (in_call WakeReaders m)"

text \<open>The shape every operation keeps: one slot per terminal and a valid active terminal.\<close>

definition im_inv :: "('c, 'z) InputManager_scheme \<Rightarrow> bool" where [inv_defs]:
  "im_inv m \<longleftrightarrow> im_active m < VT_COUNT \<and> length (im_queues m) = VT_COUNT \<and> length (im_states m) = VT_COUNT \<and>
    length (im_foreground m) = VT_COUNT \<and> length (im_key_rings m) = VT_COUNT \<and> length (im_raw m) = VT_COUNT \<and>
    (\<forall>q\<in>set (im_queues m). vq_inv q) \<and> (\<forall>r\<in>set (im_key_rings m). kr_inv r)"

lemma im_new_inv: "im_inv (im_new blank console)"
  by (auto simp: im_inv_def im_new_def vq_new_inv kr_inv_def kr_new_def kr_len_def)

lemma im_inv_ops [intro]:
  assumes "im_inv m"
  shows "im_inv (set_foreground_pid_for vt pid m)" "im_inv (clear_foreground_pid pid m)" "im_inv (switch_vt vt m)"
    "im_inv (snd (push_byte b m))" "im_inv (snd (pop_byte_from_vt vt m))" "im_inv (push_key_event_to vt ev m)"
    "im_inv (set_raw_mode vt on m)" "im_inv (snd (request_foreground_interrupt m))" "im_inv (request_shutdown m)"
    "im_inv (wake_blocked_readers m)" "im_inv (in_call c m)" "im_inv (set_need_resched m)"
proof -
  have q: "vt < VT_COUNT \<Longrightarrow> vq_inv (im_queues m ! vt)" "vt < VT_COUNT \<Longrightarrow> kr_inv (im_key_rings m ! vt)" for vt
    using assms by (simp_all add: im_inv_def)
  have a: "im_active m < VT_COUNT" using assms by (simp add: im_inv_def)
  show "im_inv (set_foreground_pid_for vt pid m)" "im_inv (clear_foreground_pid pid m)"
      "im_inv (request_shutdown m)" "im_inv (wake_blocked_readers m)" "im_inv (in_call c m)" "im_inv (set_need_resched m)"
    using assms by (simp_all add: im_inv_def set_foreground_pid_for_def clear_foreground_pid_def request_shutdown_def
        wake_blocked_readers_def in_call_def set_need_resched_def)
  show "im_inv (switch_vt vt m)" using assms by (simp add: im_inv_def switch_vt_def Let_def)
  show "im_inv (snd (request_foreground_interrupt m))"
    using assms by (simp add: im_inv_def request_foreground_interrupt_def Let_def case_prod_beta)
  show "im_inv (snd (push_byte b m))"
    using assms vq.push_inv [OF q(1) [OF a], of b] set_update_subset_insert [of "im_queues m"]
    by (fastforce simp: im_inv_def push_byte_def case_prod_beta)
  show "im_inv (snd (pop_byte_from_vt vt m))"
    using assms vq.pop_inv [OF q(1), of vt] set_update_subset_insert [of "im_queues m"]
    by (fastforce simp: im_inv_def pop_byte_from_vt_def case_prod_beta not_le)
  show "im_inv (push_key_event_to vt ev m)"
    using assms kr_push_abs [OF q(2), of vt ev] set_update_subset_insert [of "im_key_rings m"]
    by (fastforce simp: im_inv_def push_key_event_to_def in_call_def not_le)
  show "im_inv (set_raw_mode vt on m)"
    using assms q(2) [of vt] set_update_subset_insert [of "im_key_rings m"]
    by (fastforce simp: im_inv_def set_raw_mode_def kr_clear_def kr_inv_def kr_len_def Let_def)
qed

end
