(* ===== verification/Keyboard.thy ===== *)
theory Keyboard
  imports Input Bytes "HOL-Library.Monad_Syntax"
begin

text \<open>
  The keyboard manager (neodos-kernel/src/input/kbd): layouts and their file format (\<open>layout.rs\<close>),
  virtual keys (\<open>ring.rs\<close>), UTF-8 encoding (\<open>unicode.rs\<close>), hot keys (\<open>hotkey.rs\<close>), the scancode state
  machine (\<open>mod.rs\<close>) and the queue that holds scancodes while the keyboard lock is busy (\<open>event.rs\<close>).

  The keyboard state extends the input manager's. \<open>None\<close> is a call that does not return: a slice out of
  range, which panics, or waiting for the keyboard lock that the caller itself holds. The file contents
  a layout is loaded from, and the registry, are parameters. Log output is left out.
\<close>

section \<open>Layouts\<close>

record KeyEntry =
  key_normal :: u16
  key_shift :: u16
  key_altgr :: u16
  key_ctrl :: u16
  key_flags :: u8

definition key_empty :: KeyEntry where
  "key_empty = \<lparr> key_normal = 0xFFFF, key_shift = 0xFFFF, key_altgr = 0xFFFF, key_ctrl = 0xFFFF, key_flags = 0 \<rparr>"

record ComposeEntry =
  ce_dead :: u16
  ce_base :: u16
  ce_result :: u16

record KbdLayout =
  lay_name :: bytes
  lay_lang_tag :: bytes
  lay_entries :: "KeyEntry list"
  lay_compose :: "ComposeEntry list"

abbreviation (input) c_string :: "bytes \<Rightarrow> bytes" where
  "c_string bs \<equiv> (let s = takeWhile (\<lambda>b. b \<noteq> 0) bs in if utf8_valid s then s else [0x3F])"

definition name_str :: "KbdLayout \<Rightarrow> bytes" where
  "name_str l = c_string (lay_name l)"

definition lang_tag_str :: "KbdLayout \<Rightarrow> bytes" where
  "lang_tag_str l = c_string (lay_lang_tag l)"

abbreviation (input) KBD_MAGIC :: bytes where "KBD_MAGIC \<equiv> [0x4B, 0x42, 0x44, 0]"

text \<open>The key table: 16 bytes per entry, cut short by the end of the file.\<close>

definition key_entry_at :: "bytes \<Rightarrow> nat \<Rightarrow> KeyEntry" where
  "key_entry_at buf off = \<lparr> key_normal = le_u16 (slice buf off (off + 2)), key_shift = le_u16 (slice buf (off + 2) (off + 4)),
     key_altgr = le_u16 (slice buf (off + 4) (off + 6)), key_ctrl = le_u16 (slice buf (off + 6) (off + 8)),
     key_flags = buf ! (off + 8) \<rparr>"

fun key_loop :: "bytes \<Rightarrow> nat \<Rightarrow> nat \<Rightarrow> nat \<Rightarrow> KeyEntry list \<Rightarrow> nat \<times> KeyEntry list" where
  "key_loop buf 0 i off es = (off, es)"
| "key_loop buf (Suc n) i off es =
    (if off + 16 > length buf then (off, es) else key_loop buf n (i + 1) (off + 16) (es[i := key_entry_at buf off]))"

fun compose_loop :: "bytes \<Rightarrow> nat \<Rightarrow> nat \<Rightarrow> ComposeEntry list" where
  "compose_loop buf 0 off = []"
| "compose_loop buf (Suc n) off =
    (if off + 6 > length buf then []
     else \<lparr> ce_dead = le_u16 (slice buf off (off + 2)), ce_base = le_u16 (slice buf (off + 2) (off + 4)),
             ce_result = le_u16 (slice buf (off + 4) (off + 6)) \<rparr> # compose_loop buf n (off + 6))"

definition pad_name :: "nat \<Rightarrow> bytes \<Rightarrow> bytes" where
  "pad_name n bs = (let s = takeWhile (\<lambda>b. b \<noteq> 0) bs in s @ replicate (n - length s) 0)"

text \<open>\<open>load_kbd\<close> on the contents of the file, \<open>None\<close> in the argument when it cannot be read.\<close>

definition load_kbd :: "bytes option \<Rightarrow> (KbdLayout, unit) result option" where
  "load_kbd file = (case file of
      None \<Rightarrow> Some (Err ())
    | Some buf \<Rightarrow>
        if length buf < 16 then Some (Err ())
        else if take 4 buf \<noteq> KBD_MAGIC then Some (Err ())
        else if le_u32 (slice buf 4 8) \<noteq> 1 then Some (Err ())
        else if length buf < 60 then None
        else let sc_count = min (unat (le_u32 (slice buf 56 60))) 256;
                 (off, entries) = key_loop buf sc_count 0 60 (replicate 256 key_empty);
                 layout = \<lparr> lay_name = pad_name 32 (slice buf 8 40), lay_lang_tag = pad_name 16 (slice buf 40 56),
                            lay_entries = entries, lay_compose = [] \<rparr>
             in if off + 4 > length buf then Some (Ok layout)
                else Some (Ok (layout \<lparr> lay_compose := compose_loop buf (unat (le_u32 (slice buf off (off + 4)))) (off + 4) \<rparr>)))"

definition us_map :: "(u8 \<times> u16 \<times> u16) list" where
  "us_map = (let ch = (\<lambda>sc a b. (sc, of_char a, of_char b)) in
     [(0x01, 0x1B, 0x1B),
      ch 0x02 CHR ''1'' CHR ''!'', ch 0x03 CHR ''2'' CHR 0x40, ch 0x04 CHR ''3'' CHR ''#'', ch 0x05 CHR ''4'' CHR ''$'',
      ch 0x06 CHR ''5'' CHR ''%'', ch 0x07 CHR ''6'' CHR ''^'', ch 0x08 CHR ''7'' CHR ''&'', ch 0x09 CHR ''8'' CHR ''*'',
      ch 0x0A CHR ''9'' CHR 0x28, ch 0x0B CHR ''0'' CHR 0x29, ch 0x0C CHR ''-'' CHR ''_'', ch 0x0D CHR ''='' CHR ''+'',
      (0x0E, 0x08, 0x08), (0x0F, 0x09, 0x09),
      ch 0x10 CHR ''q'' CHR ''Q'', ch 0x11 CHR ''w'' CHR ''W'', ch 0x12 CHR ''e'' CHR ''E'', ch 0x13 CHR ''r'' CHR ''R'',
      ch 0x14 CHR ''t'' CHR ''T'', ch 0x15 CHR ''y'' CHR ''Y'', ch 0x16 CHR ''u'' CHR ''U'', ch 0x17 CHR ''i'' CHR ''I'',
      ch 0x18 CHR ''o'' CHR ''O'', ch 0x19 CHR ''p'' CHR ''P'', ch 0x1A CHR 0x5B CHR 0x7B, ch 0x1B CHR 0x5D CHR 0x7D,
      (0x1C, 0x0A, 0x0A),
      ch 0x1E CHR ''a'' CHR ''A'', ch 0x1F CHR ''s'' CHR ''S'', ch 0x20 CHR ''d'' CHR ''D'', ch 0x21 CHR ''f'' CHR ''F'',
      ch 0x22 CHR ''g'' CHR ''G'', ch 0x23 CHR ''h'' CHR ''H'', ch 0x24 CHR ''j'' CHR ''J'', ch 0x25 CHR ''k'' CHR ''K'',
      ch 0x26 CHR ''l'' CHR ''L'', ch 0x27 CHR '';'' CHR '':'', ch 0x28 CHR 0x27 CHR 0x22, ch 0x29 CHR 0x60 CHR ''~'',
      ch 0x2B CHR 0x5C CHR ''|'',
      ch 0x2C CHR ''z'' CHR ''Z'', ch 0x2D CHR ''x'' CHR ''X'', ch 0x2E CHR ''c'' CHR ''C'', ch 0x2F CHR ''v'' CHR ''V'',
      ch 0x30 CHR ''b'' CHR ''B'', ch 0x31 CHR ''n'' CHR ''N'', ch 0x32 CHR ''m'' CHR ''M'', ch 0x33 CHR '','' CHR ''<'',
      ch 0x34 CHR ''.'' CHR ''>'', ch 0x35 CHR ''/'' CHR ''?'', ch 0x39 CHR '' '' CHR '' '',
      ch 0x37 CHR ''*'' CHR ''*'', ch 0x4A CHR ''-'' CHR ''-'', ch 0x4E CHR ''+'' CHR ''+'',
      ch 0x47 CHR ''7'' CHR ''7'', ch 0x48 CHR ''8'' CHR ''8'', ch 0x49 CHR ''9'' CHR ''9'', ch 0x4B CHR ''4'' CHR ''4'',
      ch 0x4C CHR ''5'' CHR ''5'', ch 0x4D CHR ''6'' CHR ''6'', ch 0x4F CHR ''1'' CHR ''1'', ch 0x50 CHR ''2'' CHR ''2'',
      ch 0x51 CHR ''3'' CHR ''3'', ch 0x52 CHR ''0'' CHR ''0'', ch 0x53 CHR ''.'' CHR ''.''])"

definition builtin_us_layout :: "KeyEntry list" where
  "builtin_us_layout = foldl (\<lambda>es (sc, normal, shift).
     es[unat sc := (es ! unat sc) \<lparr> key_normal := normal, key_shift := shift \<rparr>]) (replicate 256 key_empty) us_map"

definition fallback_layout :: KbdLayout where
  "fallback_layout = \<lparr> lay_name = ascii ''en-US'' @ replicate 27 0, lay_lang_tag = ascii ''en-US'' @ replicate 11 0,
     lay_entries = builtin_us_layout, lay_compose = [] \<rparr>"

definition add_layout :: "KbdLayout \<Rightarrow> KbdLayout list \<Rightarrow> KbdLayout list" where
  "add_layout l ls = (case position (\<lambda>m. name_str m = name_str l) ls of Some i \<Rightarrow> ls[i := l] | None \<Rightarrow> ls @ [l])"

text \<open>\<open>load_layouts\<close>, with the contents of the two layout files.\<close>

definition load_layouts :: "bytes option \<Rightarrow> bytes option \<Rightarrow> KbdLayout list option" where
  "load_layouts en es = do {
     a \<leftarrow> load_kbd en;
     b \<leftarrow> load_kbd es;
     let put = (\<lambda>r ls. case r of Ok l \<Rightarrow> add_layout l ls | Err _ \<Rightarrow> ls);
     Some (put b (put a [fallback_layout])) }"

section \<open>Keys and characters\<close>

abbreviation (input) KBD_SHIFT :: u8 where "KBD_SHIFT \<equiv> 0x01"
abbreviation (input) KBD_CTRL :: u8 where "KBD_CTRL \<equiv> 0x02"
abbreviation (input) KBD_ALT :: u8 where "KBD_ALT \<equiv> 0x04"
abbreviation (input) KBD_ALTGR :: u8 where "KBD_ALTGR \<equiv> 0x08"
abbreviation (input) KBD_CAPS :: u8 where "KBD_CAPS \<equiv> 0x10"
abbreviation (input) KBD_NUMLOCK :: u8 where "KBD_NUMLOCK \<equiv> 0x20"
abbreviation (input) KBD_SCROLLLOCK :: u8 where "KBD_SCROLLLOCK \<equiv> 0x40"
abbreviation (input) KBD_LED_CAPS :: u8 where "KBD_LED_CAPS \<equiv> 0x04"
abbreviation (input) KBD_LED_NUM :: u8 where "KBD_LED_NUM \<equiv> 0x02"
abbreviation (input) KBD_LED_SCROLL :: u8 where "KBD_LED_SCROLL \<equiv> 0x01"


definition lookup_codepoint :: "KbdLayout \<Rightarrow> u8 \<Rightarrow> u8 \<Rightarrow> u16 option" where
  "lookup_codepoint l scancode modifiers =
    (let entry = lay_entries l ! unat scancode;
         caps = (\<lambda>cp. if modifiers AND KBD_CAPS \<noteq> 0
           then if 0x61 \<le> cp \<and> cp \<le> 0x7A then cp - 32 else if 0x41 \<le> cp \<and> cp \<le> 0x5A then cp + 32 else cp
           else cp)
     in if modifiers AND KBD_CTRL \<noteq> 0 \<and> key_ctrl entry \<noteq> 0xFFFF then Some (caps (key_ctrl entry))
        else if modifiers AND KBD_ALTGR \<noteq> 0 \<and> key_altgr entry \<noteq> 0xFFFF then Some (caps (key_altgr entry))
        else if modifiers AND KBD_SHIFT \<noteq> 0 \<and> key_shift entry \<noteq> 0xFFFF then Some (caps (key_shift entry))
        else if key_normal entry \<noteq> 0xFFFF then Some (caps (key_normal entry))
        else None)"

definition is_dead_key :: "KbdLayout \<Rightarrow> u8 \<Rightarrow> u8 \<Rightarrow> bool" where
  "is_dead_key l scancode modifiers =
    (let flags = key_flags (lay_entries l ! unat scancode)
     in (if modifiers AND KBD_ALTGR \<noteq> 0 then drop_bit 2 flags AND 1
         else if modifiers AND KBD_SHIFT \<noteq> 0 then drop_bit 1 flags AND 1 else flags AND 1) = 1)"

definition compose_in :: "KbdLayout \<Rightarrow> u16 \<Rightarrow> u16 \<Rightarrow> u16" where
  "compose_in l dead base = (case find (\<lambda>e. ce_dead e = dead \<and> ce_base e = base) (lay_compose l) of
      Some e \<Rightarrow> ce_result e | None \<Rightarrow> if dead = base then dead else 0x3F)"

definition unicode_to_utf8 :: "u16 \<Rightarrow> bytes" where
  "unicode_to_utf8 cp =
    (if cp < 0x80 then [ucast cp, 0, 0, 0]
     else if cp < 0x800 then [0xC0 OR ucast (drop_bit 6 cp), 0x80 OR ucast (cp AND 0x3F), 0, 0]
     else [0xE0 OR ucast (drop_bit 12 cp), 0x80 OR ucast (drop_bit 6 cp AND 0x3F), 0x80 OR ucast (cp AND 0x3F), 0])"

text \<open>Virtual keys, for extended (\<open>0xE0\<close>-prefixed) and plain scancodes.\<close>

definition vk_extended :: "(u8 \<times> u16) list" where
  "vk_extended = [(0x48, 0x26), (0x50, 0x28), (0x4B, 0x25), (0x4D, 0x27), (0x47, 0x24), (0x4F, 0x23), (0x49, 0x21),
     (0x51, 0x22), (0x52, 0x2D), (0x53, 0x2E), (0x1D, 0x11), (0x38, 0x12), (0x1C, 0x0D), (0x35, 0x6F)]"

definition vk_plain :: "(u8 \<times> u16) list" where
  "vk_plain = [(0x01, 0x1B), (0x0E, 0x08), (0x0F, 0x09), (0x1C, 0x0D), (0x1D, 0x11), (0x2A, 0x10), (0x36, 0x10),
     (0x38, 0x12), (0x39, 0x20), (0x57, 0x7A), (0x58, 0x7B), (0x37, 0x6A), (0x47, 0x67), (0x48, 0x68), (0x49, 0x69),
     (0x4A, 0x6D), (0x4B, 0x64), (0x4C, 0x65), (0x4D, 0x66), (0x4E, 0x6B), (0x4F, 0x61), (0x50, 0x62), (0x51, 0x63),
     (0x52, 0x60), (0x53, 0x6E)]"

definition vk_from_scancode :: "u8 \<Rightarrow> bool \<Rightarrow> u16" where
  "vk_from_scancode scancode extended =
    (let code = scancode AND 0x7F
     in if extended then (case map_of vk_extended code of Some vk \<Rightarrow> vk | None \<Rightarrow> 0)
        else if 0x3B \<le> code \<and> code \<le> 0x44 then 0x70 + (ucast code - 0x3B)
        else (case map_of vk_plain code of Some vk \<Rightarrow> vk | None \<Rightarrow> 0))"

section \<open>The keyboard state machine\<close>

record KbdConfig =
  cfg_layout_name :: bytes
  cfg_repeat_delay :: u32
  cfg_repeat_rate :: u32
  cfg_numlock_on_boot :: bool
  cfg_capslock_on_boot :: bool

definition cfg_default :: KbdConfig where
  "cfg_default = \<lparr> cfg_layout_name = ascii ''en-US'', cfg_repeat_delay = 500, cfg_repeat_rate = 30,
     cfg_numlock_on_boot = True, cfg_capslock_on_boot = False \<rparr>"

record 'c NeoKbd = "'c InputManager" +
  kb_modifiers :: u8
  kb_leds :: u8
  kb_active_layout :: u32
  kb_config :: KbdConfig
  kb_layouts :: "KbdLayout list"
  kb_dead_key :: "u16 option"
  kb_e0_pending :: bool

definition kbd_new :: "'c InputManager \<Rightarrow> 'c NeoKbd" where
  "kbd_new m = InputManager.extend m \<lparr> kb_modifiers = 0, kb_leds = 0, kb_active_layout = 0, kb_config = cfg_default,
     kb_layouts = [], kb_dead_key = None, kb_e0_pending = False \<rparr>"

definition active_layout :: "('c, 'z) NeoKbd_scheme \<Rightarrow> KbdLayout option" where
  "active_layout k = (let i = unat (kb_active_layout k) in if i < length (kb_layouts k) then Some (kb_layouts k ! i) else None)"

definition find_layout_index :: "bytes \<Rightarrow> ('c, 'z) NeoKbd_scheme \<Rightarrow> nat option" where
  "find_layout_index name k = position (\<lambda>l. eq_ignore_ascii_case (name_str l) name) (kb_layouts k)"

definition legacy_layout_alias :: "bytes \<Rightarrow> bytes option" where
  "legacy_layout_alias name =
    (if eq_ignore_ascii_case name (ascii ''us'') then Some (ascii ''en-US'')
     else if eq_ignore_ascii_case name (ascii ''spanish'') \<or> eq_ignore_ascii_case name (ascii ''sp'') then Some (ascii ''es-ES'')
     else None)"

definition resolve_layout_index :: "bytes \<Rightarrow> ('c, 'z) NeoKbd_scheme \<Rightarrow> nat option" where
  "resolve_layout_index name k = (case find_layout_index name k of
      Some i \<Rightarrow> Some i
    | None \<Rightarrow> (case position (\<lambda>l. eq_ignore_ascii_case (lang_tag_str l) name) (kb_layouts k) of
        Some i \<Rightarrow> Some i
      | None \<Rightarrow> Option.bind (legacy_layout_alias name) (\<lambda>alias. find_layout_index alias k)))"

definition bus_event :: "u32 \<Rightarrow> u64 \<Rightarrow> u64 \<Rightarrow> ('c, 'z) InputManager_scheme \<Rightarrow> ('c, 'z) InputManager_scheme" where
  "bus_event ty d0 d1 = in_call (KeyBusEvent ty d0 d1)"

definition set_layout_by_name :: "bytes \<Rightarrow> ('c, 'z) NeoKbd_scheme \<Rightarrow> (unit, unit) result \<times> ('c, 'z) NeoKbd_scheme" where
  "set_layout_by_name name k = (case find_layout_index name k of
      None \<Rightarrow> (Err (), k)
    | Some i \<Rightarrow> (Ok (), bus_event 9 (of_nat i) 0 (in_call SaveConfig (k \<lparr> kb_active_layout := of_nat i,
        kb_config := (kb_config k) \<lparr> cfg_layout_name := name_str (kb_layouts k ! i) \<rparr> \<rparr>))))"

definition set_repeat_delay :: "u32 \<Rightarrow> ('c, 'z) NeoKbd_scheme \<Rightarrow> (unit, unit) result \<times> ('c, 'z) NeoKbd_scheme" where
  "set_repeat_delay ms k = (if ms < 100 \<or> ms > 2000 then (Err (), k)
     else (Ok (), in_call SaveConfig (k \<lparr> kb_config := (kb_config k) \<lparr> cfg_repeat_delay := ms \<rparr> \<rparr>)))"

definition set_repeat_rate :: "u32 \<Rightarrow> ('c, 'z) NeoKbd_scheme \<Rightarrow> (unit, unit) result \<times> ('c, 'z) NeoKbd_scheme" where
  "set_repeat_rate cps k = (if cps < 2 \<or> cps > 60 then (Err (), k)
     else (Ok (), in_call SaveConfig (k \<lparr> kb_config := (kb_config k) \<lparr> cfg_repeat_rate := cps \<rparr> \<rparr>)))"

definition set_leds :: "u8 \<Rightarrow> ('c, 'z) NeoKbd_scheme \<Rightarrow> ('c, 'z) NeoKbd_scheme" where
  "set_leds leds k = in_call (SetLeds leds) (k \<lparr> kb_leds := leds AND 0x07 \<rparr>)"

definition set_modifiers :: "u8 \<Rightarrow> ('c, 'z) NeoKbd_scheme \<Rightarrow> ('c, 'z) NeoKbd_scheme" where
  "set_modifiers mods k = bus_event 30 (ucast mods) (ucast (kb_modifiers k)) (k \<lparr> kb_modifiers := mods \<rparr>)"

text \<open>The state set up by \<open>kbd_init\<close> once the layouts and the configuration are loaded.\<close>

definition kbd_init :: "KbdLayout list \<Rightarrow> KbdConfig \<Rightarrow> ('c, 'z) NeoKbd_scheme \<Rightarrow> ('c, 'z) NeoKbd_scheme" where
  "kbd_init layouts config k =
    (let k1 = k \<lparr> kb_layouts := layouts, kb_config := config \<rparr>;
         k2 = (if layouts = [] then k1
               else let i = (case resolve_layout_index (cfg_layout_name config) k1 of Some i \<Rightarrow> i | None \<Rightarrow> 0);
                        canonical = name_str (layouts ! i);
                        k' = k1 \<lparr> kb_active_layout := of_nat i, kb_config := config \<lparr> cfg_layout_name := canonical \<rparr> \<rparr>
                    in if canonical \<noteq> cfg_layout_name config then in_call SaveConfig k' else k');
         k3 = (if cfg_numlock_on_boot config
               then k2 \<lparr> kb_modifiers := kb_modifiers k2 OR KBD_NUMLOCK, kb_leds := kb_leds k2 OR KBD_LED_NUM \<rparr> else k2);
         k4 = (if cfg_capslock_on_boot config
               then k3 \<lparr> kb_modifiers := kb_modifiers k3 OR KBD_CAPS, kb_leds := kb_leds k3 OR KBD_LED_CAPS \<rparr> else k3)
     in set_leds (kb_leds k4) k4)"

text \<open>Hot keys; the diagnostic dump of Ctrl+Alt+V only prints.\<close>

definition dispatch_hotkey :: "u8 \<Rightarrow> ('c, 'z) NeoKbd_scheme \<Rightarrow> bool \<times> ('c, 'z) NeoKbd_scheme" where
  "dispatch_hotkey code k =
    (let ctrl = kb_modifiers k AND KBD_CTRL \<noteq> 0; alt = kb_modifiers k AND KBD_ALT \<noteq> 0; shift = kb_modifiers k AND KBD_SHIFT \<noteq> 0
     in if ctrl \<and> alt \<and> code = 0x53 then (True, request_shutdown k)
        else if alt \<and> \<not> ctrl \<and> \<not> shift \<and> 0x3B \<le> code \<and> code \<le> 0x3E then (True, switch_vt (unat (code - 0x3B)) k)
        else if alt \<and> \<not> ctrl \<and> \<not> shift \<and> 0x3F \<le> code \<and> code \<le> 0x42 then (True, switch_vt (unat (code - 0x3B)) k)
        else if ctrl \<and> alt \<and> code = 0x2F then (True, k)
        else (False, k))"

text \<open>The first part of \<open>process_scancode\<close>: modifiers and lock keys.\<close>

definition hold_modifier :: "u8 \<Rightarrow> bool \<Rightarrow> ('c, 'z) NeoKbd_scheme \<Rightarrow> ('c, 'z) NeoKbd_scheme" where
  "hold_modifier m is_make k = k \<lparr> kb_modifiers := (if is_make then kb_modifiers k OR m else kb_modifiers k AND NOT m) \<rparr>"

definition toggle_lock :: "u8 \<Rightarrow> u8 \<Rightarrow> bool \<Rightarrow> ('c, 'z) NeoKbd_scheme \<Rightarrow> ('c, 'z) NeoKbd_scheme" where
  "toggle_lock m led is_make k =
    (if is_make
     then let mods = kb_modifiers k XOR m
          in set_leds ((kb_leds k AND NOT led) OR (if mods AND m \<noteq> 0 then led else 0)) (k \<lparr> kb_modifiers := mods \<rparr>)
     else k)"

definition update_modifiers :: "u8 \<Rightarrow> bool \<Rightarrow> ('c, 'z) NeoKbd_scheme \<Rightarrow> ('c, 'z) NeoKbd_scheme" where
  "update_modifiers code is_make k =
    (if code = 0x2A \<or> code = 0x36 then hold_modifier KBD_SHIFT is_make k
     else if code = 0x1D then hold_modifier KBD_CTRL is_make k
     else if code = 0x38 then hold_modifier KBD_ALT is_make k
     else if code = 0x3A then toggle_lock KBD_CAPS KBD_LED_CAPS is_make k
     else if code = 0x45 then toggle_lock KBD_NUMLOCK KBD_LED_NUM is_make k
     else if code = 0x46 then toggle_lock KBD_SCROLLLOCK KBD_LED_SCROLL is_make k
     else k)"

text \<open>Delivery of the encoded character to the active terminal.\<close>

fun deliver_bytes :: "bytes \<Rightarrow> ('c, 'z) NeoKbd_scheme \<Rightarrow> ('c, 'z) NeoKbd_scheme" where
  "deliver_bytes [] k = k"
| "deliver_bytes (b # bs) k =
    (if b = 0 then k
     else if b = 0x03
     then let (ok, k1) = request_foreground_interrupt k
          in if ok then deliver_bytes bs (set_need_resched k1) else deliver_bytes bs (snd (push_byte b k1))
     else deliver_bytes bs (snd (push_byte b k)))"

text \<open>
  \<open>layout::compose\<close> takes the keyboard lock. \<open>locked\<close> says whether the caller holds it; the lock is not
  reentrant, so the call then never returns.
\<close>

definition compose_locking :: "bool \<Rightarrow> u16 \<Rightarrow> u16 \<Rightarrow> ('c, 'z) NeoKbd_scheme \<Rightarrow> u16 option" where
  "compose_locking locked dead base k = (if locked then None else Some (case active_layout k of
      Some l \<Rightarrow> compose_in l dead base | None \<Rightarrow> if dead = base then dead else 0x3F))"

text \<open>The last part of \<open>process_scancode\<close>: layout lookup, dead keys and delivery.\<close>

definition type_character :: "bool \<Rightarrow> u8 \<Rightarrow> ('c, 'z) NeoKbd_scheme \<Rightarrow> ('c, 'z) NeoKbd_scheme option" where
  "type_character locked code k =
    (let mods = kb_modifiers k in case active_layout k of
       None \<Rightarrow> Some k
     | Some layout \<Rightarrow> (case lookup_codepoint layout code mods of
         None \<Rightarrow> Some k
       | Some cp \<Rightarrow>
           if is_dead_key layout code mods then Some (k \<lparr> kb_dead_key := Some cp \<rparr>)
           else do {
             (final_cp, k1) \<leftarrow> (case kb_dead_key k of
                 Some dk \<Rightarrow> (let k1 = k \<lparr> kb_dead_key := None \<rparr> in map_option (\<lambda>cp'. (cp', k1)) (compose_locking locked dk cp k1))
               | None \<Rightarrow> Some (cp, k));
             Some (bus_event 29 (ucast final_cp) (ucast code)
               (wake_blocked_readers (deliver_bytes (unicode_to_utf8 final_cp) k1))) }))"

definition raw_event :: "u8 \<Rightarrow> bool \<Rightarrow> bool \<Rightarrow> u8 \<Rightarrow> KeyEvent" where
  "raw_event code is_make is_extended mods = \<lparr> ke_scancode = ucast code, ke_vk = vk_from_scancode code is_extended, ke_codepoint = 0,
     ke_modifiers = mods, ke_pressed = (if is_make then 1 else 0), ke_flags = (if is_extended then 1 else 0), ke_pad = 0 \<rparr>"

definition process_scancode :: "bool \<Rightarrow> u8 \<Rightarrow> bool \<Rightarrow> ('c, 'z) NeoKbd_scheme \<Rightarrow> ('c, 'z) NeoKbd_scheme option" where
  "process_scancode locked scancode is_make k =
    (if scancode = 0xE0 then Some (k \<lparr> kb_e0_pending := True \<rparr>)
     else let is_extended = kb_e0_pending k;
              code = scancode AND 0x7F;
              k1 = update_modifiers code is_make (k \<lparr> kb_e0_pending := False \<rparr>);
              k2 = bus_event (if is_make then 27 else 28) (ucast scancode) (ucast (kb_modifiers k1)) k1;
              k3 = push_key_event (raw_event code is_make is_extended (kb_modifiers k2)) k2
          in if \<not> is_make then Some k3
             else let (hot, k4) = dispatch_hotkey code k3
                  in if hot then Some k4
                     else if is_extended then Some k4
                     else if raw_mode (im_active k4) k4 then Some k4
                     else if kb_modifiers k4 AND KBD_CTRL \<noteq> 0 \<and> code = 0x2E
                     then let (ok, k5) = request_foreground_interrupt k4
                          in if ok then Some (set_need_resched k5) else type_character locked code k5
                     else type_character locked code k4)"

section \<open>Scancodes that arrive while the keyboard is busy\<close>

abbreviation (input) SCANCODE_QUEUE_SIZE :: nat where "SCANCODE_QUEUE_SIZE \<equiv> 256"

record ScancodeQueue =
  sq_buffer :: bytes
  sq_head :: nat
  sq_tail :: nat

definition sq_new :: ScancodeQueue where
  "sq_new = \<lparr> sq_buffer = replicate SCANCODE_QUEUE_SIZE 0, sq_head = 0, sq_tail = 0 \<rparr>"

definition sq_push :: "ScancodeQueue \<Rightarrow> u8 \<Rightarrow> bool \<times> ScancodeQueue" where
  "sq_push q b = (let next = (sq_tail q + 1) mod SCANCODE_QUEUE_SIZE in
     if next = sq_head q then (False, q)
     else (True, q \<lparr> sq_buffer := (sq_buffer q)[sq_tail q := b], sq_tail := next \<rparr>))"

definition sq_pop :: "ScancodeQueue \<Rightarrow> u8 option \<times> ScancodeQueue" where
  "sq_pop q = (if sq_head q = sq_tail q then (None, q)
     else (Some (sq_buffer q ! sq_head q), q \<lparr> sq_head := (sq_head q + 1) mod SCANCODE_QUEUE_SIZE \<rparr>))"

abbreviation (input) is_make_code :: "u8 \<Rightarrow> bool" where
  "is_make_code scancode \<equiv> scancode AND 0x80 = 0"

partial_function (option) drain_pending :: "ScancodeQueue \<times> 'c NeoKbd \<Rightarrow> (ScancodeQueue \<times> 'c NeoKbd) option" where
  "drain_pending st = (case sq_pop (fst st) of
      (None, q) \<Rightarrow> Some (q, snd st)
    | (Some sc, q) \<Rightarrow> do { k \<leftarrow> process_scancode True sc (is_make_code sc) (snd st); drain_pending (q, k) })"

text \<open>\<open>free\<close> says whether \<open>KBD.try_lock\<close> succeeds. While the scancodes are processed the lock is held.\<close>

definition kbd_process_internal :: "bool \<Rightarrow> u8 \<Rightarrow> ScancodeQueue \<times> 'c NeoKbd \<Rightarrow> (ScancodeQueue \<times> 'c NeoKbd) option" where
  "kbd_process_internal free scancode st =
    (if free then do {
       (q, k) \<leftarrow> drain_pending st;
       k' \<leftarrow> process_scancode True scancode (is_make_code scancode) k;
       Some (q, k') }
     else let (ok, q) = sq_push (fst st) scancode in Some (q, if ok then set_need_resched (snd st) else snd st))"

text \<open>\<open>kbd_event_handler\<close> takes the scancode from the low byte of the event.\<close>

definition kbd_event_handler :: "bool \<Rightarrow> u32 \<Rightarrow> u64 \<Rightarrow> ScancodeQueue \<times> 'c NeoKbd \<Rightarrow> (ScancodeQueue \<times> 'c NeoKbd) option" where
  "kbd_event_handler free event_type data0 st =
    (if event_type = 1 then kbd_process_internal free (ucast data0) st else Some st)"

definition sq_inv :: "ScancodeQueue \<Rightarrow> bool" where [inv_defs]:
  "sq_inv q \<longleftrightarrow> length (sq_buffer q) = SCANCODE_QUEUE_SIZE \<and> sq_head q < SCANCODE_QUEUE_SIZE \<and> sq_tail q < SCANCODE_QUEUE_SIZE"

definition sq_abs :: "ScancodeQueue \<Rightarrow> bytes" where
  "sq_abs q = ring_list (sq_buffer q) (sq_head q) (ring_count SCANCODE_QUEUE_SIZE (sq_head q) (sq_tail q))"

interpretation sq: bounded_fifo sq_inv sq_abs "SCANCODE_QUEUE_SIZE - 1" sq_push sq_pop
proof
  fix q and b :: u8
  assume inv: "sq_inv q"
  show "sq_inv (snd (sq_push q b))" and "sq_inv (snd (sq_pop q))"
    using inv by (auto simp: sq_inv_def sq_push_def sq_pop_def Let_def)
  show "length (sq_abs q) \<le> SCANCODE_QUEUE_SIZE - 1"
    using inv ring_count_less [of "sq_head q" SCANCODE_QUEUE_SIZE "sq_tail q"] by (simp add: sq_abs_def sq_inv_def)
  show "map_prod id sq_abs (sq_push q b) = list_push (SCANCODE_QUEUE_SIZE - 1) (sq_abs q) b"
    using inv ring_push_abs [of "sq_head q" "sq_buffer q" "sq_tail q" b] by (auto simp: sq_abs_def sq_inv_def sq_push_def Let_def)
  show "map_prod id sq_abs (sq_pop q) = list_pop (sq_abs q)"
    using inv ring_pop_abs [of "sq_head q" "sq_buffer q" "sq_tail q"] by (auto simp: sq_abs_def sq_inv_def sq_pop_def)
qed

lemma sq_new_inv: "sq_inv sq_new" and sq_new_abs: "sq_abs sq_new = []"
  by (simp_all add: sq_inv_def sq_new_def sq_abs_def)

section \<open>What every scancode keeps\<close>

text \<open>The lights show the lock keys, and the AltGr bit is clear.\<close>

definition leds_match :: "('c, 'z) NeoKbd_scheme \<Rightarrow> bool" where
  "leds_match k \<longleftrightarrow> kb_leds k = (if kb_modifiers k AND KBD_CAPS \<noteq> 0 then KBD_LED_CAPS else 0)
     OR (if kb_modifiers k AND KBD_NUMLOCK \<noteq> 0 then KBD_LED_NUM else 0)
     OR (if kb_modifiers k AND KBD_SCROLLLOCK \<noteq> 0 then KBD_LED_SCROLL else 0)"

definition kbd_keeps :: "('c, 'z) NeoKbd_scheme \<Rightarrow> ('c, 'z) NeoKbd_scheme \<Rightarrow> bool" where
  "kbd_keeps k k' \<longleftrightarrow> kb_modifiers k' = kb_modifiers k \<and> kb_leds k' = kb_leds k \<and> kb_layouts k' = kb_layouts k \<and>
    kb_active_layout k' = kb_active_layout k"

lemma kbd_keeps_refl [simp, intro]: "kbd_keeps k k"
  by (simp add: kbd_keeps_def)

lemma kbd_keeps_trans: "kbd_keeps a b \<Longrightarrow> kbd_keeps b c \<Longrightarrow> kbd_keeps a c"
  by (simp add: kbd_keeps_def)

lemma kbd_keeps_ops [simp]:
  "kbd_keeps k (in_call c k)" "kbd_keeps k (push_key_event_to vt ev k)" "kbd_keeps k (switch_vt vt k)"
  "kbd_keeps k (set_need_resched k)" "kbd_keeps k (wake_blocked_readers k)" "kbd_keeps k (request_shutdown k)"
  "kbd_keeps k (snd (push_byte b k))" "kbd_keeps k (snd (request_foreground_interrupt k))"
  "kbd_keeps k (k \<lparr> kb_dead_key := d \<rparr>)" "kbd_keeps k (k \<lparr> kb_e0_pending := e \<rparr>)"
  by (simp_all add: kbd_keeps_def in_call_def push_key_event_to_def switch_vt_def Let_def
      set_need_resched_def wake_blocked_readers_def request_shutdown_def push_byte_def case_prod_beta request_foreground_interrupt_def)

lemma im_inv_kbd [simp]:
  "im_inv (k \<lparr> kb_dead_key := d \<rparr>) = im_inv k" "im_inv (k \<lparr> kb_e0_pending := e \<rparr>) = im_inv k"
  "im_inv (k \<lparr> kb_modifiers := m \<rparr>) = im_inv k" "im_inv (k \<lparr> kb_leds := l \<rparr>) = im_inv k"
  "im_inv (k \<lparr> kb_layouts := ls \<rparr>) = im_inv k" "im_inv (k \<lparr> kb_config := cfg \<rparr>) = im_inv k"
  "im_inv (k \<lparr> kb_active_layout := i \<rparr>) = im_inv k"
  by (simp_all add: im_inv_def)

definition kbd_step_ok :: "('c, 'z) NeoKbd_scheme \<Rightarrow> ('c, 'z) NeoKbd_scheme \<Rightarrow> bool" where
  "kbd_step_ok k k' \<longleftrightarrow> kbd_keeps k k' \<and> (im_inv k \<longrightarrow> im_inv k')"

lemma kbd_step_trans: "kbd_step_ok a b \<Longrightarrow> kbd_step_ok b c \<Longrightarrow> kbd_step_ok a c"
  using kbd_keeps_trans by (auto simp: kbd_step_ok_def)

lemma kbd_step_ops:
  "kbd_step_ok k k" "kbd_step_ok k (bus_event ty d0 d1 k)" "kbd_step_ok k (push_key_event ev k)" "kbd_step_ok k (switch_vt vt k)"
  "kbd_step_ok k (set_need_resched k)" "kbd_step_ok k (wake_blocked_readers k)" "kbd_step_ok k (request_shutdown k)"
  "kbd_step_ok k (snd (push_byte b k))" "kbd_step_ok k (snd (request_foreground_interrupt k))"
  "kbd_step_ok k (k \<lparr> kb_dead_key := d \<rparr>)" "kbd_step_ok k (k \<lparr> kb_e0_pending := e \<rparr>)"
  by (auto simp: kbd_step_ok_def bus_event_def push_key_event_def)

lemma deliver_bytes_ok: "kbd_step_ok k (deliver_bytes bs k)"
proof (induction bs arbitrary: k)
  case (Cons b bs)
  have "kbd_step_ok k (deliver_bytes bs k')" if "kbd_step_ok k k'" for k' using that Cons.IH kbd_step_trans by blast
  moreover have "kbd_step_ok k (set_need_resched (snd (request_foreground_interrupt k)))"
    "kbd_step_ok k (snd (push_byte b (snd (request_foreground_interrupt k))))"
    using kbd_step_trans kbd_step_ops by blast+
  ultimately show ?case by (auto simp: case_prod_beta Let_def kbd_step_ops)
qed (simp add: kbd_step_ops)

lemma type_character_ok:
  assumes "type_character locked code k = Some k'"
  shows "kbd_step_ok k k'"
proof -
  have deliver: "kbd_step_ok k1 (bus_event ty d0 d1 (wake_blocked_readers (deliver_bytes bs k1)))" for k1 :: "('a, 'b) NeoKbd_scheme" and ty d0 d1 bs
    using kbd_step_trans deliver_bytes_ok kbd_step_ops by metis
  then have "kbd_step_ok k (bus_event ty d0 d1 (wake_blocked_readers (deliver_bytes bs (k \<lparr> kb_dead_key := d \<rparr>))))" for ty d0 d1 bs d
    using kbd_step_trans kbd_step_ops(10) by blast
  then show ?thesis using assms deliver
    by (auto simp: type_character_def Let_def bind_eq_Some_conv kbd_step_ops split: option.splits if_splits)
qed

lemma dispatch_hotkey_ok: "kbd_step_ok k (snd (dispatch_hotkey code k))"
  by (simp add: dispatch_hotkey_def Let_def kbd_step_ops)

text \<open>All of \<open>process_scancode\<close> after the modifiers keeps the modifiers and the lights.\<close>

lemma process_scancode_ok:
  assumes "process_scancode locked sc mk k = Some k'"
  shows "kbd_step_ok k k' \<or> kbd_step_ok (update_modifiers (sc AND 0x7F) mk (k \<lparr> kb_e0_pending := False \<rparr>)) k'"
proof (cases "sc = 0xE0")
  case False
  define k1 where "k1 = update_modifiers (sc AND 0x7F) mk (k \<lparr> kb_e0_pending := False \<rparr>)"
  define k2 where "k2 = bus_event (if mk then 27 else 28) (ucast sc) (ucast (kb_modifiers k1)) k1"
  define k3 where "k3 = push_key_event (raw_event (sc AND 0x7F) mk (kb_e0_pending k) (kb_modifiers k2)) k2"
  define k4 where "k4 = snd (dispatch_hotkey (sc AND 0x7F) k3)"
  have "kbd_step_ok k1 k2" "kbd_step_ok k2 k3" "kbd_step_ok k3 k4"
    unfolding k4_def k3_def k2_def by (rule kbd_step_ops dispatch_hotkey_ok)+
  then have k4: "kbd_step_ok k1 k3" "kbd_step_ok k1 k4" using kbd_step_trans by blast+
  then have "kbd_step_ok k1 k''" if "type_character locked code k4 = Some k''" for code k''
    using kbd_step_trans type_character_ok [OF that] by blast
  moreover have "kbd_step_ok k1 k''" if "type_character locked code (snd (request_foreground_interrupt k4)) = Some k''" for code k''
    using kbd_step_trans [OF kbd_step_trans [OF k4(2) kbd_step_ops(9)] type_character_ok [OF that]] .
  moreover have "kbd_step_ok k1 (set_need_resched (snd (request_foreground_interrupt k4)))"
    by (rule kbd_step_trans [OF kbd_step_trans [OF k4(2) kbd_step_ops(9)] kbd_step_ops(5)])
  ultimately have "kbd_step_ok k1 k'" using assms False k4
    unfolding process_scancode_def Let_def k1_def [symmetric] k2_def [symmetric] k3_def [symmetric] case_prod_beta k4_def [symmetric]
    by (auto split: if_splits)
  then show ?thesis by (simp add: k1_def)
qed (use assms in \<open>auto simp: process_scancode_def kbd_step_ops\<close>)

lemma kbd_bit_iff:
  "m AND KBD_SHIFT = 0 \<longleftrightarrow> \<not> bit m 0" "m AND KBD_CTRL = 0 \<longleftrightarrow> \<not> bit m 1" "m AND KBD_ALT = 0 \<longleftrightarrow> \<not> bit m 2"
  "m AND KBD_ALTGR = 0 \<longleftrightarrow> \<not> bit m 3" "m AND KBD_CAPS = 0 \<longleftrightarrow> \<not> bit m 4" "m AND KBD_NUMLOCK = 0 \<longleftrightarrow> \<not> bit m 5"
  "m AND KBD_SCROLLLOCK = 0 \<longleftrightarrow> \<not> bit m 6"
  using and_exp_eq_0_iff_not_bit [of m 0] and_exp_eq_0_iff_not_bit [of m 1] and_exp_eq_0_iff_not_bit [of m 2]
    and_exp_eq_0_iff_not_bit [of m 3] and_exp_eq_0_iff_not_bit [of m 4] and_exp_eq_0_iff_not_bit [of m 5] and_exp_eq_0_iff_not_bit [of m 6]
  by simp_all

definition kbd_ok :: "('c, 'z) NeoKbd_scheme \<Rightarrow> bool" where
  "kbd_ok k \<longleftrightarrow> im_inv k \<and> leds_match k \<and> kb_modifiers k AND KBD_ALTGR = 0"

lemma kbd_ok_step: "kbd_step_ok k k' \<Longrightarrow> kbd_ok k \<Longrightarrow> kbd_ok k'"
  by (simp add: kbd_ok_def kbd_step_ok_def kbd_keeps_def leds_match_def)

lemma leds_match_iff:
  "leds_match k \<longleftrightarrow> kb_leds k = (if bit (kb_modifiers k) 4 then 4 else 0) OR (if bit (kb_modifiers k) 5 then 2 else 0)
     OR (if bit (kb_modifiers k) 6 then 1 else 0)"
  by (simp only: leds_match_def kbd_bit_iff not_not)

lemma hold_bits:
  assumes "m \<in> {KBD_SHIFT, KBD_CTRL, KBD_ALT}" and "3 \<le> i" and "i < 8"
  shows "bit (x OR m) i = bit x i" "bit (x AND NOT m) i = bit x i"
proof -
  have "bit (2 ^ n :: u8) i = (i = n)" if "n < 8" for n using that by (auto simp: bit_exp_iff)
  from this [of 0] this [of 1] this [of 2] have "\<not> bit m i" using assms by auto
  then show "bit (x OR m) i = bit x i" "bit (x AND NOT m) i = bit x i" using assms(3) by (simp_all add: bit_or_iff bit_and_iff bit_not_iff)
qed

lemma hold_modifier_ok:
  assumes "kbd_ok k" and "m \<in> {KBD_SHIFT, KBD_CTRL, KBD_ALT}"
  shows "kbd_ok (hold_modifier m mk k)"
  using assms(1) hold_bits [OF assms(2)] by (simp add: kbd_ok_def hold_modifier_def leds_match_iff kbd_bit_iff)

lemma toggle_leds:
  fixes m :: u8
  defines "leds \<equiv> \<lambda>a b c :: bool. ((if a then 4 else 0) OR (if b then 2 else 0) OR (if c then 1 else 0) :: u8)"
  shows "((leds a b c AND NOT 4) OR (if \<not> a then 4 else 0)) AND 7 = leds (\<not> a) b c"
    "((leds a b c AND NOT 2) OR (if \<not> b then 2 else 0)) AND 7 = leds a (\<not> b) c"
    "((leds a b c AND NOT 1) OR (if \<not> c then 1 else 0)) AND 7 = leds a b (\<not> c)"
  unfolding leds_def by (cases a; cases b; cases c; simp)+

lemma toggle_bits:
  "bit (m XOR KBD_CAPS) i = (bit m i \<noteq> (i = 4))" "bit (m XOR KBD_NUMLOCK) i = (bit m i \<noteq> (i = 5))"
  "bit (m XOR KBD_SCROLLLOCK) i = (bit m i \<noteq> (i = 6))"
proof -
  have "bit (2 ^ n :: u8) i = (i = n)" if "n < 8" for n using that by (auto simp: bit_exp_iff)
  from this [of 4] this [of 5] this [of 6]
  show "bit (m XOR KBD_CAPS) i = (bit m i \<noteq> (i = 4))" "bit (m XOR KBD_NUMLOCK) i = (bit m i \<noteq> (i = 5))"
    "bit (m XOR KBD_SCROLLLOCK) i = (bit m i \<noteq> (i = 6))"
    by (simp_all add: bit_xor_iff)
qed

lemma toggle_lock_ok:
  assumes "kbd_ok k"
    and "(m, led) \<in> {(KBD_CAPS, KBD_LED_CAPS), (KBD_NUMLOCK, KBD_LED_NUM), (KBD_SCROLLLOCK, KBD_LED_SCROLL)}"
  shows "kbd_ok (toggle_lock m led mk k)"
proof -
  have "im_inv (toggle_lock m led mk k)"
    using assms(1) by (simp add: kbd_ok_def toggle_lock_def set_leds_def Let_def im_inv_ops)
  moreover have "leds_match (toggle_lock m led mk k)"
  proof (cases mk)
    case True
    have "kb_leds k = (if bit (kb_modifiers k) 4 then 4 else 0) OR (if bit (kb_modifiers k) 5 then 2 else 0)
     OR (if bit (kb_modifiers k) 6 then 1 else 0)" using assms(1) by (simp only: kbd_ok_def leds_match_iff)
    with True assms(2) show ?thesis
      by (elim insertE emptyE) (simp_all add: leds_match_iff toggle_lock_def set_leds_def in_call_def Let_def kbd_bit_iff toggle_bits
          toggle_leds [simplified])
  qed (use assms(1) in \<open>simp add: toggle_lock_def kbd_ok_def\<close>)
  moreover have "kb_modifiers (toggle_lock m led mk k) AND KBD_ALTGR = 0"
    using assms by (auto simp: toggle_lock_def set_leds_def in_call_def Let_def kbd_ok_def kbd_bit_iff toggle_bits)
  ultimately show ?thesis by (simp add: kbd_ok_def)
qed

lemma update_modifiers_ok: "kbd_ok k \<Longrightarrow> kbd_ok (update_modifiers code mk k)"
  by (simp add: update_modifiers_def hold_modifier_ok toggle_lock_ok)

lemma process_scancode_keeps_ok:
  assumes "kbd_ok k" and "process_scancode locked sc mk k = Some k'"
  shows "kbd_ok k'"
proof -
  have "kbd_ok (k \<lparr> kb_e0_pending := False \<rparr>)" using assms(1) by (rule kbd_ok_step [OF kbd_step_ops(11)])
  then show ?thesis using process_scancode_ok [OF assms(2)] kbd_ok_step update_modifiers_ok assms(1) by blast
qed

fun kbd_run :: "bool \<Rightarrow> u8 list \<Rightarrow> ('c, 'z) NeoKbd_scheme \<Rightarrow> ('c, 'z) NeoKbd_scheme option" where
  "kbd_run locked [] k = Some k"
| "kbd_run locked (sc # scs) k = Option.bind (process_scancode locked sc (is_make_code sc) k) (kbd_run locked scs)"

definition kbd_boot :: "KbdLayout list \<Rightarrow> KbdConfig \<Rightarrow> 'c \<Rightarrow> 'c \<Rightarrow> 'c NeoKbd" where
  "kbd_boot layouts config blank console = kbd_init layouts config (kbd_new (im_new blank console))"

lemma kbd_run_ok: "kbd_ok k \<Longrightarrow> kbd_run locked scs k = Some k' \<Longrightarrow> kbd_ok k'"
proof (induction scs arbitrary: k)
  case (Cons sc scs)
  from Cons.prems(2) obtain k1 where "process_scancode locked sc (is_make_code sc) k = Some k1" "kbd_run locked scs k1 = Some k'"
    by (auto simp: bind_eq_Some_conv)
  then show ?case using Cons.IH process_scancode_keeps_ok [OF Cons.prems(1)] by blast
qed simp

lemma kbd_boot_ok: "kbd_ok (kbd_boot layouts config blank console)"
proof -
  let ?new = "kbd_new (im_new blank console)"
  have new: "im_inv ?new" "kb_modifiers ?new = 0" "kb_leds ?new = 0"
    using im_new_inv [of blank console] by (simp_all add: kbd_new_def InputManager.extend_def im_inv_def)
  have "im_inv (kbd_boot layouts config blank console)"
    using new(1) by (simp add: kbd_boot_def kbd_init_def Let_def set_leds_def im_inv_ops)
  moreover have "kb_modifiers (kbd_boot layouts config blank console) =
      (if cfg_numlock_on_boot config then 0x20 else 0) OR (if cfg_capslock_on_boot config then 0x10 else 0)"
    "kb_leds (kbd_boot layouts config blank console) =
      (if cfg_numlock_on_boot config then 2 else 0) OR (if cfg_capslock_on_boot config then 4 else 0)"
    using new(2,3) by (simp_all add: kbd_boot_def kbd_init_def Let_def set_leds_def in_call_def)
  ultimately show ?thesis by (simp add: kbd_ok_def leds_match_def)
qed

text \<open>Without a pending dead key every scancode is processed to the end.\<close>

lemma dead_key_ops [simp]:
  "kb_dead_key (in_call c k) = kb_dead_key k" "kb_dead_key (bus_event ty d0 d1 k) = kb_dead_key k"
  "kb_dead_key (push_key_event ev k) = kb_dead_key k" "kb_dead_key (switch_vt vt k) = kb_dead_key k"
  "kb_dead_key (request_shutdown k) = kb_dead_key k" "kb_dead_key (snd (request_foreground_interrupt k)) = kb_dead_key k"
  "kb_dead_key (snd (dispatch_hotkey code k)) = kb_dead_key k" "kb_dead_key (update_modifiers code mk k) = kb_dead_key k"
proof -
  show *: "kb_dead_key (in_call c k) = kb_dead_key k" for c and k :: "('a, 'b) NeoKbd_scheme" by (simp add: in_call_def)
  show "kb_dead_key (bus_event ty d0 d1 k) = kb_dead_key k" by (simp add: bus_event_def *)
  show "kb_dead_key (push_key_event ev k) = kb_dead_key k" by (simp add: push_key_event_def push_key_event_to_def *)
  show sw: "kb_dead_key (switch_vt vt k) = kb_dead_key k" for vt by (simp add: switch_vt_def Let_def)
  show sh: "kb_dead_key (request_shutdown k) = kb_dead_key k" by (simp add: request_shutdown_def)
  show "kb_dead_key (snd (request_foreground_interrupt k)) = kb_dead_key k"
    by (simp add: request_foreground_interrupt_def Let_def case_prod_beta)
  show "kb_dead_key (snd (dispatch_hotkey code k)) = kb_dead_key k" by (simp add: dispatch_hotkey_def Let_def sw sh)
  show "kb_dead_key (update_modifiers code mk k) = kb_dead_key k"
    by (simp add: update_modifiers_def hold_modifier_def toggle_lock_def set_leds_def Let_def *)
qed

lemma type_character_returns:
  "kb_dead_key k = None \<or> \<not> locked \<Longrightarrow> \<exists>k'. type_character locked code k = Some k'"
  by (auto simp: type_character_def Let_def compose_locking_def split: option.split)

lemma process_returns:
  assumes "kb_dead_key k = None"
  shows "\<exists>k'. process_scancode locked sc mk k = Some k'"
proof (cases "sc = 0xE0")
  case False
  define k1 where "k1 = update_modifiers (sc AND 0x7F) mk (k \<lparr> kb_e0_pending := False \<rparr>)"
  define k2 where "k2 = bus_event (if mk then 27 else 28) (ucast sc) (ucast (kb_modifiers k1)) k1"
  define k3 where "k3 = push_key_event (raw_event (sc AND 0x7F) mk (kb_e0_pending k) (kb_modifiers k2)) k2"
  define k4 where "k4 = snd (dispatch_hotkey (sc AND 0x7F) k3)"
  have "kb_dead_key k4 = None" using assms by (simp add: k4_def k3_def k2_def k1_def)
  then have "\<exists>k'. type_character locked code k4 = Some k'"
    "\<exists>k'. type_character locked code (snd (request_foreground_interrupt k4)) = Some k'" for code
    by (simp_all add: type_character_returns)
  then show ?thesis using False
    unfolding process_scancode_def Let_def k1_def [symmetric] k2_def [symmetric] k3_def [symmetric] case_prod_beta k4_def [symmetric]
    by simp
qed (simp add: process_scancode_def)

text \<open>
  C31. From boot, whatever layouts and configuration were loaded and whatever scancodes arrive, the
  keyboard state stays well-formed: the active terminal exists and has a valid byte queue and event
  ring, and the lights of the keyboard show exactly the lock keys that are on.
\<close>

theorem kbd_state_wf:
  assumes "kbd_run locked scs (kbd_boot layouts config blank console) = Some k"
  shows "im_inv k \<and> leds_match k"
  using kbd_run_ok [OF kbd_boot_ok assms] by (simp add: kbd_ok_def)

theorem kbd_state_wf_witness:
  "\<exists>k. kbd_run True [0x3A] (kbd_boot [] cfg_default () ()) = Some k \<and> leds_match k"
proof -
  have "kb_dead_key (kbd_boot [] cfg_default () ()) = None"
    by (simp add: kbd_boot_def kbd_init_def Let_def set_leds_def in_call_def kbd_new_def InputManager.extend_def)
  then obtain k where "kbd_run True [0x3A] (kbd_boot [] cfg_default () ()) = Some k"
    using process_returns [of "kbd_boot [] cfg_default () ()" True "0x3A" "is_make_code 0x3A"] by auto
  then show ?thesis using kbd_state_wf [of True "[0x3A]" "[]" cfg_default "()" "()" k] by blast
qed

text \<open>
  The AltGr level of a layout is never used: no sequence of scancodes sets the AltGr modifier, since
  the right Alt key sets the same bit as the left one. The characters and dead keys that a layout
  places there cannot be typed, whatever they are.
\<close>

lemma altgr_level_unreachable:
  assumes "kbd_run locked scs (kbd_boot layouts config blank console) = Some k" and "unat code < length (lay_entries l)"
  shows "lookup_codepoint (l \<lparr> lay_entries := map (\<lambda>e. e \<lparr> key_altgr := x \<rparr>) (lay_entries l) \<rparr>) code (kb_modifiers k)
      = lookup_codepoint l code (kb_modifiers k) \<and>
    is_dead_key (l \<lparr> lay_entries := map (\<lambda>e. e \<lparr> key_flags := key_flags e AND 3 \<rparr>) (lay_entries l) \<rparr>) code (kb_modifiers k)
      = is_dead_key l code (kb_modifiers k)"
proof -
  let ?f = "key_flags (lay_entries l ! unat code)"
  have alt: "kb_modifiers k AND KBD_ALTGR = 0" using kbd_run_ok [OF kbd_boot_ok assms(1)] by (simp add: kbd_ok_def)
  have f: "drop_bit 1 (?f AND 3) AND 1 = drop_bit 1 ?f AND 1" "(?f AND 3) AND 1 = ?f AND 1" by (simp_all add: and.assoc)
  let ?a = "lay_entries (l \<lparr> lay_entries := map (\<lambda>e. e \<lparr> key_altgr := x \<rparr>) (lay_entries l) \<rparr>) ! unat code"
  have a: "key_normal ?a = key_normal (lay_entries l ! unat code)" "key_shift ?a = key_shift (lay_entries l ! unat code)"
    "key_ctrl ?a = key_ctrl (lay_entries l ! unat code)" using assms(2) by simp_all
  have d: "key_flags (lay_entries (l \<lparr> lay_entries := map (\<lambda>e. e \<lparr> key_flags := key_flags e AND 3 \<rparr>) (lay_entries l) \<rparr>) ! unat code)
      = ?f AND 3" using assms(2) by simp
  show ?thesis unfolding lookup_codepoint_def is_dead_key_def Let_def alt a d f by (simp only: simp_thms if_False)
qed

section \<open>Dead keys\<close>

text \<open>A key that is neither a modifier nor a lock key, typed with no modifier held on a cooked terminal.\<close>

definition plain_key :: "u8 \<Rightarrow> bool" where
  "plain_key sc \<longleftrightarrow> sc AND 0x7F = sc \<and> sc \<notin> {0x2A, 0x36, 0x1D, 0x38, 0x3A, 0x45, 0x46}"

definition cooked :: "('c, 'z) NeoKbd_scheme \<Rightarrow> bool" where
  "cooked k \<longleftrightarrow> kb_modifiers k = 0 \<and> \<not> kb_e0_pending k \<and> \<not> raw_mode (im_active k) k"

lemma plain_key_types:
  assumes "plain_key sc" and "cooked k"
  shows "\<exists>k1. process_scancode locked sc True k = type_character locked sc k1 \<and> cooked k1 \<and>
    active_layout k1 = active_layout k \<and> kb_dead_key k1 = kb_dead_key k"
proof -
  let ?k1 = "push_key_event (raw_event sc True False 0) (bus_event 27 (ucast sc) 0 (k \<lparr> kb_e0_pending := False \<rparr>))"
  have "sc \<noteq> 0xE0" using assms(1) by (auto simp: plain_key_def)
  moreover have "update_modifiers sc True k' = k'" for k' :: "('a, 'b) NeoKbd_scheme"
    using assms(1) by (auto simp: plain_key_def update_modifiers_def)
  moreover have mods: "kb_modifiers ?k1 = 0" "kb_modifiers (bus_event 27 (ucast sc) 0 (k \<lparr> kb_e0_pending := False \<rparr>)) = 0"
    using assms(2) by (simp_all add: cooked_def push_key_event_def push_key_event_to_def bus_event_def in_call_def)
  moreover have "dispatch_hotkey sc ?k1 = (False, ?k1)" using mods(1) by (simp add: dispatch_hotkey_def)
  moreover have raw: "cooked ?k1"
    using assms(2) by (simp add: cooked_def push_key_event_def push_key_event_to_def bus_event_def in_call_def raw_mode_def)
  ultimately have "process_scancode locked sc True k = type_character locked sc ?k1"
    using assms by (simp add: process_scancode_def Let_def plain_key_def cooked_def)
  moreover have "active_layout ?k1 = active_layout k"
    by (simp add: active_layout_def push_key_event_def push_key_event_to_def bus_event_def in_call_def Let_def)
  ultimately show ?thesis using raw by (intro exI [of _ ?k1]) simp
qed

text \<open>
  Typing a character after a dead key stops the machine: scancodes are processed with the keyboard
  lock held, and composing the two keys waits for that lock. The dead key itself is accepted, and
  without the lock the second key would have been processed.
\<close>

lemma dead_key_then_character_hangs:
  assumes "plain_key dead" and "plain_key sc" and "cooked k" and "active_layout k = Some l" and "kb_dead_key k = None"
    and "is_dead_key l dead 0" and "lookup_codepoint l dead 0 = Some d"
    and "\<not> is_dead_key l sc 0" and "lookup_codepoint l sc 0 = Some c"
  shows "\<exists>k1. process_scancode True dead True k = Some k1 \<and> process_scancode True sc True k1 = None \<and>
    process_scancode False sc True k1 \<noteq> None"
proof -
  obtain k0 where k0: "process_scancode True dead True k = type_character True dead k0" "cooked k0" "active_layout k0 = Some l"
    using plain_key_types [OF assms(1,3), of True] assms(4) by metis
  let ?k1 = "k0 \<lparr> kb_dead_key := Some d \<rparr>"
  have first: "process_scancode True dead True k = Some ?k1"
    using k0 assms(6,7) by (simp add: type_character_def Let_def cooked_def)
  have "cooked ?k1" "active_layout ?k1 = Some l" using k0(2,3) by (simp_all add: cooked_def raw_mode_def active_layout_def Let_def split: if_splits)
  then obtain k2 where k2: "process_scancode locked sc True ?k1 = type_character locked sc (k2 locked)" "cooked (k2 locked)"
      "active_layout (k2 locked) = Some l" "kb_dead_key (k2 locked) = Some d" for locked
    using plain_key_types [OF assms(2), of ?k1] by simp metis
  have "process_scancode True sc True ?k1 = None"
    unfolding k2(1) using k2(2-4) [of True] assms(8,9) by (simp add: type_character_def Let_def cooked_def compose_locking_def)
  moreover have "process_scancode False sc True ?k1 \<noteq> None"
    unfolding k2(1) using type_character_returns [of "k2 False" False sc] by auto
  ultimately show ?thesis using first by blast
qed

text \<open>A layout with an acute accent as a dead key on scancode \<open>0x28\<close> and the letter a on \<open>0x1E\<close>.\<close>

definition accent_layout :: KbdLayout where
  "accent_layout = \<lparr> lay_name = [], lay_lang_tag = [],
     lay_entries = (replicate 256 key_empty)[40 := key_empty \<lparr> key_normal := 0xB4, key_flags := 1 \<rparr>, 30 := key_empty \<lparr> key_normal := 0x61 \<rparr>],
     lay_compose = [\<lparr> ce_dead = 0xB4, ce_base = 0x61, ce_result = 0xE1 \<rparr>] \<rparr>"

definition accent_kbd :: "unit NeoKbd" where
  "accent_kbd = (kbd_new (im_new () ())) \<lparr> kb_layouts := [accent_layout] \<rparr>"

section \<open>Order of arrival and layout files\<close>

lemma drain_pending_run:
  assumes "sq_inv q" and "kbd_run True (sq_abs q) k = Some k'"
  shows "\<exists>q'. drain_pending (q, k) = Some (q', k') \<and> sq_inv q' \<and> sq_abs q' = []"
  using assms
proof (induction "sq_abs q" arbitrary: q k)
  case Nil
  then obtain q' where "sq_pop q = (None, q')" "sq_abs q' = []" "sq_inv q'"
    using sq.pop_None [of q] sq.pop_abs [of q] sq.pop_inv [of q] by (cases "sq_pop q") auto
  then show ?case using Nil by (subst drain_pending.simps) simp
next
  case (Cons sc scs)
  then obtain q' where q': "sq_pop q = (Some sc, q')" "sq_abs q' = scs" "sq_inv q'"
    using sq.pop_abs [of q] sq.pop_inv [of q] by (cases "sq_pop q") (auto simp flip: Cons.hyps(2))
  obtain k1 where k1: "process_scancode True sc (is_make_code sc) k = Some k1" "kbd_run True scs k1 = Some k'"
    using Cons.prems(2) by (auto simp: bind_eq_Some_conv simp flip: Cons.hyps(2))
  then have "\<exists>q2. drain_pending (q', k1) = Some (q2, k') \<and> sq_inv q2 \<and> sq_abs q2 = []" using Cons.hyps(1) [of q' k1] q' by simp
  then show ?case using q' k1 by (subst drain_pending.simps) simp
qed

text \<open>Scancodes that arrive one after the other while the keyboard lock is taken.\<close>

fun kbd_busy :: "u8 list \<Rightarrow> ScancodeQueue \<times> 'c NeoKbd \<Rightarrow> (ScancodeQueue \<times> 'c NeoKbd) option" where
  "kbd_busy [] st = Some st"
| "kbd_busy (sc # scs) st = Option.bind (kbd_process_internal False sc st) (kbd_busy scs)"

lemma kbd_busy_queues:
  assumes "sq_inv q" and "length (sq_abs q) + length scs \<le> 255"
  shows "\<exists>q'. kbd_busy scs (q, k) = Some (q', k \<lparr> in_resched := in_resched k \<or> scs \<noteq> [] \<rparr>) \<and> sq_inv q' \<and> sq_abs q' = sq_abs q @ scs"
  using assms
proof (induction scs arbitrary: q k)
  case (Cons sc scs)
  obtain q1 where q1: "sq_push q sc = (True, q1)" "sq_abs q1 = sq_abs q @ [sc]" "sq_inv q1"
    using sq.push_abs [OF Cons.prems(1), of sc] sq.push_inv [OF Cons.prems(1), of sc] Cons.prems(2)
    by (cases "sq_push q sc") (auto simp: list_push_def)
  then show ?case using Cons.IH [of q1 "set_need_resched k"] Cons.prems(2)
    by (simp add: kbd_process_internal_def set_need_resched_def)
qed simp

text \<open>
  C32. Scancodes are processed in the order they arrive: up to 255 of them that find the keyboard lock
  taken are kept and processed, before the next one that finds it free, exactly as if the lock had
  been free all along, and the queue of kept scancodes is empty afterwards.
\<close>

theorem scancodes_in_order:
  assumes "length busy \<le> 255"
    and "kbd_run True (busy @ [sc]) (k \<lparr> in_resched := in_resched k \<or> busy \<noteq> [] \<rparr>) = Some k'"
  shows "\<exists>q. Option.bind (kbd_busy busy (sq_new, k)) (kbd_process_internal True sc) = Some (q, k') \<and> sq_abs q = []"
proof -
  have split: "kbd_run True (xs @ [sc]) k0 = Option.bind (kbd_run True xs k0) (process_scancode True sc (is_make_code sc))" for xs and k0 :: "'a NeoKbd"
    by (induction xs arbitrary: k0) (simp_all split: bind_split)
  obtain q where q: "kbd_busy busy (sq_new, k) = Some (q, k \<lparr> in_resched := in_resched k \<or> busy \<noteq> [] \<rparr>)" "sq_inv q" "sq_abs q = busy"
    using kbd_busy_queues [OF sq_new_inv, of busy k] assms(1) by (auto simp: sq_new_abs)
  obtain k1 where k1: "kbd_run True busy (k \<lparr> in_resched := in_resched k \<or> busy \<noteq> [] \<rparr>) = Some k1"
      "process_scancode True sc (is_make_code sc) k1 = Some k'"
    using assms(2) unfolding split by (auto simp: bind_eq_Some_conv)
  then show ?thesis using q drain_pending_run [OF q(2)] by (fastforce simp: kbd_process_internal_def)
qed

theorem scancodes_in_order_witness:
  "\<exists>q k'. Option.bind (kbd_busy [0xE0] (sq_new, accent_kbd)) (kbd_process_internal True 0x48) = Some (q, k') \<and> sq_abs q = []"
proof -
  let ?k = "accent_kbd \<lparr> in_resched := True, kb_e0_pending := True \<rparr>"
  have "kb_dead_key ?k = None" by (simp add: accent_kbd_def kbd_new_def InputManager.extend_def)
  then obtain k' where "process_scancode True 0x48 (is_make_code 0x48) ?k = Some k'" using process_returns by blast
  then have "kbd_run True ([0xE0] @ [0x48]) (accent_kbd \<lparr> in_resched := in_resched accent_kbd \<or> [0xE0] \<noteq> ([] :: bytes) \<rparr>) = Some k'"
    by (simp add: process_scancode_def [of True "0xE0"])
  then show ?thesis using scancodes_in_order [of "[0xE0]" "0x48" accent_kbd k'] by fastforce
qed

lemma key_loop_length: "length (snd (key_loop buf n i off es)) = length es"
  by (induction n arbitrary: i off es) (simp_all split: if_split)

text \<open>
  Loading a layout file returns a table of 256 keys or an error for every file, except for those
  with a valid magic and version that are shorter than the 60-byte header: on them the kernel panics,
  although they are meant to be rejected.
\<close>

lemma load_kbd_panics_iff:
  "(load_kbd data = None \<longleftrightarrow> (\<exists>buf. data = Some buf \<and> 16 \<le> length buf \<and> length buf < 60 \<and> take 4 buf = KBD_MAGIC \<and>
      le_u32 (slice buf 4 8) = 1)) \<and>
   (case load_kbd data of Some (Ok l) \<Rightarrow> length (lay_entries l) = 256 | _ \<Rightarrow> True)"
proof (cases data)
  case (Some buf)
  show ?thesis
    using key_loop_length [of buf "min (unat (le_u32 (slice buf 56 60))) 256" 0 60 "replicate 256 key_empty"]
    by (auto simp: Some load_kbd_def Let_def case_prod_beta not_less)
qed (simp add: load_kbd_def)

end
