(* ===== verification/UserMem.thy ===== *)
theory UserMem
  imports Bytes "HOL-Library.Monad_Syntax"
begin

text \<open>
  Access to user memory (neodos-kernel/src/syscall/util.rs): which bytes belong to the calling process,
  and the copies between user memory and kernel buffers that every system call goes through.

  The state holds the memory, the heap and mapped regions of the process, and, as given by the page
  tables, whether the 4 KiB page of an address is present (\<open>None\<close> where no 4 KiB entry exists).
  \<open>um_locks\<close> says whether the two locks were taken within the spin limit. Address arithmetic wraps.
\<close>

section \<open>Model\<close>

abbreviation (input) USER_BASE :: u64 where "USER_BASE \<equiv> 0x00400000"
abbreviation (input) USER_LIMIT :: u64 where "USER_LIMIT \<equiv> 0x02400000"

record MmapRegion =
  mr_base :: u64
  mr_len :: u64

record UserMem =
  um_mem :: "u64 \<Rightarrow> u8"
  um_pte :: "u64 \<Rightarrow> bool option"
  um_heap_base :: u64
  um_heap_break :: u64
  um_mmap :: "MmapRegion list"
  um_locks :: bool

definition is_page_present :: "'z UserMem_scheme \<Rightarrow> u64 \<Rightarrow> bool" where
  "is_page_present m virt = (case um_pte m virt of Some present \<Rightarrow> present
     | None \<Rightarrow> virt \<ge> USER_BASE \<and> virt < USER_LIMIT)"

definition is_user_ptr_valid :: "'z UserMem_scheme \<Rightarrow> u64 \<Rightarrow> u64 \<Rightarrow> bool" where
  "is_user_ptr_valid m ptr len =
    (if ptr \<ge> USER_BASE \<and> saturating_add ptr len \<le> USER_LIMIT then True
     else if ptr \<ge> 0x1E000000 \<and> saturating_add ptr len \<le> 0x1E200000 then True
     else if um_heap_base m \<noteq> 0 \<and> ptr \<ge> um_heap_base m \<and> saturating_add ptr len \<le> um_heap_break m then True
     else list_ex (\<lambda>r. ptr \<ge> mr_base r \<and> saturating_add ptr len \<le> mr_base r + mr_len r) (um_mmap m))"

definition is_valid_user_byte_locked :: "'z UserMem_scheme \<Rightarrow> u64 \<Rightarrow> bool" where
  "is_valid_user_byte_locked m p =
    (if p \<ge> USER_BASE \<and> p < USER_LIMIT then True
     else if p \<ge> 0x1E000000 \<and> p < 0x1E200000 then is_page_present m p
     else if um_heap_base m \<noteq> 0 \<and> p \<ge> um_heap_base m \<and> p < um_heap_break m then is_page_present m p
     else list_ex (\<lambda>r. p \<ge> mr_base r \<and> p < mr_base r + mr_len r) (um_mmap m) \<and> is_page_present m p)"

definition with_user_memory_locked :: "('z UserMem_scheme \<Rightarrow> ('r, unit) result \<times> 'z UserMem_scheme) \<Rightarrow>
    'z UserMem_scheme \<Rightarrow> ('r, unit) result \<times> 'z UserMem_scheme" where
  "with_user_memory_locked f m = (if um_locks m then f m else (Err (), m))"

fun read_user_bytes :: "nat \<Rightarrow> u64 \<Rightarrow> 'z UserMem_scheme \<Rightarrow> (bytes, unit) result" where
  "read_user_bytes 0 cur m = Ok []"
| "read_user_bytes (Suc n) cur m =
    (if \<not> is_valid_user_byte_locked m cur then Err ()
     else case read_user_bytes n (cur + 1) m of Ok bs \<Rightarrow> Ok (um_mem m cur # bs) | Err e \<Rightarrow> Err e)"

definition copy_from_user :: "nat \<Rightarrow> u64 \<Rightarrow> 'z UserMem_scheme \<Rightarrow> (bytes, unit) result" where
  "copy_from_user len src m =
    (if src = 0 then Err () else fst (with_user_memory_locked (\<lambda>m. (read_user_bytes len src m, m)) m))"

fun write_user_bytes :: "bytes \<Rightarrow> u64 \<Rightarrow> 'z UserMem_scheme \<Rightarrow> (unit, unit) result \<times> 'z UserMem_scheme" where
  "write_user_bytes [] cur m = (Ok (), m)"
| "write_user_bytes (b # bs) cur m =
    (if \<not> is_valid_user_byte_locked m cur then (Err (), m)
     else write_user_bytes bs (cur + 1) (m \<lparr> um_mem := (um_mem m)(cur := b) \<rparr>))"

definition copy_to_user :: "u64 \<Rightarrow> bytes \<Rightarrow> 'z UserMem_scheme \<Rightarrow> (unit, unit) result \<times> 'z UserMem_scheme" where
  "copy_to_user dst src m =
    (if dst = 0 \<and> src \<noteq> [] then (Err (), m) else with_user_memory_locked (write_user_bytes src dst) m)"

fun read_user_string :: "nat \<Rightarrow> u64 \<Rightarrow> 'z UserMem_scheme \<Rightarrow> (bytes, unit) result" where
  "read_user_string 0 cur m = Ok []"
| "read_user_string (Suc n) cur m =
    (if \<not> is_valid_user_byte_locked m cur then Err ()
     else if um_mem m cur = 0 then Ok []
     else case read_user_string n (cur + 1) m of Ok bs \<Rightarrow> Ok (um_mem m cur # bs) | Err e \<Rightarrow> Err e)"

definition copy_user_string :: "u64 \<Rightarrow> 'z UserMem_scheme \<Rightarrow> (bytes, unit) result" where
  "copy_user_string ptr m =
    (if ptr = 0 then Err ()
     else case fst (with_user_memory_locked (\<lambda>m. (read_user_string 255 ptr m, m)) m) of
         Err e \<Rightarrow> Err e
       | Ok bs \<Rightarrow> if utf8_valid bs then Ok bs else Err ())"

section \<open>What the copies read and write\<close>

lemma valid_byte_mem [simp]: "is_valid_user_byte_locked (m \<lparr> um_mem := f \<rparr>) = is_valid_user_byte_locked m"
  by (simp add: fun_eq_iff is_valid_user_byte_locked_def is_page_present_def)

lemma user_addr_inj:
  assumes "i < 2 ^ 64" and "j < 2 ^ 64" and "(cur :: u64) + of_nat i = cur + of_nat j"
  shows "i = j"
proof -
  have "unat (of_nat i :: u64) = unat (of_nat j :: u64)" using assms(3) by simp
  then show ?thesis using assms(1,2) by (simp add: unat_of_nat)
qed

lemma user_addr_Suc: "(cur :: u64) + 1 + of_nat i = cur + of_nat (Suc i)"
  by simp

lemma upt_0_Suc: "[0..<Suc n] = 0 # map Suc [0..<n]"
  by (simp add: map_Suc_upt upt_conv_Cons del: upt_Suc)

lemma read_user_bytes_eq:
  "read_user_bytes n cur m = (if list_all (\<lambda>i. is_valid_user_byte_locked m (cur + of_nat i)) [0..<n]
     then Ok (map (\<lambda>i. um_mem m (cur + of_nat i)) [0..<n]) else Err ())"
proof (induction n arbitrary: cur)
  case (Suc n)
  show ?case unfolding read_user_bytes.simps Suc.IH user_addr_Suc upt_0_Suc
    by (simp add: list.pred_map comp_def del: of_nat_Suc)
qed simp

text \<open>A write changes the valid bytes before the first invalid one, to the given values, and nothing else.\<close>

lemma write_user_bytes_changes:
  "um_mem (snd (write_user_bytes bs cur m)) a \<noteq> um_mem m a \<Longrightarrow>
    is_valid_user_byte_locked m a \<and> (\<exists>i < length bs. a = cur + of_nat i)"
proof (induction bs arbitrary: cur m)
  case (Cons b bs)
  let ?m = "m \<lparr> um_mem := (um_mem m)(cur := b) \<rparr>"
  show ?case
  proof (cases "um_mem (snd (write_user_bytes bs (cur + 1) ?m)) a = um_mem ?m a")
    case True
    then show ?thesis using Cons.prems by (auto split: if_splits intro: exI [of _ 0])
  next
    case False
    then obtain i where "i < length bs" "a = cur + of_nat (Suc i)" "is_valid_user_byte_locked m a"
      using Cons.IH [OF False] unfolding user_addr_Suc by auto
    then show ?thesis by (auto intro!: exI [of _ "Suc i"] simp del: of_nat_Suc)
  qed
qed simp

lemma write_user_bytes_stores:
  assumes "fst (write_user_bytes bs cur m) = Ok ()" and "i < length bs" and "length bs < 2 ^ 64"
  shows "is_valid_user_byte_locked m (cur + of_nat i) \<and> um_mem (snd (write_user_bytes bs cur m)) (cur + of_nat i) = bs ! i"
  using assms
proof (induction bs arbitrary: cur m i)
  case (Cons b bs)
  let ?m = "m \<lparr> um_mem := (um_mem m)(cur := b) \<rparr>"
  have ok: "is_valid_user_byte_locked m cur" "fst (write_user_bytes bs (cur + 1) ?m) = Ok ()"
    using Cons.prems(1) by (auto split: if_splits)
  show ?case
  proof (cases i)
    case 0
    have "cur \<noteq> cur + of_nat (Suc j)" if "j < length bs" for j
      using user_addr_inj [of 0 "Suc j" cur] Cons.prems(3) that by (auto simp del: of_nat_Suc)
    then have "um_mem (snd (write_user_bytes bs (cur + 1) ?m)) cur = um_mem ?m cur"
      using write_user_bytes_changes [of bs "cur + 1" ?m cur] unfolding user_addr_Suc by blast
    then show ?thesis using 0 ok by simp
  next
    case (Suc j)
    then show ?thesis using Cons.IH [OF ok(2), of j] Cons.prems(2,3) ok(1) unfolding user_addr_Suc by (simp del: of_nat_Suc)
  qed
qed simp

lemma write_user_bytes_frame:
  "is_valid_user_byte_locked (snd (write_user_bytes bs cur m)) = is_valid_user_byte_locked m"
  "um_locks (snd (write_user_bytes bs cur m)) = um_locks m"
  by (induction bs arbitrary: cur m) simp_all

text \<open>
  C33. The kernel writes to user memory only where the calling process may write: whether or not a copy
  succeeds, each byte that it changes is an accessible byte of the process, inside the given range.
\<close>

theorem copy_to_user_confined:
  assumes "um_mem (snd (copy_to_user dst bs m)) a \<noteq> um_mem m a"
  shows "is_valid_user_byte_locked m a \<and> (\<exists>i < length bs. a = dst + of_nat i)"
  using assms write_user_bytes_changes [of bs dst m a]
  by (auto simp: copy_to_user_def with_user_memory_locked_def split: if_splits)

definition plain_mem :: UserMem where
  "plain_mem = \<lparr> um_mem = (\<lambda>_. 0), um_pte = (\<lambda>_. None), um_heap_base = 0, um_heap_break = 0, um_mmap = [], um_locks = True \<rparr>"

theorem copy_to_user_confined_witness:
  "is_valid_user_byte_locked plain_mem 0x023FFFFF \<and> (\<exists>i < length [7 :: u8, 8]. (0x023FFFFF :: u64) = 0x023FFFFF + of_nat i)"
  by (rule copy_to_user_confined [where dst = "0x023FFFFF"])
    (simp_all add: copy_to_user_def with_user_memory_locked_def plain_mem_def is_valid_user_byte_locked_def)

text \<open>
  What a copy to user memory stores is what a copy from the same address reads back.
\<close>

lemma copy_user_roundtrip:
  assumes "length bs < 2 ^ 64" and "dst \<noteq> 0" and "copy_to_user dst bs m = (Ok (), m')"
  shows "copy_from_user (length bs) dst m' = Ok bs"
proof -
  have w: "write_user_bytes bs dst m = (Ok (), m')" "um_locks m'"
    using assms(2,3) write_user_bytes_frame(2) [of bs dst m]
    by (auto simp: copy_to_user_def with_user_memory_locked_def split: if_splits)
  have "is_valid_user_byte_locked m' = is_valid_user_byte_locked m"
    using write_user_bytes_frame(1) [of bs dst m] w(1) by simp
  moreover have "\<forall>i < length bs. is_valid_user_byte_locked m (dst + of_nat i) \<and> um_mem m' (dst + of_nat i) = bs ! i"
    using write_user_bytes_stores [OF _ _ assms(1), of dst m] w(1) by simp
  ultimately have "read_user_bytes (length bs) dst m' = Ok bs"
    unfolding read_user_bytes_eq by (auto simp: list_all_iff intro: nth_equalityI)
  then show ?thesis using w(2) assms(2) by (simp add: copy_from_user_def with_user_memory_locked_def)
qed

lemma read_user_string_eq:
  "read_user_string n cur m = Ok bs \<Longrightarrow> length bs \<le> n \<and> 0 \<notin> set bs \<and>
    bs = map (\<lambda>i. um_mem m (cur + of_nat i)) [0..<length bs] \<and> (length bs < n \<longrightarrow> um_mem m (cur + of_nat (length bs)) = 0)"
proof (induction n arbitrary: cur bs)
  case (Suc n)
  show ?case
  proof (cases bs)
    case Nil
    then show ?thesis using Suc.prems by (auto split: if_splits result.splits)
  next
    case (Cons b cs)
    then have "read_user_string n (cur + 1) m = Ok cs" "b = um_mem m cur" "b \<noteq> 0"
      using Suc.prems by (auto split: if_splits result.splits)
    then show ?thesis using Suc.IH [of "cur + 1" cs, unfolded user_addr_Suc] Cons
      by (simp add: upt_0_Suc comp_def del: upt_Suc of_nat_Suc)
  qed
qed simp

text \<open>
  A string taken from user memory is exactly the bytes before the first zero byte, is valid UTF-8
  and has at most 255 bytes; a longer one is cut there.
\<close>

lemma copy_user_string_exact:
  assumes "copy_user_string ptr m = Ok bs"
  shows "utf8_valid bs \<and> length bs \<le> 255 \<and> 0 \<notin> set bs \<and>
    bs = map (\<lambda>i. um_mem m (ptr + of_nat i)) [0..<length bs] \<and> (length bs < 255 \<longrightarrow> um_mem m (ptr + of_nat (length bs)) = 0)"
proof -
  have "read_user_string 255 ptr m = Ok bs" "utf8_valid bs"
    using assms by (auto simp: copy_user_string_def with_user_memory_locked_def split: if_splits result.splits)
  then show ?thesis using read_user_string_eq by blast
qed

end
