(* ===== verification/KWait.thy ===== *)
theory KWait
  imports Threads
begin

text \<open>
  The wait engine (neodos-kernel/src/kwait/mod.rs, \<open>wake_waiters\<close> of scheduler/wake.rs) on which
  every blocking operation of the kernel rests; the objects threads wait on are in theory
  \<open>WaitObjects\<close>.

  A thread waits for a 64-bit value that encodes a reason. The state holds the thread table, the CPUs,
  the deadlines of timed waits, the rescheduling flag, and the scheduler's own idea of the current
  thread, used where a CPU has no current thread yet. \<open>None\<close> is the bug check that stops the machine
  when that happens after all CPUs were started.
\<close>

unbundle bit_operations_syntax

section \<open>Wait reasons\<close>

datatype WaitReason = PipeRead u16 | IrpComplete u32 | ThreadJoin u32 | ChildExit u32 | Event u32 | Timer u32 | Alertable
  | Semaphore u32 | SocketRead u32 | SocketConnect u32 | SocketAccept u32 | KeyboardVt u32

definition make_magic :: "u32 \<Rightarrow> u32 \<Rightarrow> u64" where
  "make_magic tag i = push_bit 32 (ucast tag) OR ucast i"

abbreviation (input) magic_tag :: "u64 \<Rightarrow> u32" where "magic_tag magic \<equiv> ucast (drop_bit 32 magic)"
abbreviation (input) magic_id :: "u64 \<Rightarrow> u32" where "magic_id magic \<equiv> ucast (magic AND 0xFFFFFFFF)"

definition encode_magic :: "WaitReason \<Rightarrow> u64" where
  "encode_magic r = (case r of
      PipeRead pipe_id \<Rightarrow> make_magic 1 (ucast pipe_id) | IrpComplete irp_id \<Rightarrow> make_magic 2 irp_id
    | ThreadJoin tid \<Rightarrow> make_magic 3 tid | ChildExit pid \<Rightarrow> make_magic 4 pid
    | Event event_type \<Rightarrow> make_magic 5 event_type | Timer timer_id \<Rightarrow> make_magic 6 timer_id
    | Alertable \<Rightarrow> make_magic 7 0 | Semaphore sem_id \<Rightarrow> make_magic 8 sem_id
    | SocketRead socket_id \<Rightarrow> make_magic 9 socket_id | SocketConnect socket_id \<Rightarrow> make_magic 0xA socket_id
    | SocketAccept socket_id \<Rightarrow> make_magic 0xB socket_id | KeyboardVt vt \<Rightarrow> make_magic 0xC vt)"

definition decode_magic :: "u64 \<Rightarrow> WaitReason option" where
  "decode_magic magic = (let tag = magic_tag magic; i = magic_id magic in
     if tag = 1 then Some (PipeRead (ucast i)) else if tag = 2 then Some (IrpComplete i)
     else if tag = 3 then Some (ThreadJoin i) else if tag = 4 then Some (ChildExit i)
     else if tag = 6 then Some (Timer i) else if tag = 5 then Some (Event i)
     else if tag = 7 then Some Alertable else if tag = 8 then Some (Semaphore i)
     else if tag = 9 then Some (SocketRead i) else if tag = 0xA then Some (SocketConnect i)
     else if tag = 0xB then Some (SocketAccept i) else if tag = 0xC then Some (KeyboardVt i) else None)"

section \<open>Blocking and waking\<close>

record KWaitState =
  kw_threads :: "Kthread option list"
  kw_cpus :: Cpus
  kw_current_tid :: u32
  kw_ap_active :: bool
  kw_need_resched :: bool
  kw_deadlines :: "(u64 \<times> u64) list"

definition current_tid_checked :: "nat \<Rightarrow> 'z KWaitState_scheme \<Rightarrow> u32 option" where
  "current_tid_checked me s = (case kprcb_page me (kw_cpus s) of
      None \<Rightarrow> Some (kw_current_tid s)
    | Some kp \<Rightarrow> (case kp_current_thread kp of
        Some tid \<Rightarrow> if find_kthread tid (kw_threads s) \<noteq> None then Some tid
          else if kw_ap_active s then None else Some (kw_current_tid s)
      | None \<Rightarrow> if kw_ap_active s then None else Some (kw_current_tid s)))"

definition this_cpu_set_need_resched :: "nat \<Rightarrow> Cpus \<Rightarrow> Cpus" where
  "this_cpu_set_need_resched me c = (case kprcb_page me c of
      None \<Rightarrow> c | Some kp \<Rightarrow> c \<lparr> kprcbs := (kprcbs c)[me := Some (kp \<lparr> kp_need_resched := True \<rparr>)] \<rparr>)"

definition kw_set_need_resched :: "nat \<Rightarrow> 'z KWaitState_scheme \<Rightarrow> 'z KWaitState_scheme" where
  "kw_set_need_resched me s = s \<lparr> kw_need_resched := True, kw_cpus := this_cpu_set_need_resched me (kw_cpus s) \<rparr>"

definition kwait_block :: "nat \<Rightarrow> WaitReason \<Rightarrow> 'z KWaitState_scheme \<Rightarrow> 'z KWaitState_scheme option" where
  "kwait_block me reason s = (let magic = encode_magic reason in
     case current_tid_checked me s of
       None \<Rightarrow> None
     | Some tid \<Rightarrow> Some (kw_set_need_resched me (case find_kthread tid (kw_threads s) of
         None \<Rightarrow> s
       | Some k \<Rightarrow> s \<lparr> kw_cpus := remove_from_run_queue k (kw_cpus s),
           kw_threads := modify_kthread tid (\<lambda>k. k \<lparr> kt_state := Blocked magic, kt_waiting_for := Some magic \<rparr>) (kw_threads s) \<rparr>)))"

definition cancel_deadline :: "u64 \<Rightarrow> 'z KWaitState_scheme \<Rightarrow> 'z KWaitState_scheme" where
  "cancel_deadline magic s = s \<lparr> kw_deadlines := filter (\<lambda>e. fst e \<noteq> magic) (kw_deadlines s) \<rparr>"

text \<open>A wake requests rescheduling when it finds a waiter; the loop does not read the flag.\<close>

definition kwait_wake :: "nat \<Rightarrow> WaitReason \<Rightarrow> 'z KWaitState_scheme \<Rightarrow> 'z KWaitState_scheme" where
  "kwait_wake me reason s = (let magic = encode_magic reason; s0 = cancel_deadline magic s;
       (ts, c) = for_kthreads (wake_body me magic) (kw_threads s0) (kw_cpus s0);
       s1 = s0 \<lparr> kw_threads := ts, kw_cpus := c \<rparr>
     in if list_ex (\<lambda>t. case t of Some k \<Rightarrow> kt_waiting_for k = Some magic \<and> is_blocked k | None \<Rightarrow> False) (kw_threads s0)
        then kw_set_need_resched me s1 else s1)"

definition register_deadline :: "u64 \<Rightarrow> u64 \<Rightarrow> 'z KWaitState_scheme \<Rightarrow> 'z KWaitState_scheme" where
  "register_deadline magic deadline_tsc s =
    (if deadline_tsc = 0 then s
     else case position (\<lambda>e. fst e = magic) (kw_deadlines s) of
       Some i \<Rightarrow> s \<lparr> kw_deadlines := (kw_deadlines s)[i := (magic, deadline_tsc)] \<rparr>
     | None \<Rightarrow> s \<lparr> kw_deadlines := kw_deadlines s @ [(magic, deadline_tsc)] \<rparr>)"

abbreviation (input) deadline_passed :: "u64 \<Rightarrow> u64 \<times> u64 \<Rightarrow> bool" where
  "deadline_passed now e \<equiv> now - snd e < push_bit 63 1"

definition deadline_tick :: "nat \<Rightarrow> u64 \<Rightarrow> 'z KWaitState_scheme \<Rightarrow> nat \<times> 'z KWaitState_scheme" where
  "deadline_tick me now s = (let expired = map fst (filter (deadline_passed now) (kw_deadlines s));
       s0 = s \<lparr> kw_deadlines := filter (\<lambda>e. \<not> deadline_passed now e) (kw_deadlines s) \<rparr>
     in (length expired, foldl (\<lambda>s m. case decode_magic m of Some reason \<Rightarrow> kwait_wake me reason s | None \<Rightarrow> s) s0 expired))"

text \<open>\<open>wake_waiters\<close>, without the foreground bookkeeping of the input manager.\<close>

definition wake_waiters :: "nat \<Rightarrow> u32 \<Rightarrow> Kthread option list \<Rightarrow> Cpus \<Rightarrow> Kthread option list \<times> Cpus" where
  "wake_waiters me pid = for_kthreads (\<lambda>k c.
     if (kt_waiting_for k = Some (ucast pid OR 0x80000000) \<or> kt_waiting_for k = Some (encode_magic (ChildExit pid))) \<and> is_blocked k
     then make_thread_ready me (k \<lparr> kt_waiting_for := None \<rparr>) c else (k, c))"

section \<open>Reasons and values\<close>

lemma magic_parts: "magic_tag (make_magic t i) = t" "magic_id (make_magic t i) = i"
proof -
  have mask: "(0xFFFFFFFF :: u64) = mask 32" by (simp add: mask_eq_exp_minus_1)
  show "magic_tag (make_magic t i) = t"
    by (rule bit_word_eqI) (auto simp: make_magic_def bit_simps dest: bit_imp_le_length)
  show "magic_id (make_magic t i) = i"
    unfolding mask by (rule bit_word_eqI) (auto simp: make_magic_def bit_simps)
qed

lemma ucast_u16: "ucast (ucast (w :: u16) :: u32) = w"
  by (rule bit_word_eqI) (simp add: bit_simps)

text \<open>
  The value that a waiting thread stores determines the reason of the wait: decoding the encoding
  gives the reason back, for every reason and every identifier.
\<close>

lemma decode_encode_magic: "decode_magic (encode_magic r) = Some r"
  by (cases r) (simp_all add: encode_magic_def decode_magic_def magic_parts ucast_u16)

lemma make_magic_inject: "make_magic t i = make_magic t' i' \<longleftrightarrow> t = t' \<and> i = i'"
  by (metis magic_parts)

lemma encode_magic_inject: "encode_magic r = encode_magic r' \<longleftrightarrow> r = r'"
  using ucast_u16 by (cases r; cases r') (auto simp: encode_magic_def make_magic_inject dest: arg_cong [where f = "ucast :: u32 \<Rightarrow> u16"])

section \<open>Blocked threads\<close>

lemma resched_page:
  assumes "cpus_wf c"
  shows "kprcb_page i (this_cpu_set_need_resched me c)
    = (if i = me then map_option (\<lambda>kp. kp \<lparr> kp_need_resched := True \<rparr>) (kprcb_page i c) else kprcb_page i c)"
proof (cases "kprcb_page me c")
  case (Some kp)
  moreover have "me < MAX_CPUS" using Some by (auto simp: kprcb_page_def split: if_splits)
  ultimately show ?thesis using assms by (auto simp: this_cpu_set_need_resched_def kprcb_page_update cpus_wf)
qed (simp add: this_cpu_set_need_resched_def)

lemma resched_wf: "cpus_wf c \<Longrightarrow> cpus_wf (this_cpu_set_need_resched me c)"
  using resched_page [of c _ me]
  by (fastforce simp: cpus_wf this_cpu_set_need_resched_def split: option.splits if_splits)

lemma resched_queued: "cpus_wf c \<Longrightarrow> queued (this_cpu_set_need_resched me c) i t p = queued c i t p"
  by (auto simp: queued_def queue_levels_def resched_page split: option.split)

lemma resched_consistent: "queues_consistent ts c \<Longrightarrow> queues_consistent ts (this_cpu_set_need_resched me c)"
  by (simp add: queues_consistent resched_wf resched_queued)

lemma wake_result:
  assumes "queues_consistent (kw_threads s) (kw_cpus s)"
  shows "kw_threads (kwait_wake me r s) = map (map_option (woken (encode_magic r))) (kw_threads s)"
    and "queues_consistent (kw_threads (kwait_wake me r s)) (kw_cpus (kwait_wake me r s))"
    and "kw_deadlines (kwait_wake me r s) = filter (\<lambda>e. fst e \<noteq> encode_magic r) (kw_deadlines s)"
proof -
  let ?p = "for_kthreads (wake_body me (encode_magic r)) (kw_threads s) (kw_cpus s)"
  have ts: "fst ?p = map (map_option (woken (encode_magic r))) (kw_threads s)"
    by (rule for_kthreads_threads [OF wake_body_thread])
  have c: "queues_consistent (fst ?p) (snd ?p)" using wake.for_kthreads_consistent [OF assms] .
  show "kw_threads (kwait_wake me r s) = map (map_option (woken (encode_magic r))) (kw_threads s)"
      "queues_consistent (kw_threads (kwait_wake me r s)) (kw_cpus (kwait_wake me r s))"
      "kw_deadlines (kwait_wake me r s) = filter (\<lambda>e. fst e \<noteq> encode_magic r) (kw_deadlines s)"
    using ts c resched_consistent [OF c]
    by (simp_all add: kwait_wake_def cancel_deadline_def Let_def case_prod_beta kw_set_need_resched_def)
qed

text \<open>
  C36. A thread that blocks is woken by exactly its own reason: it leaves the run queues, a wake for the
  reason it waits for makes it Ready, a wake for any other reason leaves it blocked, and the run queues
  stay consistent throughout.
\<close>

theorem blocked_until_own_wake:
  assumes "queues_consistent (kw_threads s) (kw_cpus s)" and "current_tid_checked me s = Some tid"
    and "find_kthread tid (kw_threads s) = Some k"
  shows "\<exists>s1. kwait_block me r s = Some s1 \<and> queues_consistent (kw_threads s1) (kw_cpus s1) \<and>
    (\<forall>i p. \<not> queued (kw_cpus s1) i tid p) \<and>
    (\<forall>r'. queues_consistent (kw_threads (kwait_wake me r' s1)) (kw_cpus (kwait_wake me r' s1)) \<and>
      (\<exists>k'. find_kthread tid (kw_threads (kwait_wake me r' s1)) = Some k' \<and>
        (if r' = r then kt_state k' = Ready else kt_state k' = Blocked (encode_magic r))))"
proof -
  let ?f = "\<lambda>k. k \<lparr> kt_state := Blocked (encode_magic r), kt_waiting_for := Some (encode_magic r) \<rparr>"
  let ?ts = "modify_kthread tid ?f (kw_threads s)" and ?c = "remove_from_run_queue k (kw_cpus s)"
  let ?s1 = "kw_set_need_resched me (s \<lparr> kw_cpus := ?c, kw_threads := ?ts \<rparr>)"
  have tid: "kt_tid k = tid" and mem: "Some k \<in> set (kw_threads s)" using find_kthread_SomeD [OF assms(3)] by simp_all
  have wf: "cpus_wf (kw_cpus s)" and home: "at_home k (kw_cpus s)" using assms(1) mem by (simp_all add: queues_consistent_iff)
  note rm = remove_from_run_queue_spec [OF wf, of k]
  have out: "\<not> queued ?c i tid p" for i p using rm home tid by (auto simp: at_home_def queue_home_def)
  have cons: "queues_consistent ?ts ?c"
    by (rule consistent_modify [OF assms(1,3)]) (use rm out tid in \<open>auto simp: at_home_def\<close>)
  have s1: "kw_threads ?s1 = ?ts" "kw_cpus ?s1 = this_cpu_set_need_resched me ?c" by (simp_all add: kw_set_need_resched_def)
  then have cons1: "queues_consistent (kw_threads ?s1) (kw_cpus ?s1)" using resched_consistent [OF cons] by simp
  obtain i where "i < length (kw_threads s)" "?ts = (kw_threads s)[i := Some (?f k)]" using modify_kthread_eq [OF assms(3)] by metis
  then have mem1: "Some (?f k) \<in> set ?ts" by (metis set_update_memI)
  have "\<exists>k'. find_kthread tid (kw_threads (kwait_wake me r' ?s1)) = Some k' \<and>
        (if r' = r then kt_state k' = Ready else kt_state k' = Blocked (encode_magic r))" for r'
  proof -
    note w = wake_result [OF cons1, of me r']
    have "Some (woken (encode_magic r') (?f k)) \<in> set (kw_threads (kwait_wake me r' ?s1))"
      unfolding w(1) s1 using mem1 by force
    moreover have "kt_tid (woken (encode_magic r') (?f k)) = tid" using tid by (simp add: woken_def)
    ultimately have "find_kthread tid (kw_threads (kwait_wake me r' ?s1)) = Some (woken (encode_magic r') (?f k))"
      using w(2) by (subst find_kthread_iff) (auto simp: queues_consistent)
    then show ?thesis using encode_magic_inject [of r r'] by (auto simp: woken_def is_blocked_def)
  qed
  moreover have "kwait_block me r s = Some ?s1" using assms(2,3) by (simp add: kwait_block_def Let_def)
  moreover have "\<not> queued (kw_cpus ?s1) i tid p" for i p using out rm s1(2) by (simp add: resched_queued)
  ultimately show ?thesis using cons1 wake_result(2) [OF cons1, of me] by blast
qed

definition sample_state :: KWaitState where
  "sample_state = \<lparr> kw_threads = sample_threads, kw_cpus = cpus_boot 2, kw_current_tid = 4, kw_ap_active = False,
     kw_need_resched = False, kw_deadlines = [] \<rparr>"

theorem blocked_until_own_wake_witness:
  "\<exists>s1 k'. kwait_block 0 (Timer 5) sample_state = Some s1 \<and>
    find_kthread 4 (kw_threads (kwait_wake 0 (Timer 5) s1)) = Some k' \<and> kt_state k' = Ready"
proof -
  have "kprcb_page 0 (cpus_boot 2) = Some kprcb_new" by (simp add: kprcb_page_def cpus_boot_def MAX_CPUS_def)
  then have "current_tid_checked 0 sample_state = Some 4" by (simp add: current_tid_checked_def sample_state_def kprcb_new_def)
  moreover have "find_kthread 4 (kw_threads sample_state) = Some (sample_thread 4 Ready 3 0)"
    by (subst find_kthread_iff)
      (use sample_consistent [of 2] in \<open>auto simp: sample_state_def queues_consistent sample_threads_def sample_thread_def\<close>)
  moreover have "queues_consistent (kw_threads sample_state) (kw_cpus sample_state)"
    using sample_consistent by (simp add: sample_state_def)
  ultimately show ?thesis using blocked_until_own_wake [of sample_state 0 4 _ "Timer 5"] by fastforce
qed

section \<open>Deadlines\<close>

text \<open>A magic value has at most one deadline.\<close>

lemma register_deadline_distinct:
  assumes "distinct (map fst (kw_deadlines s))"
  shows "distinct (map fst (kw_deadlines (register_deadline m dl s)))"
proof (cases "position (\<lambda>e. fst e = m) (kw_deadlines s)")
  case (Some i)
  then have "i < length (kw_deadlines s)" "fst (kw_deadlines s ! i) = m" using position_SomeD [OF Some] by simp_all
  then have "map fst ((kw_deadlines s)[i := (m, dl)]) = map fst (kw_deadlines s)"
    by (auto simp: map_update intro: list_update_same_conv [THEN iffD2])
  then show ?thesis using assms Some by (simp add: register_deadline_def)
next
  case None
  then have "m \<notin> set (map fst (kw_deadlines s))" by (auto simp: position_None_iff)
  then show ?thesis using assms None by (auto simp: register_deadline_def)
qed

lemma woken_all:
  "foldl (\<lambda>k m. woken m k) k ms = (case kt_waiting_for k of Some m \<Rightarrow> if m \<in> set ms then woken m k else k | None \<Rightarrow> k)"
proof (induction ms arbitrary: k)
  case (Cons m ms)
  have "kt_waiting_for (woken m k) = (if kt_waiting_for k = Some m \<and> is_blocked k then None else kt_waiting_for k)"
    by (simp add: woken_def)
  moreover have "woken m k = k" if "\<not> (kt_waiting_for k = Some m \<and> is_blocked k)" for m using that by (simp only: woken_def if_False)
  ultimately show ?case using Cons.IH [of "woken m k"] by (auto split: option.splits)
qed (simp split: option.split)

lemma wake_all:
  assumes "queues_consistent (kw_threads s) (kw_cpus s)" and "\<forall>m\<in>set ms. \<exists>r. m = encode_magic r"
  shows "let s' = foldl (\<lambda>s m. case decode_magic m of Some reason \<Rightarrow> kwait_wake me reason s | None \<Rightarrow> s) s ms in
    kw_threads s' = map (map_option (\<lambda>k. foldl (\<lambda>k m. woken m k) k ms)) (kw_threads s) \<and>
    queues_consistent (kw_threads s') (kw_cpus s') \<and> kw_deadlines s' = filter (\<lambda>e. fst e \<notin> set ms) (kw_deadlines s)"
  using assms
proof (induction ms arbitrary: s)
  case (Cons m ms)
  obtain r where m: "m = encode_magic r" using Cons.prems(2) by auto
  note w = wake_result [OF Cons.prems(1), of me r]
  have "decode_magic m = Some r" unfolding m by (rule decode_encode_magic)
  then show ?case using Cons.IH [OF w(2)] Cons.prems(2) w(1,3) m
    by (auto simp: Let_def comp_def option.map_comp conj_commute)
qed (simp add: option.map_id0 map_idI option.map_ident)

text \<open>
  C37. A timed wait ends when its deadline has passed: the deadline pass makes Ready exactly the threads
  blocked on a value whose deadline lies in the past, forgets exactly these deadlines, and keeps the
  run queues consistent.
\<close>

theorem deadline_tick_wakes_expired:
  assumes "queues_consistent (kw_threads s) (kw_cpus s)" and "distinct (map fst (kw_deadlines s))"
    and "\<forall>e\<in>set (kw_deadlines s). \<exists>r. fst e = encode_magic r"
  shows "let s' = snd (deadline_tick me now s) in
    kw_threads s' = map (map_option (\<lambda>k. case kt_waiting_for k of
        Some m \<Rightarrow> if \<exists>e\<in>set (kw_deadlines s). fst e = m \<and> deadline_passed now e then woken m k else k | None \<Rightarrow> k)) (kw_threads s) \<and>
    kw_deadlines s' = filter (\<lambda>e. \<not> deadline_passed now e) (kw_deadlines s) \<and> queues_consistent (kw_threads s') (kw_cpus s')"
proof -
  let ?passed = "deadline_passed now" and ?ms = "map fst (filter (deadline_passed now) (kw_deadlines s))"
  let ?s0 = "s \<lparr> kw_deadlines := filter (\<lambda>e. \<not> ?passed e) (kw_deadlines s) \<rparr>"
  have "fst e \<notin> set ?ms" if "e \<in> set (kw_deadlines s)" "\<not> ?passed e" for e
    using that assms(2) by (auto simp: distinct_map inj_on_def)
  then have keep: "filter (\<lambda>e. fst e \<notin> set ?ms) (filter (\<lambda>e. \<not> ?passed e) (kw_deadlines s)) = filter (\<lambda>e. \<not> ?passed e) (kw_deadlines s)"
    by (intro filter_True) auto
  have threads: "(\<lambda>k. foldl (\<lambda>k m. woken m k) k ?ms) = (\<lambda>k. case kt_waiting_for k of
      Some m \<Rightarrow> if \<exists>e\<in>set (kw_deadlines s). fst e = m \<and> ?passed e then woken m k else k | None \<Rightarrow> k)"
    by (rule ext) (auto simp: woken_all split: option.split)
  show ?thesis using wake_all [of ?s0 ?ms me] assms(1,3) keep unfolding threads
    by (auto simp: deadline_tick_def Let_def)
qed

definition timed_state :: KWaitState where
  "timed_state = sample_state \<lparr> kw_threads := [Some (sample_thread 2 (Blocked (encode_magic (Event 7))) 2 1 \<lparr> kt_waiting_for := Some (encode_magic (Event 7)) \<rparr>)],
     kw_deadlines := [(encode_magic (Event 7), 100), (encode_magic (Event 8), 900)] \<rparr>"

theorem deadline_tick_wakes_expired_witness:
  "kw_threads (snd (deadline_tick 0 500 timed_state)) = [Some (sample_thread 2 Ready 2 1)] \<and>
    kw_deadlines (snd (deadline_tick 0 500 timed_state)) = [(encode_magic (Event 8), 900)]"
proof -
  have "queues_consistent (kw_threads timed_state) (kw_cpus timed_state)"
    unfolding timed_state_def sample_state_def by (simp add: consistent_boot tids_of_def)
  moreover have "distinct (map fst (kw_deadlines timed_state))" by (simp add: timed_state_def encode_magic_inject)
  moreover have "\<forall>e\<in>set (kw_deadlines timed_state). \<exists>r. fst e = encode_magic r" by (auto simp: timed_state_def)
  ultimately show ?thesis using deadline_tick_wakes_expired [of timed_state 0 500]
    by (simp add: timed_state_def sample_thread_def woken_def is_blocked_def encode_magic_inject Let_def)
qed

end
