(* ===== verification/WaitObjects.thy ===== *)
theory WaitObjects
  imports KWait
begin

text \<open>
  The kernel objects that threads wait on: semaphores (neodos-kernel/src/object/semaphore.rs) and timers
  (object/timer.rs), in fixed tables of 64 entries. Their state extends the wait engine's, since a
  release or an expiry wakes the waiters. Semaphore counts are signed 32-bit values whose addition wraps.
\<close>

section \<open>Semaphores\<close>

abbreviation (input) MAX_SEMAPHORES :: nat where "MAX_SEMAPHORES \<equiv> 64"

record SemaphoreEntry =
  se_used :: bool
  se_count :: u32
  se_max_count :: u32
  se_ob_id :: u64

definition sem_unused :: SemaphoreEntry where
  "sem_unused = \<lparr> se_used = False, se_count = 0, se_max_count = 0, se_ob_id = 0 \<rparr>"

datatype TimerState = Idle | TimerRunning | Expired
datatype TimerType = Oneshot | Periodic

record TimerEntry =
  te_used :: bool
  te_state :: TimerState
  te_type :: TimerType
  te_period_ms :: u64
  te_remaining_ms :: u64
  te_ob_id :: u64

record WaitObjects = KWaitState +
  wo_sems :: "SemaphoreEntry list"
  wo_timers :: "TimerEntry list"

definition sems_new :: "SemaphoreEntry list" where
  "sems_new = replicate MAX_SEMAPHORES sem_unused"

definition sem_alloc :: "u64 \<Rightarrow> u32 \<Rightarrow> u32 \<Rightarrow> 'z WaitObjects_scheme \<Rightarrow> u32 option \<times> 'z WaitObjects_scheme" where
  "sem_alloc ob_id initial max_count s =
    (if sint initial < 0 \<or> sint max_count \<le> 0 \<or> sint initial > sint max_count then (None, s)
     else case position (\<lambda>e. \<not> se_used e) (wo_sems s) of
       Some i \<Rightarrow> (Some (of_nat i), s \<lparr> wo_sems := (wo_sems s)[i :=
         \<lparr> se_used = True, se_count = initial, se_max_count = max_count, se_ob_id = ob_id \<rparr>] \<rparr>)
     | None \<Rightarrow> (None, s))"

definition sem_free :: "u32 \<Rightarrow> 'z WaitObjects_scheme \<Rightarrow> 'z WaitObjects_scheme" where
  "sem_free sem_id s = s \<lparr> wo_sems := (wo_sems s)[unat sem_id := sem_unused] \<rparr>"

definition sem_release :: "nat \<Rightarrow> u32 \<Rightarrow> u32 \<Rightarrow> 'z WaitObjects_scheme \<Rightarrow> bool \<times> 'z WaitObjects_scheme" where
  "sem_release me sem_id release_count s =
    (if sint release_count \<le> 0 then (False, s)
     else if unat sem_id < length (wo_sems s)
     then let e = wo_sems s ! unat sem_id in
       if \<not> se_used e then (False, s)
       else let sum = se_count e + release_count;
                n = (if sint sum \<le> sint (se_max_count e) then sum else se_max_count e);
                s1 = s \<lparr> wo_sems := (wo_sems s)[unat sem_id := e \<lparr> se_count := n \<rparr>] \<rparr>
            in (True, if se_count e = 0 \<and> sint n > 0 then kwait_wake me (Semaphore sem_id) s1 else s1)
     else (False, s))"

definition sem_wait_decrement :: "u32 \<Rightarrow> 'z WaitObjects_scheme \<Rightarrow> bool \<times> 'z WaitObjects_scheme" where
  "sem_wait_decrement sem_id s =
    (if unat sem_id < length (wo_sems s)
     then let e = wo_sems s ! unat sem_id in
       if se_used e \<and> sint (se_count e) > 0
       then (True, s \<lparr> wo_sems := (wo_sems s)[unat sem_id := e \<lparr> se_count := se_count e - 1 \<rparr>] \<rparr>) else (False, s)
     else (False, s))"

definition sem_get_count :: "u32 \<Rightarrow> 'z WaitObjects_scheme \<Rightarrow> u32" where
  "sem_get_count sem_id s =
    (if unat sem_id < length (wo_sems s) \<and> se_used (wo_sems s ! unat sem_id) then se_count (wo_sems s ! unat sem_id) else - 1)"

section \<open>Timers\<close>

abbreviation (input) MAX_TIMERS :: nat where "MAX_TIMERS \<equiv> 64"

definition timer_unused :: TimerEntry where
  "timer_unused = \<lparr> te_used = False, te_state = Idle, te_type = Oneshot, te_period_ms = 0, te_remaining_ms = 0, te_ob_id = 0 \<rparr>"

definition timers_new :: "TimerEntry list" where
  "timers_new = replicate MAX_TIMERS timer_unused"

definition timer_alloc :: "u64 \<Rightarrow> u64 \<Rightarrow> bool \<Rightarrow> 'z WaitObjects_scheme \<Rightarrow> u32 option \<times> 'z WaitObjects_scheme" where
  "timer_alloc ob_id period_ms periodic s = (case position (\<lambda>t. \<not> te_used t) (wo_timers s) of
      Some i \<Rightarrow> (Some (of_nat i), s \<lparr> wo_timers := (wo_timers s)[i := \<lparr> te_used = True, te_state = Idle,
        te_type = (if periodic then Periodic else Oneshot), te_period_ms = period_ms, te_remaining_ms = 0, te_ob_id = ob_id \<rparr>] \<rparr>)
    | None \<Rightarrow> (None, s))"

definition timer_free :: "u32 \<Rightarrow> 'z WaitObjects_scheme \<Rightarrow> 'z WaitObjects_scheme" where
  "timer_free timer_id s = s \<lparr> wo_timers := (wo_timers s)[unat timer_id := timer_unused] \<rparr>"

definition timer_start :: "u32 \<Rightarrow> 'z WaitObjects_scheme \<Rightarrow> bool \<times> 'z WaitObjects_scheme" where
  "timer_start timer_id s =
    (if unat timer_id < length (wo_timers s) \<and> te_used (wo_timers s ! unat timer_id)
     then (True, s \<lparr> wo_timers := (wo_timers s)[unat timer_id := (wo_timers s ! unat timer_id)
       \<lparr> te_state := TimerRunning, te_remaining_ms := te_period_ms (wo_timers s ! unat timer_id) \<rparr>] \<rparr>)
     else (False, s))"

definition timer_cancel :: "u32 \<Rightarrow> 'z WaitObjects_scheme \<Rightarrow> bool \<times> 'z WaitObjects_scheme" where
  "timer_cancel timer_id s =
    (if unat timer_id < length (wo_timers s) \<and> te_used (wo_timers s ! unat timer_id) \<and> te_state (wo_timers s ! unat timer_id) = TimerRunning
     then (True, s \<lparr> wo_timers := (wo_timers s)[unat timer_id := (wo_timers s ! unat timer_id)
       \<lparr> te_state := Idle, te_remaining_ms := 0 \<rparr>] \<rparr>)
     else (False, s))"

text \<open>What one tick does to a timer, and whether it fires.\<close>

definition timer_next :: "TimerEntry \<Rightarrow> bool \<times> TimerEntry" where
  "timer_next t =
    (if \<not> te_used t \<or> te_state t \<noteq> TimerRunning then (False, t)
     else if te_remaining_ms t > 1 then (False, t \<lparr> te_remaining_ms := te_remaining_ms t - 1 \<rparr>)
     else (True, if te_type t = Periodic then t \<lparr> te_state := TimerRunning, te_remaining_ms := te_period_ms t \<rparr>
                 else t \<lparr> te_state := Expired, te_remaining_ms := 0 \<rparr>))"

definition timer_step :: "nat \<Rightarrow> nat \<Rightarrow> 'z WaitObjects_scheme \<Rightarrow> 'z WaitObjects_scheme" where
  "timer_step me i s = (let (fired, t) = timer_next (wo_timers s ! i); s1 = s \<lparr> wo_timers := (wo_timers s)[i := t] \<rparr>
     in if fired then kwait_wake me (Timer (of_nat i)) s1 else s1)"

definition timer_tick :: "nat \<Rightarrow> 'z WaitObjects_scheme \<Rightarrow> 'z WaitObjects_scheme" where
  "timer_tick me s = foldl (\<lambda>s i. timer_step me i s) s [0..<MAX_TIMERS]"

section \<open>Semaphore counts\<close>

lemma wake_objects [simp]:
  "wo_sems (kwait_wake me r s) = wo_sems s" "wo_timers (kwait_wake me r s) = wo_timers s"
  by (simp_all add: kwait_wake_def cancel_deadline_def kw_set_need_resched_def Let_def case_prod_beta)

lemma sint_add_pos:
  assumes "0 \<le> sint (a :: u32)" and "0 < sint b"
  shows "sint (a + b) = (if sint a + sint b < 2 ^ 31 then sint a + sint b else sint a + sint b - 2 ^ 32)"
proof -
  let ?k = "sint a + sint b"
  have "(?k + 2 ^ 31) mod 2 ^ 32 = (if ?k < 2 ^ 31 then ?k + 2 ^ 31 else ?k + 2 ^ 31 - 2 ^ 32)"
    using assms sint_lt [of a] sint_lt [of b] minus_mod_self2 [of "?k + 2 ^ 31" "2 ^ 32"] by (auto simp: mod_pos_pos_trivial)
  then show ?thesis by (simp add: sint_word_add signed_take_bit_eq_take_bit_shift take_bit_eq_mod split: if_splits)
qed

text \<open>
  C39. A release adds to the count of a semaphore, up to its maximum, as long as the sum stays below the
  limit of the 32-bit count. Beyond that the sum wraps around: the count becomes negative, and no waiter
  can take the semaphore although units were released.
\<close>

theorem sem_release_count:
  assumes "unat i < length (wo_sems s)" and "se_used (wo_sems s ! unat i)" and "0 < sint n"
    and "0 \<le> sint (sem_get_count i s)" and "sint (sem_get_count i s) \<le> sint (se_max_count (wo_sems s ! unat i))"
  shows "case sem_release me i n s of (ok, s') \<Rightarrow> ok \<and>
    (let total = sint (sem_get_count i s) + sint n in
     if total < 2 ^ 31 then sint (sem_get_count i s') = min total (sint (se_max_count (wo_sems s ! unat i)))
     else sint (sem_get_count i s') = total - 2 ^ 32 \<and> sint (sem_get_count i s') < 0 \<and> \<not> fst (sem_wait_decrement i s'))"
proof -
  let ?e = "wo_sems s ! unat i"
  let ?sum = "se_count ?e + n"
  let ?c = "if sint ?sum \<le> sint (se_max_count ?e) then ?sum else se_max_count ?e"
  have c: "sem_get_count i s = se_count ?e" using assms(1,2) by (simp add: sem_get_count_def)
  obtain s' where s': "sem_release me i n s = (True, s')" "wo_sems s' = (wo_sems s)[unat i := ?e \<lparr> se_count := ?c \<rparr>]"
    using assms(1-3) by (fastforce simp: sem_release_def Let_def not_le)
  have new: "sem_get_count i s' = ?c" using s'(2) assms(1,2) by (simp add: sem_get_count_def)
  have w: "fst (sem_wait_decrement i s') \<longleftrightarrow> sint ?c > 0" using s'(2) assms(1,2) by (simp add: sem_wait_decrement_def Let_def)
  have sum: "sint ?sum = (if sint (se_count ?e) + sint n < 2 ^ 31 then sint (se_count ?e) + sint n else sint (se_count ?e) + sint n - 2 ^ 32)"
    using sint_add_pos assms(3,4) c by simp
  have b: "sint (se_count ?e) < 2 ^ 31" "sint n < 2 ^ 31" using sint_lt [of "se_count ?e"] sint_lt [of n] by simp_all
  show ?thesis
  proof (cases "sint (se_count ?e) + sint n < 2 ^ 31")
    case True
    then show ?thesis using sum new s'(1) c by (simp add: min_def)
  next
    case False
    then have "sint ?sum < 0" "sint ?sum \<le> sint (se_max_count ?e)" using sum b assms(4,5) c by simp_all
    then show ?thesis using False sum new w s'(1) c by simp
  qed
qed

definition objects_state :: "SemaphoreEntry list \<Rightarrow> TimerEntry list \<Rightarrow> WaitObjects" where
  "objects_state sems timers = KWaitState.extend timed_state \<lparr> wo_sems = sems, wo_timers = timers \<rparr>"

lemma objects_state_sel [simp]:
  "wo_sems (objects_state sems timers) = sems" "wo_timers (objects_state sems timers) = timers"
  "kw_threads (objects_state sems timers) = kw_threads timed_state" "kw_cpus (objects_state sems timers) = kw_cpus timed_state"
  by (simp_all add: objects_state_def KWaitState.extend_def)

theorem sem_release_count_witness:
  "sint (sem_get_count 0 (snd (sem_release 0 0 0x7FFFFFFF (objects_state
    [\<lparr> se_used = True, se_count = 1, se_max_count = 0x7FFFFFFF, se_ob_id = 9 \<rparr>] [])))) = - (2 ^ 31)"
  using sem_release_count [of 0 "objects_state [\<lparr> se_used = True, se_count = 1, se_max_count = 0x7FFFFFFF, se_ob_id = 9 \<rparr>] []" "0x7FFFFFFF" 0]
  by (simp add: sem_get_count_def case_prod_beta)

section \<open>Sleeping on a timer\<close>

lemma timer_tick_result:
  assumes "queues_consistent (kw_threads s) (kw_cpus s)" and "n \<le> length (wo_timers s)"
  shows "let s' = foldl (\<lambda>s i. timer_step me i s) s [0..<n];
      fired = map (\<lambda>i. encode_magic (Timer (of_nat i))) (filter (\<lambda>i. fst (timer_next (wo_timers s ! i))) [0..<n]) in
    kw_threads s' = map (map_option (\<lambda>k. foldl (\<lambda>k m. woken m k) k fired)) (kw_threads s) \<and>
    queues_consistent (kw_threads s') (kw_cpus s') \<and> length (wo_timers s') = length (wo_timers s) \<and>
    (\<forall>i < length (wo_timers s). wo_timers s' ! i = (if i < n then snd (timer_next (wo_timers s ! i)) else wo_timers s ! i))"
  using assms(2)
proof (induction n)
  case 0
  then show ?case using assms(1) by (simp add: map_idI option.map_ident)
next
  case (Suc n)
  define s1 where "s1 = foldl (\<lambda>s i. timer_step me i s) s [0..<n]"
  define fired where "fired = map (\<lambda>i. encode_magic (Timer (of_nat i))) (filter (\<lambda>i. fst (timer_next (wo_timers s ! i))) [0..<n])"
  have IH: "kw_threads s1 = map (map_option (\<lambda>k. foldl (\<lambda>k m. woken m k) k fired)) (kw_threads s)"
      "queues_consistent (kw_threads s1) (kw_cpus s1)" "length (wo_timers s1) = length (wo_timers s)"
      "i < length (wo_timers s) \<Longrightarrow> wo_timers s1 ! i = (if i < n then snd (timer_next (wo_timers s ! i)) else wo_timers s ! i)" for i
    using Suc unfolding s1_def fired_def Let_def by auto
  have t: "wo_timers s1 ! n = wo_timers s ! n" using IH(4) [of n] Suc.prems by simp
  let ?s2 = "s1 \<lparr> wo_timers := (wo_timers s1)[n := snd (timer_next (wo_timers s ! n))] \<rparr>"
  have step: "timer_step me n s1 = (if fst (timer_next (wo_timers s ! n)) then kwait_wake me (Timer (of_nat n)) ?s2 else ?s2)"
    by (simp add: timer_step_def t case_prod_beta Let_def)
  have c2: "queues_consistent (kw_threads ?s2) (kw_cpus ?s2)" using IH(2) by simp
  have "foldl (\<lambda>s i. timer_step me i s) s [0..<Suc n] = timer_step me n s1" by (simp add: s1_def)
  then show ?case using wake_result [OF c2, of me "Timer (of_nat n)"] IH step Suc.prems
    by (auto simp: fired_def [symmetric] Let_def less_Suc_eq comp_def option.map_comp nth_list_update)
qed

lemma timer_next_pow:
  assumes "te_used t" and "te_state t = TimerRunning" and "n < max 1 (unat (te_remaining_ms t))"
  shows "((\<lambda>t. snd (timer_next t)) ^^ n) t = t \<lparr> te_remaining_ms := te_remaining_ms t - of_nat n \<rparr>"
    and "fst (timer_next (((\<lambda>t. snd (timer_next t)) ^^ n) t)) \<longleftrightarrow> Suc n = max 1 (unat (te_remaining_ms t))"
proof -
  have b: "unat (te_remaining_ms t) < 2 ^ 64" using unat_bound [of "te_remaining_ms t"] by simp
  have rem: "unat (te_remaining_ms t - of_nat m) = unat (te_remaining_ms t) - m" if "m \<le> unat (te_remaining_ms t)" for m
    using that b by (simp add: unat_sub word_le_nat_alt unat_of_nat)
  show pow: "((\<lambda>t. snd (timer_next t)) ^^ n) t = t \<lparr> te_remaining_ms := te_remaining_ms t - of_nat n \<rparr>"
    using assms(3)
  proof (induction n)
    case (Suc n)
    have "unat (te_remaining_ms t - of_nat n) > 1" using Suc.prems rem [of n] by simp
    then show ?case using Suc assms(1,2) by (simp add: timer_next_def word_less_nat_alt algebra_simps)
  qed simp
  show "fst (timer_next (((\<lambda>t. snd (timer_next t)) ^^ n) t)) \<longleftrightarrow> Suc n = max 1 (unat (te_remaining_ms t))"
    unfolding pow using assms rem [of n] by (auto simp: timer_next_def word_less_nat_alt)
qed

lemma timer_tick_thread:
  assumes "queues_consistent (kw_threads s) (kw_cpus s)" and "length (wo_timers s) = MAX_TIMERS" and "i < MAX_TIMERS"
    and "j < length (kw_threads s)" and "kw_threads s ! j = Some k" and "kt_waiting_for k = Some (encode_magic (Timer (of_nat i)))"
  shows "kw_threads (timer_tick me s) ! j =
      Some (if fst (timer_next (wo_timers s ! i)) then woken (encode_magic (Timer (of_nat i))) k else k)"
    and "queues_consistent (kw_threads (timer_tick me s)) (kw_cpus (timer_tick me s))"
    and "length (wo_timers (timer_tick me s)) = MAX_TIMERS" and "length (kw_threads (timer_tick me s)) = length (kw_threads s)"
    and "wo_timers (timer_tick me s) ! i = snd (timer_next (wo_timers s ! i))"
proof -
  let ?fired = "map (\<lambda>i. encode_magic (Timer (of_nat i))) (filter (\<lambda>i. fst (timer_next (wo_timers s ! i))) [0..<MAX_TIMERS])"
  have inj: "(of_nat a :: u32) = of_nat b \<longleftrightarrow> a = b" if "a < MAX_TIMERS" "b < MAX_TIMERS" for a b
    using that by (simp add: word_unat_eq_iff unat_of_nat)
  have m: "encode_magic (Timer (of_nat i)) \<in> set ?fired \<longleftrightarrow> fst (timer_next (wo_timers s ! i))"
    using assms(3) inj by (auto simp: encode_magic_inject)
  note r = timer_tick_result [OF assms(1) eq_imp_le [OF assms(2) [symmetric]], of me, folded timer_tick_def, unfolded Let_def]
  show "kw_threads (timer_tick me s) ! j =
      Some (if fst (timer_next (wo_timers s ! i)) then woken (encode_magic (Timer (of_nat i))) k else k)"
    using r assms(2,4,5,6) m by (simp add: woken_all)
  show "queues_consistent (kw_threads (timer_tick me s)) (kw_cpus (timer_tick me s))"
    using r by blast
  show "length (wo_timers (timer_tick me s)) = MAX_TIMERS" "length (kw_threads (timer_tick me s)) = length (kw_threads s)"
      "wo_timers (timer_tick me s) ! i = snd (timer_next (wo_timers s ! i))"
    using r assms(2,3) by simp_all
qed

text \<open>
  C38. A thread that waits for a running timer sleeps exactly as long as the timer has left: it is
  untouched by every tick before, and the tick that ends the remaining time (the first one, if none is
  left) makes it Ready.
\<close>

theorem timer_wakes_sleeper:
  assumes "queues_consistent (kw_threads s) (kw_cpus s)" and "length (wo_timers s) = MAX_TIMERS" and "i < MAX_TIMERS"
    and "te_used (wo_timers s ! i)" and "te_state (wo_timers s ! i) = TimerRunning"
    and "j < length (kw_threads s)" and "kw_threads s ! j = Some k" and "is_blocked k"
    and "kt_waiting_for k = Some (encode_magic (Timer (of_nat i)))"
  shows "let left = max 1 (unat (te_remaining_ms (wo_timers s ! i))) in
    (\<forall>n < left. kw_threads ((timer_tick me ^^ n) s) ! j = Some k) \<and>
    (\<exists>k'. kw_threads ((timer_tick me ^^ left) s) ! j = Some k' \<and> kt_tid k' = kt_tid k \<and> kt_state k' = Ready)"
proof -
  define left where "left = max 1 (unat (te_remaining_ms (wo_timers s ! i)))"
  let ?s = "\<lambda>n. (timer_tick me ^^ n) s"
  note pow = timer_next_pow [OF assms(4,5), folded left_def]
  have before: "n < left \<Longrightarrow> queues_consistent (kw_threads (?s n)) (kw_cpus (?s n)) \<and> length (wo_timers (?s n)) = MAX_TIMERS \<and>
      length (kw_threads (?s n)) = length (kw_threads s) \<and> wo_timers (?s n) ! i = ((\<lambda>t. snd (timer_next t)) ^^ n) (wo_timers s ! i) \<and>
      kw_threads (?s n) ! j = Some k" for n
  proof (induction n)
    case (Suc n)
    then have IH: "queues_consistent (kw_threads (?s n)) (kw_cpus (?s n))" "length (wo_timers (?s n)) = MAX_TIMERS"
        "length (kw_threads (?s n)) = length (kw_threads s)" "wo_timers (?s n) ! i = ((\<lambda>t. snd (timer_next t)) ^^ n) (wo_timers s ! i)"
        "kw_threads (?s n) ! j = Some k" by simp_all
    have "\<not> fst (timer_next (wo_timers (?s n) ! i))" using pow(2) [of n] Suc.prems IH(4) by simp
    then show ?case using timer_tick_thread [OF IH(1,2) assms(3) _ IH(5) assms(9), of me] IH(3,4) assms(6) by simp
  qed (use assms(1,2,7) in simp)
  have pos: "left - 1 < left" "Suc (left - 1) = left" by (simp_all add: left_def)
  note last = before [OF pos(1)]
  have "fst (timer_next (wo_timers (?s (left - 1)) ! i))" using pow(2) [OF pos(1)] pos(2) last by simp
  then have "kw_threads (timer_tick me (?s (left - 1))) ! j = Some (woken (encode_magic (Timer (of_nat i))) k)"
    using timer_tick_thread(1) [OF _ _ assms(3) _ _ assms(9), of "?s (left - 1)" j me] last assms(6) by simp
  moreover have "timer_tick me (?s (left - 1)) = ?s left" using pos(2) by (metis comp_apply funpow.simps(2))
  ultimately have "\<exists>k'. kw_threads (?s left) ! j = Some k' \<and> kt_tid k' = kt_tid k \<and> kt_state k' = Ready"
    using assms(8,9) by (simp add: woken_def)
  then show ?thesis using before unfolding Let_def left_def by blast
qed

definition sleeper :: Kthread where
  "sleeper = sample_thread 2 (Blocked (encode_magic (Timer 0))) 2 1 \<lparr> kt_waiting_for := Some (encode_magic (Timer 0)) \<rparr>"

definition sleep_state :: WaitObjects where
  "sleep_state = objects_state [] (\<lparr> te_used = True, te_state = TimerRunning, te_type = Oneshot, te_period_ms = 3, te_remaining_ms = 3, te_ob_id = 9 \<rparr>
     # replicate 63 timer_unused) \<lparr> kw_threads := [Some sleeper] \<rparr>"

theorem timer_wakes_sleeper_witness:
  "kw_threads ((timer_tick 0 ^^ 2) sleep_state) ! 0 = Some sleeper \<and>
    (\<exists>k'. kw_threads ((timer_tick 0 ^^ 3) sleep_state) ! 0 = Some k' \<and> kt_state k' = Ready)"
proof -
  have "queues_consistent (kw_threads sleep_state) (kw_cpus sleep_state)"
    unfolding sleep_state_def timed_state_def sample_state_def objects_state_def KWaitState.extend_def
    by (simp add: consistent_boot tids_of_def)
  moreover have "kw_threads sleep_state = [Some sleeper]" "length (wo_timers sleep_state) = MAX_TIMERS"
    "te_used (wo_timers sleep_state ! 0)" "te_state (wo_timers sleep_state ! 0) = TimerRunning" "te_remaining_ms (wo_timers sleep_state ! 0) = 3"
    by (simp_all add: sleep_state_def)
  moreover have "is_blocked sleeper" "kt_waiting_for sleeper = Some (encode_magic (Timer (of_nat 0)))"
    by (simp_all add: sleeper_def sample_thread_def is_blocked_def)
  ultimately show ?thesis using timer_wakes_sleeper [of sleep_state 0 0 sleeper 0] by (auto simp: Let_def)
qed

end
