(* ===== verification/Lifecycle.thy ===== *)
theory Lifecycle
  imports KWait
begin

text \<open>
  The scheduler's tables of processes and threads, and how the slots of terminated processes are
  reclaimed (the zombie queue, \<open>recycle_terminated\<close>, \<open>reap_pending_zombies\<close> and
  \<open>defer_reap_with_scheduler\<close> of scheduler/lifecycle.rs).

  \<open>Sched\<close> extends the state of the wait engine with the rest of the structure \<open>Scheduler\<close> and the
  statics beside it. The two id indexes of the tables are left out: a lookup never depends on them
  (\<open>find_kthread_indexed_eq\<close>). Reclaiming a process also releases its pages, handles, kernel stacks
  and objects; those effects are outside this state. Counters that only report are left out.
\<close>

section \<open>State\<close>

record Eprocess =
  ep_pid :: u32
  ep_user_slot :: "u8 option"
  ep_thread_count :: u32
  ep_exit_code :: u64

record Sched = KWaitState +
  sc_eprocesses :: "Eprocess option list"
  sc_next_pid :: u32
  sc_next_tid :: u32
  sc_timer_ticks :: u64
  sc_schedule_count :: u64
  sc_cpu_count :: nat
  sc_kernel_handoff :: "bool list"
  sc_zombies :: "u32 list"
  sc_preempt_tracking :: bool
  sc_preempt_count :: "u32 list"

text \<open>A new process: \<open>new_idle\<close> and \<open>new_kernel\<close> have no user slot and count no thread, \<open>new_ring3\<close> counts one.\<close>

definition eprocess_new :: "u32 \<Rightarrow> u8 option \<Rightarrow> u32 \<Rightarrow> Eprocess" where
  "eprocess_new pid user_slot thread_count =
    \<lparr> ep_pid = pid, ep_user_slot = user_slot, ep_thread_count = thread_count, ep_exit_code = 0 \<rparr>"

definition has_pid :: "u32 \<Rightarrow> Eprocess option \<Rightarrow> bool" where
  "has_pid pid e = (case e of None \<Rightarrow> False | Some ep \<Rightarrow> ep_pid ep = pid)"

definition find_eprocess :: "u32 \<Rightarrow> Eprocess option list \<Rightarrow> Eprocess option" where
  "find_eprocess pid eps = (case position (has_pid pid) eps of None \<Rightarrow> None | Some i \<Rightarrow> eps ! i)"

section \<open>The zombie queue\<close>

abbreviation (input) MAX_ZOMBIES :: nat where "MAX_ZOMBIES \<equiv> 64"
abbreviation (input) ZOMBIE_HARD_CAP :: nat where "ZOMBIE_HARD_CAP \<equiv> 128"

definition zq_enqueue :: "u32 \<Rightarrow> u32 list \<Rightarrow> bool \<times> u32 list" where
  "zq_enqueue pid q = (if pid = 0 then (False, q) else if pid \<in> set q then (False, q) else (True, q @ [pid]))"

definition zq_requeue :: "u32 \<Rightarrow> u32 list \<Rightarrow> u32 list" where
  "zq_requeue pid q = (if pid = 0 then q else if pid \<notin> set q then q @ [pid] else q)"

definition find_reclaimable :: "u32 \<Rightarrow> (u32 \<Rightarrow> bool) \<Rightarrow> u32 list \<Rightarrow> nat option" where
  "find_reclaimable exclude is_running q = position (\<lambda>p. p \<noteq> exclude \<and> \<not> is_running p) q"

definition take_at :: "nat \<Rightarrow> u32 list \<Rightarrow> u32 option \<times> u32 list" where
  "take_at pos q = (if pos < length q then (Some (q ! pos), take pos q @ drop (Suc pos) q) else (None, q))"

definition backpressured :: "(u32 \<Rightarrow> bool) \<Rightarrow> u32 list \<Rightarrow> bool" where
  "backpressured is_running q = (if length q < MAX_ZOMBIES then False else \<not> list_ex (\<lambda>p. \<not> is_running p) q)"

section \<open>Reclaiming processes\<close>

definition clear_kthread :: "Kthread option list \<Rightarrow> u32 \<Rightarrow> Kthread option list" where
  "clear_kthread ts tid = (case find_slot tid ts of None \<Rightarrow> ts | Some i \<Rightarrow> ts[i := None])"

definition recycle_terminated :: "u32 \<Rightarrow> 'z Sched_scheme \<Rightarrow> bool \<times> 'z Sched_scheme" where
  "recycle_terminated pid s =
    (if pid = 0 then (False, s)
     else case position (has_pid pid) (sc_eprocesses s) of
       None \<Rightarrow> (False, s)
     | Some ep_idx \<Rightarrow> (True, s \<lparr>
         kw_threads := foldl clear_kthread (kw_threads s) (thread_tids_for_pid pid (kw_threads s)),
         sc_eprocesses := (sc_eprocesses s)[ep_idx := None] \<rparr>))"

lemma take_at_Some: "find_reclaimable ex run q = Some i \<Longrightarrow>
    take_at i q = (Some (q ! i), take i q @ drop (Suc i) q) \<and> i < length q \<and> q ! i \<noteq> ex \<and> \<not> run (q ! i)"
  using position_SomeD [of _ q i] by (fastforce simp: find_reclaimable_def take_at_def)

lemma recycle_frame [simp]:
  "kw_cpus (snd (recycle_terminated pid s)) = kw_cpus s" "sc_zombies (snd (recycle_terminated pid s)) = sc_zombies s"
  by (auto simp: recycle_terminated_def split: option.splits)

lemma recycle_same: "(ok, s1) = recycle_terminated pid s \<Longrightarrow> sc_zombies s1 = sc_zombies s \<and> kw_cpus s1 = kw_cpus s"
  using recycle_frame [of pid s] by (metis snd_conv)

text \<open>
  Both loops look the queue up, drop its lock, take the entry and look again whether the process is
  running. Every turn shortens the queue, because the CPUs do not change under the scheduler lock and
  the entries put back are those that run.
\<close>

function reap_loop :: "u32 \<Rightarrow> 'z Sched_scheme \<Rightarrow> 'z Sched_scheme" where
  "reap_loop exclude_pid s =
    (case find_reclaimable exclude_pid (\<lambda>p. is_pid_running_on_any_cpu p (kw_cpus s)) (sc_zombies s) of
       None \<Rightarrow> s
     | Some pos \<Rightarrow> (case take_at pos (sc_zombies s) of
         (None, q) \<Rightarrow> s
       | (Some pid, q) \<Rightarrow>
           if is_pid_running_on_any_cpu pid (kw_cpus s)
           then reap_loop exclude_pid (s \<lparr> sc_zombies := zq_requeue pid q \<rparr>)
           else case recycle_terminated pid (s \<lparr> sc_zombies := q \<rparr>) of (ok, s1) \<Rightarrow>
             if \<not> ok \<and> is_pid_running_on_any_cpu pid (kw_cpus s1)
             then reap_loop exclude_pid (s1 \<lparr> sc_zombies := zq_requeue pid (sc_zombies s1) \<rparr>)
             else reap_loop exclude_pid s1))"
  by pat_completeness auto

termination
  by (relation "measure (\<lambda>(e, s). length (sc_zombies s))") (auto dest!: take_at_Some recycle_same)

declare reap_loop.simps [simp del]

text \<open>\<open>reap_pending_zombies\<close> returns at once on an empty queue, as the loop does.\<close>

definition reap_pending_zombies :: "u32 \<Rightarrow> 'z Sched_scheme \<Rightarrow> 'z Sched_scheme" where
  "reap_pending_zombies exclude_pid s = (if sc_zombies s = [] then s else reap_loop exclude_pid s)"

function defer_loop :: "u32 \<Rightarrow> 'z Sched_scheme \<Rightarrow> 'z Sched_scheme" where
  "defer_loop pid s =
    (if length (sc_zombies s) < ZOMBIE_HARD_CAP then s
     else case find_reclaimable pid (\<lambda>p. is_pid_running_on_any_cpu p (kw_cpus s)) (sc_zombies s) of
       None \<Rightarrow> s
     | Some pos \<Rightarrow> (case take_at pos (sc_zombies s) of
         (None, q) \<Rightarrow> s
       | (Some p, q) \<Rightarrow>
           if is_pid_running_on_any_cpu p (kw_cpus s) then s \<lparr> sc_zombies := zq_requeue p q \<rparr>
           else case recycle_terminated p (s \<lparr> sc_zombies := q \<rparr>) of (ok, s1) \<Rightarrow>
             if \<not> ok \<and> is_pid_running_on_any_cpu p (kw_cpus s1)
             then defer_loop pid (s1 \<lparr> sc_zombies := zq_requeue p (sc_zombies s1) \<rparr>)
             else defer_loop pid s1))"
  by pat_completeness auto

termination
  by (relation "measure (\<lambda>(e, s). length (sc_zombies s))") (auto dest!: take_at_Some recycle_same)

declare defer_loop.simps [simp del]

definition defer_reap_with_scheduler :: "u32 \<Rightarrow> 'z Sched_scheme \<Rightarrow> 'z Sched_scheme" where
  "defer_reap_with_scheduler pid s =
    (if pid = 0 then s else defer_loop pid (s \<lparr> sc_zombies := snd (zq_enqueue pid (sc_zombies s)) \<rparr>))"

section \<open>What is reclaimed\<close>

definition pids_of :: "Eprocess option list \<Rightarrow> u32 list" where
  "pids_of eps = concat (map (\<lambda>e. case e of None \<Rightarrow> [] | Some ep \<Rightarrow> [ep_pid ep]) eps)"

definition drop_threads :: "u32 set \<Rightarrow> Kthread option list \<Rightarrow> Kthread option list" where
  "drop_threads P ts = map (\<lambda>t. case t of Some k \<Rightarrow> if kt_pid k \<in> P then None else t | None \<Rightarrow> None) ts"

definition drop_eprocesses :: "u32 set \<Rightarrow> Eprocess option list \<Rightarrow> Eprocess option list" where
  "drop_eprocesses P eps = map (\<lambda>e. case e of Some ep \<Rightarrow> if ep_pid ep \<in> P then None else e | None \<Rightarrow> None) eps"

lemma drop_drop [simp]:
  "drop_threads P (drop_threads Q ts) = drop_threads (P \<union> Q) ts"
  "drop_eprocesses P (drop_eprocesses Q eps) = drop_eprocesses (P \<union> Q) eps"
  by (auto simp: drop_threads_def drop_eprocesses_def split: option.splits)

lemma drop_none [simp]: "drop_threads {} ts = ts" "drop_eprocesses {} eps = eps"
  by (auto simp: drop_threads_def drop_eprocesses_def intro!: map_idI split: option.splits)

lemma pids_of_mem: "p \<in> set (pids_of eps) \<longleftrightarrow> (\<exists>ep. Some ep \<in> set eps \<and> ep_pid ep = p)"
  by (force simp: pids_of_def split: option.splits)

lemma drop_mem:
  "Some k \<in> set (drop_threads P ts) \<longleftrightarrow> Some k \<in> set ts \<and> kt_pid k \<notin> P"
  "Some ep \<in> set (drop_eprocesses P eps) \<longleftrightarrow> Some ep \<in> set eps \<and> ep_pid ep \<notin> P"
  by (force simp: drop_threads_def drop_eprocesses_def split: option.splits if_splits)+

lemma drop_pids: "set (pids_of (drop_eprocesses P eps)) = set (pids_of eps) - P"
  by (auto simp: pids_of_mem drop_mem)

text \<open>Clearing slots keeps identifiers distinct.\<close>

lemma distinct_cleared:
  assumes "distinct (concat (map (\<lambda>x. case x of None \<Rightarrow> [] | Some k \<Rightarrow> [f k]) xs))" and "\<And>x. g x = x \<or> g x = None"
  shows "distinct (concat (map (\<lambda>x. case g x of None \<Rightarrow> [] | Some k \<Rightarrow> [f k]) xs))"
  using assms(1)
proof (induction xs)
  case (Cons x xs)
  let ?ids = "\<lambda>x. case x of None \<Rightarrow> [] | Some k \<Rightarrow> [f k]"
  have "set (?ids (g x)) \<subseteq> set (?ids x)" for x using assms(2) [of x] by (auto split: option.splits)
  then have "set (concat (map (\<lambda>x. ?ids (g x)) xs)) \<subseteq> set (concat (map ?ids xs))" by fastforce
  then show ?case using Cons assms(2) [of x] by (cases "g x = x") (auto simp del: set_concat)
qed simp

lemma drop_distinct:
  "distinct (tids_of ts) \<Longrightarrow> distinct (tids_of (drop_threads P ts))"
  "distinct (pids_of eps) \<Longrightarrow> distinct (pids_of (drop_eprocesses P eps))"
  unfolding tids_of_def pids_of_def drop_threads_def drop_eprocesses_def map_map comp_def
  by (erule distinct_cleared; simp split: option.splits)+

lemma clear_kthread_map:
  assumes "distinct (tids_of ts)"
  shows "clear_kthread ts t = map (\<lambda>x. if has_tid t x then None else x) ts"
proof (cases "find_slot t ts")
  case None
  then have "\<forall>x\<in>set ts. \<not> has_tid t x" by (simp add: find_slot_def position_None_iff)
  then show ?thesis using None by (auto simp: clear_kthread_def intro!: map_idI [symmetric])
next
  case (Some i)
  obtain k where i: "i < length ts" "ts ! i = Some k" "kt_tid k = t" using find_slot_SomeD [OF Some] by blast
  have "\<not> has_tid t (ts ! j)" if "j < length ts" "j \<noteq> i" for j
    using tids_of_nth_inj [OF assms that(1) i(1) _ i(2)] i(3) that(2) by (auto simp: has_tid_def split: option.splits)
  then show ?thesis using Some i by (auto simp: clear_kthread_def has_tid_def nth_list_update intro!: nth_equalityI)
qed

lemma clear_kthreads_map:
  assumes "distinct (tids_of ts)"
  shows "foldl clear_kthread ts tids =
    map (\<lambda>x. case x of Some k \<Rightarrow> if kt_tid k \<in> set tids then None else x | None \<Rightarrow> None) ts"
  using assms
proof (induction tids arbitrary: ts)
  case Nil
  then show ?case by (auto intro!: map_idI [symmetric] split: option.splits)
next
  case (Cons t tids)
  have eq: "clear_kthread ts t = map (\<lambda>x. if has_tid t x then None else x) ts" using clear_kthread_map [OF Cons.prems] .
  have "distinct (tids_of (map (\<lambda>x. if has_tid t x then None else x) ts))"
    using Cons.prems unfolding tids_of_def map_map comp_def by (rule distinct_cleared) simp
  then show ?case using Cons.IH [of "clear_kthread ts t"] by (auto simp: eq has_tid_def split: option.splits)
qed

lemma clear_process_threads:
  assumes "distinct (tids_of ts)"
  shows "foldl clear_kthread ts (thread_tids_for_pid pid ts) = drop_threads {pid} ts"
proof -
  have "t \<in> set (thread_tids_for_pid pid ts) \<longleftrightarrow> (\<exists>k. Some k \<in> set ts \<and> kt_tid k = t \<and> kt_pid k = pid)" for t
    by (force simp: thread_tids_for_pid_def split: option.splits if_splits)
  then have "kt_tid k \<in> set (thread_tids_for_pid pid ts) \<longleftrightarrow> kt_pid k = pid" if "Some k \<in> set ts" for k
    using that tids_of_inj [OF assms _ that] by blast
  then show ?thesis unfolding clear_kthreads_map [OF assms] drop_threads_def
    by (intro map_cong refl) (auto split: option.splits)
qed

lemma clear_eprocess:
  assumes "distinct (pids_of eps)" and "position (has_pid pid) eps = Some i"
  shows "eps[i := None] = drop_eprocesses {pid} eps"
  using assms
proof (induction eps arbitrary: i)
  case (Cons e eps)
  show ?case
  proof (cases "has_pid pid e")
    case True
    then obtain ep where e: "e = Some ep" "ep_pid ep = pid" by (auto simp: has_pid_def split: option.splits)
    then have "pid \<notin> set (pids_of eps)" using Cons.prems(1) by (simp add: pids_of_def)
    then have "drop_eprocesses {pid} eps = eps"
      by (auto simp: drop_eprocesses_def pids_of_mem intro!: map_idI split: option.splits)
    then show ?thesis using e Cons.prems(2) True by (auto simp: drop_eprocesses_def)
  next
    case False
    then obtain j where j: "i = Suc j" "position (has_pid pid) eps = Some j" using Cons.prems(2) by auto
    have "eps[j := None] = drop_eprocesses {pid} eps" using Cons.IH [OF _ j(2)] Cons.prems(1) by (auto simp: pids_of_def)
    then show ?thesis using False j(1) by (auto simp: drop_eprocesses_def has_pid_def split: option.splits)
  qed
qed simp

lemma recycle_exact:
  assumes "distinct (tids_of (kw_threads s))" and "distinct (pids_of (sc_eprocesses s))" and "pid \<noteq> 0"
  shows "snd (recycle_terminated pid s) = s \<lparr> kw_threads := drop_threads ({pid} \<inter> set (pids_of (sc_eprocesses s))) (kw_threads s),
      sc_eprocesses := drop_eprocesses {pid} (sc_eprocesses s) \<rparr>"
proof (cases "position (has_pid pid) (sc_eprocesses s)")
  case None
  then have no: "\<forall>e\<in>set (sc_eprocesses s). \<not> has_pid pid e" by (simp add: position_None_iff)
  then have "{pid} \<inter> set (pids_of (sc_eprocesses s)) = {}" by (auto simp: pids_of_mem has_pid_def)
  moreover have "drop_eprocesses {pid} (sc_eprocesses s) = sc_eprocesses s"
    using no by (auto simp: drop_eprocesses_def has_pid_def intro!: map_idI split: option.splits)
  ultimately show ?thesis using None assms(3) by (simp add: recycle_terminated_def)
next
  case (Some i)
  then have "pid \<in> set (pids_of (sc_eprocesses s))"
    using position_SomeD [OF Some] nth_mem by (fastforce simp: pids_of_mem has_pid_def split: option.splits)
  then show ?thesis using Some assms clear_process_threads [OF assms(1), of pid] clear_eprocess [OF assms(2) Some]
    by (simp add: recycle_terminated_def)
qed

section \<open>The two loops\<close>

definition reclaimable :: "u32 \<Rightarrow> 'z Sched_scheme \<Rightarrow> u32 set" where
  "reclaimable ex s = {p \<in> set (sc_zombies s). p \<noteq> ex \<and> \<not> is_pid_running_on_any_cpu p (kw_cpus s)}"

definition tables_wf :: "'z Sched_scheme \<Rightarrow> bool" where
  "tables_wf s \<longleftrightarrow> distinct (tids_of (kw_threads s)) \<and> distinct (pids_of (sc_eprocesses s)) \<and>
     0 \<notin> set (sc_zombies s) \<and> distinct (sc_zombies s)"

definition reclaim :: "u32 set \<Rightarrow> 'z Sched_scheme \<Rightarrow> 'z Sched_scheme" where
  "reclaim P s = s \<lparr> kw_threads := drop_threads (P \<inter> set (pids_of (sc_eprocesses s))) (kw_threads s),
     sc_eprocesses := drop_eprocesses P (sc_eprocesses s) \<rparr>"

lemma reap_loop_turn:
  "reap_loop ex s =
    (case find_reclaimable ex (\<lambda>p. is_pid_running_on_any_cpu p (kw_cpus s)) (sc_zombies s) of
       None \<Rightarrow> s
     | Some i \<Rightarrow> reap_loop ex (snd (recycle_terminated (sc_zombies s ! i)
         (s \<lparr> sc_zombies := take i (sc_zombies s) @ drop (Suc i) (sc_zombies s) \<rparr>))))"
proof (cases "find_reclaimable ex (\<lambda>p. is_pid_running_on_any_cpu p (kw_cpus s)) (sc_zombies s)")
  case (Some i)
  then show ?thesis using take_at_Some [OF Some]
    by (subst reap_loop.simps) (auto simp: case_prod_beta)
qed (simp add: reap_loop.simps)

text \<open>One turn: the entry leaves the queue and its process the tables.\<close>

lemma reclaim_turn:
  assumes "tables_wf s" and "find_reclaimable ex (\<lambda>p. is_pid_running_on_any_cpu p (kw_cpus s)) (sc_zombies s) = Some i"
  shows "\<exists>p q. p = sc_zombies s ! i \<and> q = take i (sc_zombies s) @ drop (Suc i) (sc_zombies s) \<and>
    snd (recycle_terminated p (s \<lparr> sc_zombies := q \<rparr>)) = reclaim {p} (s \<lparr> sc_zombies := q \<rparr>) \<and>
    tables_wf (reclaim {p} (s \<lparr> sc_zombies := q \<rparr>)) \<and> length q < length (sc_zombies s) \<and>
    p \<in> reclaimable ex s \<and> set (sc_zombies s) = insert p (set q) \<and> p \<notin> set q \<and>
    filter (\<lambda>p. p = ex \<or> is_pid_running_on_any_cpu p (kw_cpus s)) q
      = filter (\<lambda>p. p = ex \<or> is_pid_running_on_any_cpu p (kw_cpus s)) (sc_zombies s)"
proof -
  let ?z = "sc_zombies s"
  let ?p = "?z ! i" and ?q = "take i ?z @ drop (Suc i) ?z"
  have i: "i < length ?z" "?p \<noteq> ex" "\<not> is_pid_running_on_any_cpu ?p (kw_cpus s)" using take_at_Some [OF assms(2)] by auto
  have z: "?z = take i ?z @ ?p # drop (Suc i) ?z" using id_take_nth_drop [OF i(1)] .
  have set: "set ?z = insert ?p (set ?q)" by (subst z) auto
  have "distinct (take i ?z @ ?p # drop (Suc i) ?z)" using assms(1) z by (simp add: tables_wf_def)
  then have dist: "distinct ?q" "?p \<notin> set ?q" by auto
  moreover have "?p \<noteq> 0" using assms(1) nth_mem [OF i(1)] unfolding tables_wf_def by metis
  then have "snd (recycle_terminated ?p (s \<lparr> sc_zombies := ?q \<rparr>)) = reclaim {?p} (s \<lparr> sc_zombies := ?q \<rparr>)"
    using recycle_exact [of "s \<lparr> sc_zombies := ?q \<rparr>" ?p] assms(1) by (simp add: reclaim_def tables_wf_def)
  moreover have "tables_wf (reclaim {?p} (s \<lparr> sc_zombies := ?q \<rparr>))"
    using assms(1) set dist(1) by (auto simp: tables_wf_def reclaim_def drop_distinct)
  moreover have "filter (\<lambda>p. p = ex \<or> is_pid_running_on_any_cpu p (kw_cpus s)) ?q
      = filter (\<lambda>p. p = ex \<or> is_pid_running_on_any_cpu p (kw_cpus s)) ?z" using i by (subst (3) z) simp
  ultimately show ?thesis using i set dist(2) unfolding reclaimable_def by simp
qed

lemma reclaim_reclaim:
  "reclaim P (reclaim Q s) = reclaim (P \<union> Q) s"
  "(reclaim P s) \<lparr> sc_zombies := z \<rparr> = reclaim P (s \<lparr> sc_zombies := z \<rparr>)"
proof -
  let ?A = "set (pids_of (sc_eprocesses s))"
  have "P \<inter> (?A - Q) \<union> Q \<inter> ?A = (P \<union> Q) \<inter> ?A" by blast
  then show "reclaim P (reclaim Q s) = reclaim (P \<union> Q) s" by (simp add: reclaim_def drop_pids)
qed (simp add: reclaim_def)

lemma reclaim_sel [simp]:
  "kw_cpus (reclaim P s) = kw_cpus s" "sc_zombies (reclaim P s) = sc_zombies s"
  by (simp_all add: reclaim_def)

lemma reclaim_none [simp]: "reclaim {} s = s"
  by (simp add: reclaim_def)

lemma reap_loop_exact:
  "tables_wf s \<Longrightarrow> reap_loop ex s = reclaim (reclaimable ex s)
     (s \<lparr> sc_zombies := filter (\<lambda>p. p = ex \<or> is_pid_running_on_any_cpu p (kw_cpus s)) (sc_zombies s) \<rparr>)"
proof (induction "length (sc_zombies s)" arbitrary: s rule: less_induct)
  case less
  let ?run = "\<lambda>p. is_pid_running_on_any_cpu p (kw_cpus s)"
  show ?case
  proof (cases "find_reclaimable ex ?run (sc_zombies s)")
    case None
    then have all: "\<forall>p\<in>set (sc_zombies s). p = ex \<or> ?run p" by (auto simp: find_reclaimable_def position_None_iff)
    then have "reclaimable ex s = {}" "filter (\<lambda>p. p = ex \<or> ?run p) (sc_zombies s) = sc_zombies s"
      by (auto simp: reclaimable_def filter_id_conv)
    then show ?thesis using None by (simp add: reap_loop_turn [of ex s])
  next
    case (Some i)
    obtain p q where t: "p = sc_zombies s ! i" "q = take i (sc_zombies s) @ drop (Suc i) (sc_zombies s)"
        "snd (recycle_terminated p (s \<lparr> sc_zombies := q \<rparr>)) = reclaim {p} (s \<lparr> sc_zombies := q \<rparr>)"
        "tables_wf (reclaim {p} (s \<lparr> sc_zombies := q \<rparr>))" "length q < length (sc_zombies s)"
        "p \<in> reclaimable ex s" "set (sc_zombies s) = insert p (set q)"
        "filter (\<lambda>p. p = ex \<or> ?run p) q = filter (\<lambda>p. p = ex \<or> ?run p) (sc_zombies s)"
      using reclaim_turn [OF less.prems Some] by blast
    let ?s = "reclaim {p} (s \<lparr> sc_zombies := q \<rparr>)"
    have "reclaimable ex ?s \<union> {p} = reclaimable ex s" using t(6,7) by (auto simp: reclaimable_def)
    moreover have "reap_loop ex s = reap_loop ex ?s" using Some t(1,2,3) by (simp add: reap_loop_turn [of ex s])
    moreover have "reap_loop ex ?s = reclaim (reclaimable ex ?s) (?s \<lparr> sc_zombies := filter (\<lambda>p. p = ex \<or> ?run p) q \<rparr>)"
      using less.hyps [of ?s] t(4,5) by simp
    ultimately show ?thesis by (simp add: reclaim_reclaim t(8))
  qed
qed

text \<open>
  C16. Reaping always returns, and reclaims in one call exactly the zombies that no CPU runs, except
  the process whose stack is still in use: those leave the queue, their process slots and their thread
  slots are cleared, the other entries keep their order, and no other process or thread is touched.
\<close>

theorem reap_pending_zombies_exact:
  assumes "tables_wf s"
  shows "reap_pending_zombies exclude_pid s = reclaim (reclaimable exclude_pid s)
    (s \<lparr> sc_zombies := filter (\<lambda>p. p = exclude_pid \<or> is_pid_running_on_any_cpu p (kw_cpus s)) (sc_zombies s) \<rparr>)"
proof (cases "sc_zombies s = []")
  case True
  then show ?thesis by (simp add: reap_pending_zombies_def reclaimable_def)
qed (simp add: reap_pending_zombies_def reap_loop_exact [OF assms])

text \<open>Two CPUs run their idle threads; thread 3 of process 7 is ready and process 8 has ended.\<close>

definition sample_cpus :: Cpus where
  "sample_cpus = \<lparr> kprcbs = [Some (kprcb_new \<lparr> kp_current_thread := Some 1 \<rparr>), Some (kprcb_new \<lparr> kp_current_thread := Some 2 \<rparr>)]
     @ replicate 14 None, runqueue_overflow = 0, ipis = [] \<rparr>"

definition sample_sched :: Sched where
  "sample_sched = \<lparr> kw_threads = [Some ((sample_thread 1 Running 3 0) \<lparr> kt_is_idle := True, kt_pid := 0 \<rparr>),
       Some ((sample_thread 2 Running 3 1) \<lparr> kt_is_idle := True, kt_pid := 0 \<rparr>), Some (sample_thread 3 Ready 2 0), None,
       Some ((sample_thread 4 Terminated 2 1) \<lparr> kt_pid := 8 \<rparr>)],
     kw_cpus = sample_cpus, kw_current_tid = 1, kw_ap_active = True, kw_need_resched = False, kw_deadlines = [],
     sc_eprocesses = [Some (eprocess_new 0 None 0), Some (eprocess_new 7 (Some 1) 1), Some (eprocess_new 8 None 0)], sc_next_pid = 9, sc_next_tid = 5, sc_timer_ticks = 0, sc_schedule_count = 0,
     sc_cpu_count = 2, sc_kernel_handoff = replicate 16 False, sc_zombies = [8],
     sc_preempt_tracking = True, sc_preempt_count = replicate 16 0 \<rparr>"

lemma sample_tables_wf: "tables_wf sample_sched"
  by (simp add: tables_wf_def sample_sched_def sample_thread_def eprocess_new_def tids_of_def pids_of_def)

lemma sample_reclaimable: "reclaimable 0 sample_sched = {8}"
proof -
  have "\<not> is_pid_running_on_any_cpu 8 (kw_cpus sample_sched)" by code_simp
  then show ?thesis by (auto simp: reclaimable_def sample_sched_def)
qed

theorem reap_pending_zombies_exact_witness:
  "tables_wf sample_sched \<and> kw_threads (reap_pending_zombies 0 sample_sched) = (kw_threads sample_sched)[4 := None] \<and>
   sc_zombies (reap_pending_zombies 0 sample_sched) = []"
proof -
  have "filter (\<lambda>p. p = 0 \<or> is_pid_running_on_any_cpu p (kw_cpus sample_sched)) (sc_zombies sample_sched) = []" by code_simp
  moreover have "drop_threads ({8} \<inter> set (pids_of (sc_eprocesses sample_sched))) (kw_threads sample_sched)
      = (kw_threads sample_sched)[4 := None]"
    by (simp add: sample_sched_def drop_threads_def pids_of_def eprocess_new_def sample_thread_def)
  ultimately show ?thesis using reap_pending_zombies_exact [OF sample_tables_wf, of 0] sample_tables_wf
    by (simp add: reclaim_def sample_reclaimable)
qed

lemma running_pids: "finite {p. is_pid_running_on_any_cpu p c}" "card {p. is_pid_running_on_any_cpu p c} \<le> MAX_CPUS"
proof -
  let ?f = "\<lambda>cpu. case kprcb_page cpu c of None \<Rightarrow> 0 | Some kp \<Rightarrow> kp_current_pid kp"
  have sub: "{p. is_pid_running_on_any_cpu p c} \<subseteq> ?f ` {0..<MAX_CPUS}"
    by (force simp: is_pid_running_on_any_cpu_def list_ex_iff image_iff split: option.splits)
  then show "finite {p. is_pid_running_on_any_cpu p c}" by (rule finite_subset) simp
  show "card {p. is_pid_running_on_any_cpu p c} \<le> MAX_CPUS"
    using card_mono [OF _ sub] card_image_le [of "{0..<MAX_CPUS}" ?f] by simp
qed

lemma defer_loop_turn:
  "defer_loop pid s =
    (if length (sc_zombies s) < 128 then s
     else case find_reclaimable pid (\<lambda>p. is_pid_running_on_any_cpu p (kw_cpus s)) (sc_zombies s) of
       None \<Rightarrow> s
     | Some i \<Rightarrow> defer_loop pid (snd (recycle_terminated (sc_zombies s ! i)
         (s \<lparr> sc_zombies := take i (sc_zombies s) @ drop (Suc i) (sc_zombies s) \<rparr>))))"
proof (cases "find_reclaimable pid (\<lambda>p. is_pid_running_on_any_cpu p (kw_cpus s)) (sc_zombies s)")
  case (Some i)
  then show ?thesis using take_at_Some [OF Some]
    by (subst defer_loop.simps) (auto simp: case_prod_beta)
qed (simp add: defer_loop.simps)

lemma defer_loop_spec:
  "tables_wf s \<Longrightarrow> \<exists>P z. defer_loop pid s = reclaim P (s \<lparr> sc_zombies := z \<rparr>) \<and> P \<subseteq> reclaimable pid s \<and>
    set z = set (sc_zombies s) - P \<and> distinct z \<and> length z < 128"
proof (induction "length (sc_zombies s)" arbitrary: s rule: less_induct)
  case less
  let ?run = "\<lambda>p. is_pid_running_on_any_cpu p (kw_cpus s)" and ?z = "sc_zombies s"
  show ?case
  proof (cases "length ?z < 128")
    case True
    then show ?thesis using less.prems by (intro exI [of _ "{}"] exI [of _ ?z]) (simp add: defer_loop_turn [of pid s] tables_wf_def)
  next
    case big: False
    show ?thesis
    proof (cases "find_reclaimable pid ?run ?z")
      case None
      then have "set ?z \<subseteq> insert pid {p. ?run p}" by (auto simp: find_reclaimable_def position_None_iff)
      then have "card (set ?z) \<le> card (insert pid {p. ?run p})" using running_pids(1) by (intro card_mono) auto
      also have "\<dots> \<le> Suc MAX_CPUS" using running_pids [of "kw_cpus s"] card_insert_le_m1 [of "Suc MAX_CPUS" "{p. ?run p}" pid] by simp
      finally show ?thesis using big distinct_card [of ?z] less.prems by (simp add: MAX_CPUS_def tables_wf_def)
    next
      case (Some i)
      obtain p q where t: "p = ?z ! i" "q = take i ?z @ drop (Suc i) ?z"
          "snd (recycle_terminated p (s \<lparr> sc_zombies := q \<rparr>)) = reclaim {p} (s \<lparr> sc_zombies := q \<rparr>)"
          "tables_wf (reclaim {p} (s \<lparr> sc_zombies := q \<rparr>))" "length q < length ?z"
          "p \<in> reclaimable pid s" "set ?z = insert p (set q)" "p \<notin> set q"
        using reclaim_turn [OF less.prems Some] by blast
      let ?s = "reclaim {p} (s \<lparr> sc_zombies := q \<rparr>)"
      obtain P z where ih: "defer_loop pid ?s = reclaim P (?s \<lparr> sc_zombies := z \<rparr>)" "P \<subseteq> reclaimable pid ?s"
          "set z = set q - P" "distinct z" "length z < 128"
        using less.hyps [of ?s] t(4,5) by auto
      have "defer_loop pid s = reclaim (P \<union> {p}) (s \<lparr> sc_zombies := z \<rparr>)"
        using big Some t(1,2,3) ih(1) by (simp add: defer_loop_turn [of pid s] reclaim_reclaim)
      moreover have "P \<union> {p} \<subseteq> reclaimable pid s" using ih(2) t(6,7) by (auto simp: reclaimable_def)
      moreover have "set z = set ?z - (P \<union> {p})" using ih(3) t(7,8) by auto
      ultimately show ?thesis using ih(4,5) by blast
    qed
  qed
qed

lemma defer_reap_spec:
  assumes "tables_wf s" and "pid \<noteq> 0"
  obtains P z where "defer_reap_with_scheduler pid s = reclaim P (s \<lparr> sc_zombies := z \<rparr>)" and "P \<subseteq> set (sc_zombies s) - {pid}"
    and "\<forall>p\<in>P. \<not> is_pid_running_on_any_cpu p (kw_cpus s)" and "set z = insert pid (set (sc_zombies s)) - P"
    and "distinct z" and "length z < 128"
proof -
  let ?s = "s \<lparr> sc_zombies := snd (zq_enqueue pid (sc_zombies s)) \<rparr>"
  have q: "set (sc_zombies ?s) = insert pid (set (sc_zombies s))" using assms(2) by (auto simp: zq_enqueue_def)
  have "tables_wf ?s" using assms by (auto simp: tables_wf_def zq_enqueue_def)
  then obtain P z where d: "defer_loop pid ?s = reclaim P (?s \<lparr> sc_zombies := z \<rparr>)" "P \<subseteq> reclaimable pid ?s"
      "set z = set (sc_zombies ?s) - P" "distinct z" "length z < 128"
    using defer_loop_spec [of ?s pid] by blast
  show ?thesis
    by (rule that [of P z]) (use d q assms(2) in \<open>auto simp: defer_reap_with_scheduler_def reclaimable_def\<close>)
qed

text \<open>
  C17. Queueing a terminated process never lets the queue reach its hard cap of 128: at most one process
  per CPU is running, so the loop always finds enough entries to reclaim and its overflow branch is
  never taken. The process is queued once, no entry that is still running is lost, and no thread of a
  running process is removed.
\<close>

theorem defer_reap_bounded:
  assumes "tables_wf s" and "pid \<noteq> 0"
  shows "length (sc_zombies (defer_reap_with_scheduler pid s)) < 128 \<and> pid \<in> set (sc_zombies (defer_reap_with_scheduler pid s)) \<and>
    tables_wf (defer_reap_with_scheduler pid s) \<and>
    (\<forall>p\<in>set (sc_zombies s). is_pid_running_on_any_cpu p (kw_cpus s) \<longrightarrow> p \<in> set (sc_zombies (defer_reap_with_scheduler pid s))) \<and>
    (\<forall>k. Some k \<in> set (kw_threads s) \<longrightarrow> is_pid_running_on_any_cpu (kt_pid k) (kw_cpus s) \<longrightarrow>
      Some k \<in> set (kw_threads (defer_reap_with_scheduler pid s)))"
proof -
  obtain P z where d: "defer_reap_with_scheduler pid s = reclaim P (s \<lparr> sc_zombies := z \<rparr>)" "P \<subseteq> set (sc_zombies s) - {pid}"
      "\<forall>p\<in>P. \<not> is_pid_running_on_any_cpu p (kw_cpus s)" "set z = insert pid (set (sc_zombies s)) - P" "distinct z" "length z < 128"
    using defer_reap_spec [OF assms] .
  then have "tables_wf (reclaim P (s \<lparr> sc_zombies := z \<rparr>))" using assms by (auto simp: tables_wf_def reclaim_def drop_distinct)
  then show ?thesis using d by (auto simp: reclaim_def drop_mem)
qed

theorem defer_reap_bounded_witness:
  "tables_wf sample_sched \<and> (7 :: u32) \<noteq> 0 \<and> 7 \<in> set (sc_zombies (defer_reap_with_scheduler 7 sample_sched))"
  using defer_reap_bounded [OF sample_tables_wf, of 7] sample_tables_wf by simp

end
