(* ===== verification/Scheduler.thy ===== *)
theory Scheduler
  imports WorkSteal Lifecycle
begin

text \<open>
  The dispatcher (scheduler/schedule.rs): which thread a CPU runs next, the commit of that decision to
  the thread, the per-CPU page and the run queues, CPU time accounting (scheduler/accounting.rs) and
  the timer tick that ends a time slice.

  \<open>mem\<close> is the memory that holds the saved frames; \<open>None\<close> is a panic. The executing CPU is \<open>me\<close>. The
  unit-test mode of the scheduler, tracing and the post-commit diagnostics are left out.
\<close>

unbundle bit_operations_syntax

section \<open>Preemption count\<close>

definition preempt_disable :: "nat \<Rightarrow> 'z Sched_scheme \<Rightarrow> 'z Sched_scheme" where
  "preempt_disable me s = (if \<not> sc_preempt_tracking s then s
     else if me < length (sc_preempt_count s)
     then s \<lparr> sc_preempt_count := (sc_preempt_count s)[me := sc_preempt_count s ! me + 1] \<rparr> else s)"

definition preempt_enable :: "nat \<Rightarrow> 'z Sched_scheme \<Rightarrow> 'z Sched_scheme" where
  "preempt_enable me s = (if \<not> sc_preempt_tracking s then s
     else if me < length (sc_preempt_count s)
     then s \<lparr> sc_preempt_count := (sc_preempt_count s)[me := sc_preempt_count s ! me - 1] \<rparr> else s)"

definition preempt_disabled :: "nat \<Rightarrow> 'z Sched_scheme \<Rightarrow> bool" where
  "preempt_disabled me s = (if \<not> sc_preempt_tracking s then False
     else me < length (sc_preempt_count s) \<and> sc_preempt_count s ! me > 0)"

section \<open>The current thread\<close>

definition kprcb_thread_in_self :: "nat \<Rightarrow> 'z KWaitState_scheme \<Rightarrow> bool" where
  "kprcb_thread_in_self me s = (case kprcb_page me (kw_cpus s) of
      None \<Rightarrow> False
    | Some kp \<Rightarrow> (case kp_current_thread kp of None \<Rightarrow> False | Some tid \<Rightarrow> find_kthread tid (kw_threads s) \<noteq> None))"

definition try_per_cpu_tid :: "nat \<Rightarrow> Cpus \<Rightarrow> u32 option" where
  "try_per_cpu_tid me c = (case kprcb_page me c of None \<Rightarrow> None | Some kp \<Rightarrow> kp_current_thread kp)"

definition effective_tid :: "nat \<Rightarrow> 'z KWaitState_scheme \<Rightarrow> u32" where
  "effective_tid me s = (if kprcb_thread_in_self me s
     then (case try_per_cpu_tid me (kw_cpus s) of Some tid \<Rightarrow> tid | None \<Rightarrow> kw_current_tid s)
     else kw_current_tid s)"

definition sync_per_cpu_current :: "nat \<Rightarrow> Kthread \<Rightarrow> u32 \<Rightarrow> Cpus \<Rightarrow> Cpus" where
  "sync_per_cpu_current me k pid c = (case kprcb_page me c of
      None \<Rightarrow> c
    | Some kp \<Rightarrow> c \<lparr> kprcbs := (kprcbs c)[me := Some (kp \<lparr> kp_current_thread := Some (kt_tid k),
        kp_current_pid := pid, kp_idle := (pid = 0 \<or> kt_is_idle k) \<rparr>)] \<rparr>)"

section \<open>CPU time\<close>

abbreviation (input) CPU_TIME_UNSET :: u64 where "CPU_TIME_UNSET \<equiv> 0xFFFFFFFFFFFFFFFF"
abbreviation (input) IDLE_TIME_SLICE :: u16 where "IDLE_TIME_SLICE \<equiv> 10"

definition per_cpu_tick_base :: "nat \<Rightarrow> 'z Sched_scheme \<Rightarrow> u64 option" where
  "per_cpu_tick_base me s = (if sc_cpu_count s = 0 then None else map_option kp_timer_tick_count (kprcb_page me (kw_cpus s)))"

definition mark_dispatch :: "u64 option \<Rightarrow> Kthread \<Rightarrow> Kthread" where
  "mark_dispatch base k = k \<lparr> kt_cpu_time_base := (case base of Some b \<Rightarrow> b | None \<Rightarrow> CPU_TIME_UNSET) \<rparr>"

definition account_tick :: "u64 option \<Rightarrow> Kthread \<Rightarrow> Kthread" where
  "account_tick base k = (case base of
      None \<Rightarrow> k
    | Some b \<Rightarrow>
        if kt_cpu_time_base k = CPU_TIME_UNSET then k \<lparr> kt_cpu_time_base := b \<rparr>
        else let elapsed = saturating_sub b (kt_cpu_time_base k) in
          if elapsed = 0 then k
          else k \<lparr> kt_cpu_time := saturating_add (kt_cpu_time k) elapsed, kt_cpu_time_base := b \<rparr>)"

definition account_dispatch :: "u64 option \<Rightarrow> Kthread \<Rightarrow> Kthread" where
  "account_dispatch base k =
    (let k1 = k \<lparr> kt_ticks_since_scheduled := 0,
                 kt_priority := (if kt_priority k < kt_base_priority k then kt_base_priority k else kt_priority k) \<rparr>
     in if kt_is_idle k1 \<or> kt_state k1 = Terminated then k1 \<lparr> kt_cpu_time_base := CPU_TIME_UNSET \<rparr>
        else mark_dispatch base (k1 \<lparr> kt_time_slice_remaining := time_slice_of (kt_priority k1) \<rparr>))"

text \<open>The counter of a thread now, \<open>owner\<close> being the CPU it runs on.\<close>

definition cpu_time_now :: "Kthread \<Rightarrow> nat option \<Rightarrow> Cpus \<Rightarrow> u64" where
  "cpu_time_now k owner c = (case owner of
      None \<Rightarrow> kt_cpu_time k
    | Some cpu \<Rightarrow> if kt_cpu_time_base k = CPU_TIME_UNSET then kt_cpu_time k
        else case kprcb_page cpu c of
          Some kp \<Rightarrow> saturating_add (kt_cpu_time k) (saturating_sub (kp_timer_tick_count kp) (kt_cpu_time_base k))
        | None \<Rightarrow> kt_cpu_time k)"

section \<open>Candidates\<close>

definition frame_is_ring3 :: "(u64 \<Rightarrow> u64) \<Rightarrow> Kthread \<Rightarrow> bool" where
  "frame_is_ring3 mem k = (if kt_rsp k < 0x1000 then False else mem (kt_rsp k + 128) AND 3 = 3)"

abbreviation (input) dispatchable :: "(u64 \<Rightarrow> u64) \<Rightarrow> bool \<Rightarrow> Kthread \<Rightarrow> bool" where
  "dispatchable mem require_ring3 k \<equiv> \<not> require_ring3 \<or> kt_is_kernel k \<or> frame_is_ring3 mem k"

definition is_kernel_thread :: "Eprocess option list \<Rightarrow> Kthread \<Rightarrow> bool" where
  "is_kernel_thread eps k = (if kt_is_kernel k \<or> kt_pid k = 0 \<or> kt_is_idle k then True
     else case find_eprocess (kt_pid k) eps of Some ep \<Rightarrow> ep_user_slot ep = None | None \<Rightarrow> True)"

definition kernel_thread_starved :: "nat \<Rightarrow> 'z Sched_scheme \<Rightarrow> bool" where
  "kernel_thread_starved cpu s = list_ex (\<lambda>t. case t of None \<Rightarrow> False
     | Some k \<Rightarrow> \<not> kt_is_idle k \<and> kt_state k = Ready \<and> unat (kt_cpu k) = cpu \<and>
         kt_ticks_since_scheduled k \<ge> MAX_STARVATION_TICKS \<and> is_kernel_thread (sc_eprocesses s) k) (kw_threads s)"

definition highest_ready_priority :: "Cpus \<Rightarrow> u8" where
  "highest_ready_priority c = foldl (\<lambda>p cpu.
     let bitmap = read_active_bitmap cpu c in
     if bitmap \<noteq> 0 then (let lowest_bit = of_nat (trailing_zeros bitmap) in if lowest_bit < p then lowest_bit else p)
     else p) PRIORITY_COUNT [0..<MAX_CPUS]"

definition set_kernel_handoff :: "nat \<Rightarrow> 'z Sched_scheme \<Rightarrow> 'z Sched_scheme" where
  "set_kernel_handoff cpu s = (if cpu < MAX_CPUS then s \<lparr> sc_kernel_handoff := (sc_kernel_handoff s)[cpu := True] \<rparr> else s)"

definition take_kernel_handoff :: "nat \<Rightarrow> 'z Sched_scheme \<Rightarrow> bool \<times> 'z Sched_scheme" where
  "take_kernel_handoff cpu s = (if cpu < MAX_CPUS
     then (sc_kernel_handoff s ! cpu, s \<lparr> sc_kernel_handoff := (sc_kernel_handoff s)[cpu := False] \<rparr>) else (False, s))"

definition accept_non_ring3_dispatch :: "bool \<Rightarrow> Kthread option \<Rightarrow> bool" where
  "accept_non_ring3_dispatch handoff next_thread = (if handoff then True
     else case next_thread of None \<Rightarrow> False | Some k \<Rightarrow> kt_is_kernel k \<and> \<not> kt_is_idle k)"

section \<open>Selection and commit\<close>

text \<open>The identity of the chosen thread becomes the current one of the scheduler and of the CPU.\<close>

definition commit_current :: "nat \<Rightarrow> Kthread \<Rightarrow> 'z KWaitState_scheme \<Rightarrow> 'z KWaitState_scheme" where
  "commit_current me k s = (let s1 = s \<lparr> kw_current_tid := kt_tid k \<rparr> in
     if kprcb_thread_in_self me s1 then s1 \<lparr> kw_cpus := sync_per_cpu_current me k (kt_pid k) (kw_cpus s1) \<rparr> else s1)"

text \<open>Reaping must spare the process switched away from: its kernel stack is still in use.\<close>

definition reap_previous :: "u32 \<Rightarrow> 'z Sched_scheme \<Rightarrow> 'z Sched_scheme" where
  "reap_previous prev s =
    reap_pending_zombies (case find_kthread prev (kw_threads s) of Some t \<Rightarrow> kt_pid t | None \<Rightarrow> 0) s"

definition dispatch_idle :: "nat \<Rightarrow> 'z Sched_scheme \<Rightarrow> (u32 \<times> 'z Sched_scheme) option" where
  "dispatch_idle me s = (case find_idle_ptr me (kw_threads s) of
      None \<Rightarrow> None
    | Some idle_tid \<Rightarrow> (case find_kthread idle_tid (kw_threads s) of
        None \<Rightarrow> None
      | Some idle \<Rightarrow>
          if kt_state idle = Terminated then None
          else let s1 = s \<lparr> kw_cpus := remove_from_run_queue idle (kw_cpus s) \<rparr>;
                   prev = effective_tid me s1;
                   s2 = commit_current me idle s1;
                   s3 = s2 \<lparr> kw_threads := modify_kthread idle_tid (\<lambda>k. k \<lparr> kt_state := Running,
                          kt_time_slice_remaining := IDLE_TIME_SLICE \<rparr>) (kw_threads s2) \<rparr>
               in Some (idle_tid, reap_previous prev s3)))"

text \<open>
  What the dispatcher does with a thread it took from a run queue: commit it, or put it back. The code
  has this block twice, after the local queue and after work stealing.
\<close>

definition try_candidate :: "(u64 \<Rightarrow> u64) \<Rightarrow> nat \<Rightarrow> bool \<Rightarrow> u32 \<Rightarrow> 'z Sched_scheme \<Rightarrow> u32 option \<times> 'z Sched_scheme" where
  "try_candidate mem me require_ring3 tid s = (case find_kthread tid (kw_threads s) of
      None \<Rightarrow> (None, s)
    | Some k \<Rightarrow>
        if kt_state k = Ready \<and> dispatchable mem require_ring3 k \<and> \<not> candidate_owned_elsewhere tid me (kw_cpus s) \<and>
           kt_priority k \<le> highest_ready_priority (kw_cpus s)
        then let prev = effective_tid me s;
                 s1 = commit_current me k s;
                 s2 = s1 \<lparr> kw_threads := modify_kthread tid
                        (\<lambda>k. account_dispatch (per_cpu_tick_base me s1) (k \<lparr> kt_state := Running \<rparr>)) (kw_threads s1) \<rparr>
             in (Some tid, reap_previous prev s2)
        else if kt_state k = Ready then (None, s \<lparr> kw_cpus := enqueue_to_cpu_run_queue me k (kw_cpus s) \<rparr>)
        else (None, s))"

definition scan_ok :: "(u64 \<Rightarrow> u64) \<Rightarrow> nat \<Rightarrow> bool \<Rightarrow> Cpus \<Rightarrow> u8 \<Rightarrow> u32 \<Rightarrow> Kthread \<Rightarrow> bool" where
  "scan_ok mem me require_ring3 c priority check_tid k \<longleftrightarrow>
     kt_tid k = check_tid \<and> kt_state k = Ready \<and> kt_priority k = priority \<and> dispatchable mem require_ring3 k \<and>
     \<not> kt_is_idle k \<and> \<not> (kt_tid k = BOOT_TID \<and> me \<noteq> 0) \<and> \<not> candidate_owned_elsewhere (kt_tid k) me c"

fun first_some :: "('a \<Rightarrow> 'b option) \<Rightarrow> 'a list \<Rightarrow> 'b option" where
  "first_some f [] = None"
| "first_some f (x # xs) = (case f x of Some y \<Rightarrow> Some y | None \<Rightarrow> first_some f xs)"

text \<open>The scan by priority, then by tid starting after the current one, then by slot.\<close>

definition scan_order :: "u32 \<Rightarrow> u32 \<Rightarrow> (u8 \<times> u32) list" where
  "scan_order start next_tid = concat (map (\<lambda>priority. map (\<lambda>offset. (priority, (start + of_nat offset) mod max next_tid 1))
     [0..<unat next_tid]) [0, 1, 2, 3])"

definition scan_pick :: "(u64 \<Rightarrow> u64) \<Rightarrow> nat \<Rightarrow> bool \<Rightarrow> 'z Sched_scheme \<Rightarrow> nat option" where
  "scan_pick mem me require_ring3 s =
    (let start = (effective_tid me s + 1) mod max (sc_next_tid s) 1
     in first_some (\<lambda>(priority, check_tid).
          position (\<lambda>t. case t of None \<Rightarrow> False | Some k \<Rightarrow> scan_ok mem me require_ring3 (kw_cpus s) priority check_tid k) (kw_threads s))
        (scan_order start (sc_next_tid s)))"

definition dispatch_scanned :: "nat \<Rightarrow> nat \<Rightarrow> Kthread \<Rightarrow> 'z Sched_scheme \<Rightarrow> u32 \<times> 'z Sched_scheme" where
  "dispatch_scanned me i k s =
    (let prev = effective_tid me s;
         s1 = s \<lparr> kw_cpus := remove_from_run_queue k (kw_cpus s) \<rparr>;
         k1 = (if kprcb_thread_in_self me s then k \<lparr> kt_cpu := of_nat me \<rparr> else k);
         k2 = account_dispatch (per_cpu_tick_base me s1) (k1 \<lparr> kt_state := Running \<rparr>);
         s2 = commit_current me k2 (s1 \<lparr> kw_threads := (kw_threads s1)[i := Some k2] \<rparr>)
     in (kt_tid k, reap_previous prev s2))"

text \<open>The third attempt and the idle thread; then the second attempt, followed by the rest.\<close>

definition scan_or_idle :: "(u64 \<Rightarrow> u64) \<Rightarrow> nat \<Rightarrow> bool \<Rightarrow> 'z Sched_scheme \<Rightarrow> (u32 \<times> 'z Sched_scheme) option" where
  "scan_or_idle mem me require_ring3 s = (case scan_pick mem me require_ring3 s of
      Some i \<Rightarrow> (case kw_threads s ! i of Some k \<Rightarrow> Some (dispatch_scanned me i k s) | None \<Rightarrow> None)
    | None \<Rightarrow> dispatch_idle me s)"

definition steal_or_scan :: "(u64 \<Rightarrow> u64) \<Rightarrow> nat \<Rightarrow> bool \<Rightarrow> 'z Sched_scheme \<Rightarrow> (u32 \<times> 'z Sched_scheme) option" where
  "steal_or_scan mem me require_ring3 s = (case try_work_steal me (kw_threads s) (kw_cpus s) of
      None \<Rightarrow> None
    | Some (stolen, ts, c) \<Rightarrow>
        (let s1 = s \<lparr> kw_threads := ts, kw_cpus := c \<rparr> in
         case (case stolen of None \<Rightarrow> (None, s1) | Some tid \<Rightarrow> try_candidate mem me require_ring3 tid s1) of
           (Some tid, s2) \<Rightarrow> Some (tid, s2)
         | (None, s2) \<Rightarrow> scan_or_idle mem me require_ring3 s2))"

definition schedule_with_handoff ::
  "(u64 \<Rightarrow> u64) \<Rightarrow> nat \<Rightarrow> bool \<Rightarrow> bool \<Rightarrow> 'z Sched_scheme \<Rightarrow> (u32 \<times> 'z Sched_scheme) option" where
  "schedule_with_handoff mem me require_ring3 allow_handoff s0 =
    (let s = s0 \<lparr> sc_schedule_count := sc_schedule_count s0 + 1 \<rparr> in
     case (if require_ring3 \<and> allow_handoff \<and> kernel_thread_starved me s then dispatch_idle me s else None) of
       Some (tid, s1) \<Rightarrow> Some (tid, set_kernel_handoff me s1)
     | None \<Rightarrow>
         (let (local, c) = try_dequeue_local me (kw_cpus s); s1 = s \<lparr> kw_cpus := c \<rparr> in
          case (case local of None \<Rightarrow> (None, s1) | Some tid \<Rightarrow> try_candidate mem me require_ring3 tid s1) of
            (Some tid, s2) \<Rightarrow> Some (tid, s2)
          | (None, s2) \<Rightarrow> steal_or_scan mem me require_ring3 s2))"

definition schedule :: "(u64 \<Rightarrow> u64) \<Rightarrow> nat \<Rightarrow> 'z Sched_scheme \<Rightarrow> (u32 \<times> 'z Sched_scheme) option" where
  "schedule mem me s = schedule_with_handoff mem me False False s"

section \<open>Timer ticks\<close>

definition rsp_in_kernel_stack :: "u64 \<Rightarrow> u64 \<Rightarrow> u64 \<Rightarrow> bool" where
  "rsp_in_kernel_stack ks_top stack_size rsp = (if ks_top = 0 \<or> stack_size = 0 then True
     else saturating_sub ks_top stack_size \<le> rsp \<and> rsp < ks_top)"

definition save_live_rsp_checked :: "u64 \<Rightarrow> Kthread \<Rightarrow> Kthread" where
  "save_live_rsp_checked rsp k =
    (if kt_tid k = BOOT_TID \<or> rsp_in_kernel_stack (kt_kernel_stack_top k) (kt_kernel_stack_size k) rsp
     then k \<lparr> kt_rsp := rsp \<rparr> else k)"

text \<open>The running thread at a tick: accounting and the rest of its slice.\<close>

definition tick_running :: "u64 option \<Rightarrow> Kthread \<Rightarrow> Kthread" where
  "tick_running base k =
    (let k1 = k \<lparr> kt_cpu_ticks := kt_cpu_ticks k + 1 \<rparr>;
         k2 = (if kt_is_idle k1 then k1 else account_tick base k1)
     in if kt_time_slice_remaining k2 > 0 then k2 \<lparr> kt_time_slice_remaining := kt_time_slice_remaining k2 - 1 \<rparr> else k2)"

definition tick_aging :: "nat \<Rightarrow> 'z Sched_scheme \<Rightarrow> 'z Sched_scheme" where
  "tick_aging me s0 =
    (let s = s0 \<lparr> sc_timer_ticks := sc_timer_ticks s0 + 1 \<rparr> in
     if sc_timer_ticks s mod AGING_INTERVAL_TICKS = 0
     then (let (ts, c) = apply_aging me (kw_threads s) (kw_cpus s) in s \<lparr> kw_threads := ts, kw_cpus := c \<rparr>) else s)"

text \<open>
  The end of a slice: the frame is saved and the thread re-homed. It is published as Ready unless
  preemption is off or a user thread was interrupted inside a system call; then it gets a fresh slice.
\<close>

definition slice_expired :: "nat \<Rightarrow> u64 \<Rightarrow> bool \<Rightarrow> Kthread \<Rightarrow> 'z Sched_scheme \<Rightarrow> 'z Sched_scheme" where
  "slice_expired me current_rsp expose_to_ring3 k s =
    (let k1 = k \<lparr> kt_yield_requested := False \<rparr>;
         k2 = (if kprcb_thread_in_self me s then save_live_rsp_checked current_rsp k1 else k1 \<lparr> kt_rsp := current_rsp \<rparr>);
         k3 = k2 \<lparr> kt_cpu := of_nat me \<rparr>
     in if preempt_disabled me s \<or> \<not> expose_to_ring3
        then s \<lparr> kw_threads := modify_kthread (kt_tid k)
               (\<lambda>_. k3 \<lparr> kt_time_slice_remaining := time_slice_of (kt_priority k3) \<rparr>) (kw_threads s) \<rparr>
        else let k4 = k3 \<lparr> kt_state := Ready \<rparr> in
          s \<lparr> kw_threads := modify_kthread (kt_tid k) (\<lambda>_. k4) (kw_threads s),
              kw_cpus := (if kt_tid k4 \<noteq> BOOT_TID \<and> \<not> kt_is_idle k4 then enqueue_to_cpu_run_queue me k4 (kw_cpus s) else kw_cpus s),
              kw_need_resched := True \<rparr>)"

definition on_timer_tick :: "nat \<Rightarrow> u64 \<Rightarrow> u64 \<Rightarrow> 'z Sched_scheme \<Rightarrow> 'z Sched_scheme option" where
  "on_timer_tick me current_rsp interrupted_cs s0 =
    (let s = tick_aging me s0;
         current_is_kernel_thread = (case find_kthread (effective_tid me s) (kw_threads s) of
           Some k \<Rightarrow> is_kernel_thread (sc_eprocesses s) k | None \<Rightarrow> True)
     in case current_tid_checked me s of
          None \<Rightarrow> None
        | Some tid \<Rightarrow> (case find_kthread tid (kw_threads s) of
            None \<Rightarrow> Some s
          | Some k \<Rightarrow>
              if kt_state k \<noteq> Running then Some s
              else let k1 = tick_running (per_cpu_tick_base me s) k in
                if kt_time_slice_remaining k1 \<noteq> 0 then Some (s \<lparr> kw_threads := modify_kthread tid (\<lambda>_. k1) (kw_threads s) \<rparr>)
                else Some (slice_expired me current_rsp (interrupted_cs AND 3 = 3 \<or> current_is_kernel_thread) k1 s)))"

section \<open>The invariant of the dispatcher\<close>

text \<open>What the other CPUs see of a CPU: its current thread and process.\<close>

definition cpu_view :: "nat \<Rightarrow> Cpus \<Rightarrow> (u32 option \<times> u32) option" where
  "cpu_view i c = map_option (\<lambda>kp. (kp_current_thread kp, kp_current_pid kp)) (kprcb_page i c)"

text \<open>
  No thread is current on two CPUs; a current thread is in the table and the page names its process;
  an idle thread is current only on its own CPU; every CPU in use has an idle thread, and the idle
  threads belong to process 0 and never end; the threads of a process that waits to be reaped have all ended.
\<close>

definition exclusive :: "Cpus \<Rightarrow> bool" where
  "exclusive c \<longleftrightarrow> (\<forall>i j t. try_per_cpu_tid i c = Some t \<longrightarrow> try_per_cpu_tid j c = Some t \<longrightarrow> i = j)"

definition pages_ok :: "Kthread option list \<Rightarrow> Cpus \<Rightarrow> bool" where
  "pages_ok ts c \<longleftrightarrow> (\<forall>i t pid. cpu_view i c = Some (Some t, pid) \<longrightarrow> (\<exists>k. Some k \<in> set ts \<and> kt_tid k = t \<and> kt_pid k = pid))"

definition idle_ok :: "Kthread option list \<Rightarrow> Cpus \<Rightarrow> bool" where
  "idle_ok ts c \<longleftrightarrow>
     (\<forall>i k. Some k \<in> set ts \<longrightarrow> kt_is_idle k \<longrightarrow> try_per_cpu_tid i c = Some (kt_tid k) \<longrightarrow> unat (kt_cpu k) = i) \<and>
     (\<forall>i. try_per_cpu_tid i c \<noteq> None \<longrightarrow> (\<exists>k. Some k \<in> set ts \<and> kt_is_idle k \<and> unat (kt_cpu k) = i)) \<and>
     (\<forall>k. Some k \<in> set ts \<longrightarrow> kt_is_idle k \<longrightarrow> kt_state k \<noteq> Terminated \<and> kt_pid k = 0)"

definition zombies_dead :: "Kthread option list \<Rightarrow> u32 list \<Rightarrow> bool" where
  "zombies_dead ts q \<longleftrightarrow> (\<forall>k. Some k \<in> set ts \<longrightarrow> kt_pid k \<in> set q \<longrightarrow> kt_state k = Terminated)"

text \<open>A process counts its threads that have not ended; a kernel process counts none for its only one.\<close>

definition live_tids :: "u32 \<Rightarrow> Kthread option list \<Rightarrow> u32 set" where
  "live_tids pid ts = {t. \<exists>k. Some k \<in> set ts \<and> kt_tid k = t \<and> kt_pid k = pid \<and> kt_state k \<noteq> Terminated}"

definition counts_ok :: "Kthread option list \<Rightarrow> Eprocess option list \<Rightarrow> bool" where
  "counts_ok ts eps \<longleftrightarrow> (\<forall>ep. Some ep \<in> set eps \<longrightarrow> ep_pid ep \<noteq> 0 \<longrightarrow>
     card (live_tids (ep_pid ep) ts) \<le> max 1 (unat (ep_thread_count ep)))"

text \<open>A process with a user slot counts a thread and does not wait to be reaped.\<close>

definition slots_ok :: "Eprocess option list \<Rightarrow> u32 list \<Rightarrow> bool" where
  "slots_ok eps q \<longleftrightarrow> (\<forall>ep. Some ep \<in> set eps \<longrightarrow> ep_user_slot ep \<noteq> None \<longrightarrow> ep_thread_count ep \<noteq> 0 \<and> ep_pid ep \<notin> set q)"

definition sched_inv :: "'z Sched_scheme \<Rightarrow> bool" where
  "sched_inv s \<longleftrightarrow> queues_consistent (kw_threads s) (kw_cpus s) \<and> tables_wf s \<and> exclusive (kw_cpus s) \<and>
     pages_ok (kw_threads s) (kw_cpus s) \<and> idle_ok (kw_threads s) (kw_cpus s) \<and> zombies_dead (kw_threads s) (sc_zombies s) \<and>
     counts_ok (kw_threads s) (sc_eprocesses s) \<and> slots_ok (sc_eprocesses s) (sc_zombies s)"

definition ready_cpu :: "nat \<Rightarrow> 'z Sched_scheme \<Rightarrow> bool" where
  "ready_cpu me s \<longleftrightarrow> sched_inv s \<and> try_per_cpu_tid me (kw_cpus s) \<noteq> None"

definition same_others :: "nat \<Rightarrow> Cpus \<Rightarrow> Cpus \<Rightarrow> bool" where
  "same_others me c c' \<longleftrightarrow> (\<forall>i. i \<noteq> me \<longrightarrow> try_per_cpu_tid i c' = try_per_cpu_tid i c)"

definition dispatched :: "nat \<Rightarrow> 'z Sched_scheme \<Rightarrow> u32 \<Rightarrow> 'z Sched_scheme \<Rightarrow> bool" where
  "dispatched me s t s' \<longleftrightarrow> sched_inv s' \<and> try_per_cpu_tid me (kw_cpus s') = Some t \<and>
     (\<exists>k. find_kthread t (kw_threads s') = Some k \<and> kt_state k = Running) \<and> same_others me (kw_cpus s) (kw_cpus s') \<and>
     (\<forall>u. try_per_cpu_tid me (kw_cpus s) = Some u \<longrightarrow> find_kthread u (kw_threads s') \<noteq> None)"

lemma cpu_view_tid: "try_per_cpu_tid i c = (case cpu_view i c of None \<Rightarrow> None | Some v \<Rightarrow> fst v)"
  by (simp add: try_per_cpu_tid_def cpu_view_def split: option.splits)

lemma same_current_view: "same_current c c' \<Longrightarrow> cpu_view i c' = cpu_view i c"
proof -
  assume "same_current c c'"
  then have eq: "map_option (\<lambda>kp. kp \<lparr> kp_run_queue := rq_new \<rparr>) (kprcb_page i c')
     = map_option (\<lambda>kp. kp \<lparr> kp_run_queue := rq_new \<rparr>) (kprcb_page i c)" by (simp add: same_current_def)
  have "cpu_view i c = map_option (\<lambda>kp. (kp_current_thread kp, kp_current_pid kp)) (map_option (\<lambda>kp. kp \<lparr> kp_run_queue := rq_new \<rparr>) (kprcb_page i c))"
    for c by (simp add: cpu_view_def option.map_comp comp_def)
  then show ?thesis using eq by simp
qed

lemma same_current_tid: "same_current c c' \<Longrightarrow> try_per_cpu_tid i c' = try_per_cpu_tid i c"
  by (simp add: cpu_view_tid same_current_view)

lemma kprcb_in_self_iff:
  "kprcb_thread_in_self me s \<longleftrightarrow> (\<exists>t. try_per_cpu_tid me (kw_cpus s) = Some t \<and> find_kthread t (kw_threads s) \<noteq> None)"
  by (auto simp: kprcb_thread_in_self_def try_per_cpu_tid_def split: option.splits)

lemma homeless_sel [simp]:
  "kt_tid (homeless k) = kt_tid k" "kt_pid (homeless k) = kt_pid k" "kt_state (homeless k) = kt_state k"
  "kt_is_idle (homeless k) = kt_is_idle k"
  by (simp_all add: homeless_def)

lemma homeless_eqD:
  assumes "homeless k0 = homeless k"
  shows "kt_tid k0 = kt_tid k" and "kt_pid k0 = kt_pid k" and "kt_state k0 = kt_state k" and "kt_is_idle k0 = kt_is_idle k"
    and "kt_is_idle k \<Longrightarrow> k0 = k"
proof -
  show "kt_tid k0 = kt_tid k" "kt_pid k0 = kt_pid k" "kt_state k0 = kt_state k" and idle: "kt_is_idle k0 = kt_is_idle k"
    using arg_cong [OF assms, of kt_tid] arg_cong [OF assms, of kt_pid] arg_cong [OF assms, of kt_state]
      arg_cong [OF assms, of kt_is_idle] by simp_all
  show "kt_is_idle k \<Longrightarrow> k0 = k" using assms idle by (simp add: homeless_def)
qed

text \<open>Changes of threads that leave their identity, their end, and the CPU of an idle thread alone.\<close>

definition stays :: "Kthread \<Rightarrow> Kthread \<Rightarrow> bool" where
  "stays k k' \<longleftrightarrow> kt_tid k' = kt_tid k \<and> kt_pid k' = kt_pid k \<and> kt_is_idle k' = kt_is_idle k \<and>
     (kt_is_idle k \<longrightarrow> kt_cpu k' = kt_cpu k) \<and> (kt_state k' = Terminated \<longleftrightarrow> kt_state k = Terminated)"

definition threads_stay :: "Kthread option list \<Rightarrow> Kthread option list \<Rightarrow> bool" where
  "threads_stay ts ts' \<longleftrightarrow> (\<forall>k'. Some k' \<in> set ts' \<longrightarrow> (\<exists>k. Some k \<in> set ts \<and> stays k k')) \<and>
     (\<forall>k. Some k \<in> set ts \<longrightarrow> (\<exists>k'. Some k' \<in> set ts' \<and> stays k k'))"

lemma stays_refl [simp]: "stays k k"
  by (simp add: stays_def)

lemma threads_stay_refl [simp]: "threads_stay ts ts"
  unfolding threads_stay_def using stays_refl by blast

lemma threads_stay_all2:
  assumes "list_all2 (rel_option stays) ts ts'"
  shows "threads_stay ts ts'"
  unfolding threads_stay_def
proof (intro conjI allI impI)
  fix k' assume "Some k' \<in> set ts'"
  then obtain i where i: "i < length ts'" "ts' ! i = Some k'" by (auto simp: in_set_conv_nth)
  then have "rel_option stays (ts ! i) (Some k')" using list_all2_nthD2 [OF assms i(1)] by simp
  then obtain k where "ts ! i = Some k" "stays k k'" by (cases "ts ! i") auto
  then show "\<exists>k. Some k \<in> set ts \<and> stays k k'" using i(1) list_all2_lengthD [OF assms] nth_mem by metis
next
  fix k assume "Some k \<in> set ts"
  then obtain i where i: "i < length ts" "ts ! i = Some k" by (auto simp: in_set_conv_nth)
  then have "rel_option stays (Some k) (ts' ! i)" using list_all2_nthD [OF assms i(1)] by simp
  then obtain k' where "ts' ! i = Some k'" "stays k k'" by (cases "ts' ! i") auto
  then show "\<exists>k'. Some k' \<in> set ts' \<and> stays k k'" using i(1) list_all2_lengthD [OF assms] nth_mem by metis
qed

lemma threads_stay_modify:
  assumes "find_kthread t ts = Some k" and "stays k k'"
  shows "threads_stay ts (modify_kthread t (\<lambda>_. k') ts)"
proof -
  obtain i where i: "i < length ts" "ts ! i = Some k" "modify_kthread t (\<lambda>_. k') ts = ts[i := Some k']"
    using modify_kthread_eq [OF assms(1)] by metis
  then show ?thesis using assms(2) unfolding i(3)
    by (intro threads_stay_all2) (auto simp: list_all2_conv_all_nth nth_list_update option.rel_refl)
qed

lemma threads_stay_migrated:
  assumes "migrated ts ts'"
  shows "threads_stay ts ts'"
proof (intro threads_stay_all2)
  have "list_all2 (=) (map (map_option homeless) ts) (map (map_option homeless) ts')"
    using assms unfolding migrated_def by (metis list.rel_eq)
  then have "list_all2 (\<lambda>a b. map_option homeless a = map_option homeless b) ts ts'" by (simp add: list_all2_map1 list_all2_map2)
  then show "list_all2 (rel_option stays) ts ts'"
  proof (rule list_all2_mono)
    fix a b assume eq: "map_option homeless a = map_option homeless b"
    have "stays k k'" if "homeless k = homeless k'" for k k'
      using that homeless_eqD [OF that] by (auto simp: stays_def)
    then show "rel_option stays a b" using eq by (cases a; cases b) auto
  qed
qed

lemma threads_stay_for:
  assumes "\<And>k c. stays k (fst (f k c))"
  shows "threads_stay ts (fst (for_kthreads f ts c))"
proof (rule threads_stay_all2)
  show "list_all2 (rel_option stays) ts (fst (for_kthreads f ts c))"
  proof (induction ts arbitrary: c)
    case (Cons t ts)
    then show ?case using assms by (cases t) (auto simp: Let_def case_prod_beta)
  qed simp
qed

lemma stay_live: "threads_stay ts ts' \<Longrightarrow> live_tids pid ts' = live_tids pid ts"
  unfolding threads_stay_def live_tids_def stays_def by (intro Collect_cong) metis

lemma stay_inv:
  assumes "sched_inv s" and "queues_consistent (kw_threads s') (kw_cpus s')" and "\<And>i. cpu_view i (kw_cpus s') = cpu_view i (kw_cpus s)"
    and "threads_stay (kw_threads s) (kw_threads s')" and "sc_eprocesses s' = sc_eprocesses s" and "sc_zombies s' = sc_zombies s"
  shows "sched_inv s'"
proof -
  have tid: "try_per_cpu_tid i (kw_cpus s') = try_per_cpu_tid i (kw_cpus s)" for i by (simp add: cpu_view_tid assms(3))
  have old: "\<exists>k. Some k \<in> set (kw_threads s) \<and> stays k k'" if "Some k' \<in> set (kw_threads s')" for k'
    using assms(4) that by (auto simp: threads_stay_def)
  have new: "\<exists>k'. Some k' \<in> set (kw_threads s') \<and> stays k k'" if "Some k \<in> set (kw_threads s)" for k
    using assms(4) that by (auto simp: threads_stay_def)
  have "exclusive (kw_cpus s')" using assms(1) by (simp add: sched_inv_def exclusive_def tid)
  moreover have "pages_ok (kw_threads s') (kw_cpus s')"
    using assms(1) new unfolding sched_inv_def pages_ok_def assms(3) stays_def by metis
  moreover have "idle_ok (kw_threads s') (kw_cpus s')" unfolding idle_ok_def tid
  proof (intro conjI allI impI)
    note idle = assms(1) [unfolded sched_inv_def idle_ok_def]
    fix k' assume k': "Some k' \<in> set (kw_threads s')" "kt_is_idle k'"
    then obtain k where k: "Some k \<in> set (kw_threads s)" "stays k k'" using old by blast
    then show "kt_state k' \<noteq> Terminated" "kt_pid k' = 0" using idle k'(2) unfolding stays_def by metis+
    show "unat (kt_cpu k') = i" if "try_per_cpu_tid i (kw_cpus s) = Some (kt_tid k')" for i
      using idle k k'(2) that unfolding stays_def by metis
  next
    fix i assume "try_per_cpu_tid i (kw_cpus s) \<noteq> None"
    then obtain k where k: "Some k \<in> set (kw_threads s)" "kt_is_idle k" "unat (kt_cpu k) = i"
      using assms(1) unfolding sched_inv_def idle_ok_def by blast
    then show "\<exists>k. Some k \<in> set (kw_threads s') \<and> kt_is_idle k \<and> unat (kt_cpu k) = i"
      using new [OF k(1)] unfolding stays_def by metis
  qed
  moreover have "zombies_dead (kw_threads s') (sc_zombies s')"
    using assms(1) old unfolding sched_inv_def zombies_dead_def assms(6) stays_def by metis
  moreover have "counts_ok (kw_threads s') (sc_eprocesses s')" using assms(1,5) stay_live [OF assms(4)] by (simp add: sched_inv_def counts_ok_def)
  moreover have "tables_wf s'" using assms(1,2,5,6) by (simp add: sched_inv_def tables_wf_def queues_consistent)
  ultimately show ?thesis using assms(1,2,5,6) by (simp add: sched_inv_def)
qed

section \<open>Reaping keeps the invariant\<close>

lemma view_running: "cpu_view i c = Some (t, pid) \<Longrightarrow> pid \<noteq> 0 \<Longrightarrow> is_pid_running_on_any_cpu pid c"
  using kprcb_page_bound [of i c] by (fastforce simp: cpu_view_def is_pid_running_on_any_cpu_def list_ex_iff split: option.splits)

lemma reclaim_inv:
  assumes inv: "sched_inv s" and P: "P \<subseteq> set (sc_zombies s)" "\<forall>p\<in>P. \<not> is_pid_running_on_any_cpu p (kw_cpus s)"
    and z: "set z \<subseteq> set (sc_zombies s)" "distinct z"
  shows "sched_inv (reclaim P (s \<lparr> sc_zombies := z \<rparr>))"
    and "find_kthread t (kw_threads s) = Some k \<Longrightarrow> kt_state k \<noteq> Terminated \<Longrightarrow>
      find_kthread t (kw_threads (reclaim P (s \<lparr> sc_zombies := z \<rparr>))) = Some k"
    and "find_kthread t (kw_threads s) = Some k \<Longrightarrow> kt_pid k \<notin> P \<Longrightarrow>
      find_kthread t (kw_threads (reclaim P (s \<lparr> sc_zombies := z \<rparr>))) = Some k"
proof -
  let ?ts = "kw_threads s" and ?c = "kw_cpus s" and ?Q = "P \<inter> set (pids_of (sc_eprocesses s))"
  let ?ts' = "drop_threads ?Q ?ts"
  have tw: "tables_wf s" and con: "queues_consistent ?ts ?c" using inv by (auto simp: sched_inv_def)
  have dead: "kt_state k = Terminated" if "Some k \<in> set ?ts" "kt_pid k \<in> P" for k
    using inv P(1) that by (auto simp: sched_inv_def zombies_dead_def)
  have "queues_consistent ?ts' ?c" unfolding queues_consistent
  proof (intro conjI allI impI)
    fix cpu t p assume "queued ?c cpu t p"
    then obtain k where k: "Some k \<in> set ?ts" "kt_tid k = t" "queue_home k cpu p" using con unfolding queues_consistent by blast
    then have "kt_pid k \<notin> P" using dead [of k] by (auto simp: queue_home_def)
    then show "\<exists>k. Some k \<in> set ?ts' \<and> kt_tid k = t \<and> queue_home k cpu p" using k by (auto simp: drop_mem)
  qed (use con in \<open>auto simp: queues_consistent drop_distinct\<close>)
  moreover have "pages_ok ?ts' ?c" unfolding pages_ok_def
  proof (intro allI impI)
    fix i t pid assume v: "cpu_view i ?c = Some (Some t, pid)"
    then obtain k where k: "Some k \<in> set ?ts" "kt_tid k = t" "kt_pid k = pid" using inv unfolding sched_inv_def pages_ok_def by blast
    have "pid \<notin> P" using P view_running [OF v] tw by (cases "pid = 0") (auto simp: tables_wf_def)
    then show "\<exists>k. Some k \<in> set ?ts' \<and> kt_tid k = t \<and> kt_pid k = pid" using k by (auto simp: drop_mem)
  qed
  moreover have "kt_pid k \<notin> ?Q" if "Some k \<in> set ?ts" "kt_is_idle k" for k
    using dead [OF that(1)] inv that by (auto simp: sched_inv_def idle_ok_def)
  then have "idle_ok ?ts' ?c" using inv unfolding sched_inv_def idle_ok_def drop_mem by blast
  moreover have "zombies_dead ?ts' z" using inv z(1) unfolding sched_inv_def zombies_dead_def drop_mem by blast
  moreover have "live_tids pid ?ts' = live_tids pid ?ts" if "pid \<notin> P" for pid
    using that unfolding live_tids_def drop_mem by blast
  then have "counts_ok ?ts' (drop_eprocesses P (sc_eprocesses s))" using inv unfolding sched_inv_def counts_ok_def drop_mem by simp
  moreover have "slots_ok (drop_eprocesses P (sc_eprocesses s)) z" using inv z(1) unfolding sched_inv_def slots_ok_def drop_mem by blast
  moreover have "tables_wf (reclaim P (s \<lparr> sc_zombies := z \<rparr>))" using tw z by (auto simp: tables_wf_def reclaim_def drop_distinct)
  ultimately show "sched_inv (reclaim P (s \<lparr> sc_zombies := z \<rparr>))" using inv by (simp add: sched_inv_def reclaim_def)
  have d: "distinct (tids_of ?ts)" using con by (simp add: queues_consistent)
  show "find_kthread t ?ts = Some k \<Longrightarrow> kt_state k \<noteq> Terminated \<Longrightarrow>
      find_kthread t (kw_threads (reclaim P (s \<lparr> sc_zombies := z \<rparr>))) = Some k"
    and "find_kthread t ?ts = Some k \<Longrightarrow> kt_pid k \<notin> P \<Longrightarrow> find_kthread t (kw_threads (reclaim P (s \<lparr> sc_zombies := z \<rparr>))) = Some k"
    using dead by (auto simp: reclaim_def find_kthread_iff [OF d] find_kthread_iff [OF drop_distinct(1) [OF d]] drop_mem)
qed

lemma reap_ok:
  assumes "sched_inv s"
  shows "sched_inv (reap_previous prev s)" and "kw_cpus (reap_previous prev s) = kw_cpus s"
    and "find_kthread t (kw_threads s) = Some k \<Longrightarrow> kt_state k \<noteq> Terminated \<Longrightarrow> find_kthread t (kw_threads (reap_previous prev s)) = Some k"
    and "find_kthread prev (kw_threads s) = Some k \<Longrightarrow> find_kthread prev (kw_threads (reap_previous prev s)) = Some k"
proof -
  define ex where "ex = (case find_kthread prev (kw_threads s) of Some t \<Rightarrow> kt_pid t | None \<Rightarrow> 0)"
  let ?P = "reclaimable ex s" and ?z = "filter (\<lambda>p. p = ex \<or> is_pid_running_on_any_cpu p (kw_cpus s)) (sc_zombies s)"
  have tw: "tables_wf s" using assms by (simp add: sched_inv_def)
  have r: "reap_previous prev s = reclaim ?P (s \<lparr> sc_zombies := ?z \<rparr>)"
  proof (cases "sc_zombies s = []")
    case False
    then show ?thesis using reap_loop_exact [OF tw, of ex]
      by (simp add: reap_previous_def reap_pending_zombies_def ex_def [symmetric])
  qed (simp add: reap_previous_def reap_pending_zombies_def reclaimable_def)
  have "?P \<subseteq> set (sc_zombies s)" "\<forall>p\<in>?P. \<not> is_pid_running_on_any_cpu p (kw_cpus s)" "set ?z \<subseteq> set (sc_zombies s)" "distinct ?z"
    using tw by (auto simp: reclaimable_def tables_wf_def)
  note inv = reclaim_inv [OF assms this]
  show "sched_inv (reap_previous prev s)" unfolding r by (rule inv(1))
  show "kw_cpus (reap_previous prev s) = kw_cpus s" by (simp add: r)
  show "find_kthread t (kw_threads s) = Some k \<Longrightarrow> kt_state k \<noteq> Terminated \<Longrightarrow> find_kthread t (kw_threads (reap_previous prev s)) = Some k"
    unfolding r by (rule inv(2))
  show "find_kthread prev (kw_threads s) = Some k \<Longrightarrow> find_kthread prev (kw_threads (reap_previous prev s)) = Some k"
    unfolding r by (rule inv(3)) (auto simp: ex_def reclaimable_def)
qed

section \<open>Committing a thread\<close>

lemma modify_const:
  assumes "find_kthread t ts = Some k"
  shows "modify_kthread t f ts = modify_kthread t (\<lambda>_. f k) ts"
  using find_kthread_SomeD(3) [OF assms] by (auto simp: modify_kthread_def)

lemma modify_slot:
  assumes "distinct (tids_of ts)" and "i < length ts" and "ts ! i = Some k"
  shows "find_kthread (kt_tid k) ts = Some k" and "ts[i := Some k'] = modify_kthread (kt_tid k) (\<lambda>_. k') ts"
proof -
  show f: "find_kthread (kt_tid k) ts = Some k" using assms nth_mem by (fastforce simp: find_kthread_iff)
  obtain j where j: "j < length ts" "find_slot (kt_tid k) ts = Some j" "ts ! j = Some k" using find_kthread_SomeD(3) [OF f] by blast
  then have "j = i" using tids_of_nth_inj [OF assms(1) j(1) assms(2) j(3) assms(3)] by simp
  then show "ts[i := Some k'] = modify_kthread (kt_tid k) (\<lambda>_. k') ts" using j by (simp add: modify_kthread_def)
qed

lemma consistent_replace:
  assumes "queues_consistent ts c" and "find_kthread t ts = Some k" and "kt_tid k' = t"
    and "cpus_wf c'" and "\<And>i u p. u \<noteq> t \<Longrightarrow> queued c' i u p \<Longrightarrow> queued c i u p" and "at_home k' c'"
  shows "queues_consistent (modify_kthread t (\<lambda>_. k') ts) c'"
    and "find_kthread u (modify_kthread t (\<lambda>_. k') ts) = (if u = t then Some k' else find_kthread u ts)"
proof -
  let ?f = "\<lambda>x. k' \<lparr> kt_tid := kt_tid x \<rparr>"
  have k: "?f k = k'" using find_kthread_SomeD(2) [OF assms(2)] assms(3) by simp
  have eq: "modify_kthread t (\<lambda>_. k') ts = modify_kthread t ?f ts" using modify_const [OF assms(2), of ?f] k by simp
  show con: "queues_consistent (modify_kthread t (\<lambda>_. k') ts) c'"
    unfolding eq using k assms(6) by (intro consistent_modify [OF assms(1,2) _ assms(4,5)]) (simp_all del: k)
  have d: "distinct (tids_of ts)" "distinct (tids_of (modify_kthread t (\<lambda>_. k') ts))" using assms(1) con by (auto simp: queues_consistent)
  obtain i where i: "i < length ts" "ts ! i = Some k" "modify_kthread t (\<lambda>_. k') ts = ts[i := Some k']"
    using modify_kthread_eq [OF assms(2)] by metis
  have "Some k0 \<in> set (ts[i := Some k'])" if k0: "Some k0 \<in> set ts" "kt_tid k0 \<noteq> t" for k0
  proof -
    obtain j where j: "j < length ts" "ts ! j = Some k0" using k0(1) by (auto simp: in_set_conv_nth)
    then have "ts[i := Some k'] ! j = Some k0" using k0(2) i(2) find_kthread_SomeD(2) [OF assms(2)] by (cases "j = i") auto
    then show ?thesis using j(1) nth_mem [of j "ts[i := Some k']"] by simp
  qed
  then have mem: "Some x \<in> set (ts[i := Some k']) \<longleftrightarrow> x = k' \<or> (Some x \<in> set ts \<and> kt_tid x \<noteq> t)" for x
    using set_update_memI [OF i(1)] modify_kthread_mem [OF assms(2) d(1), of x "\<lambda>_. k'"] unfolding i(3) by blast
  have "find_kthread u (modify_kthread t (\<lambda>_. k') ts) = Some x \<longleftrightarrow> (if u = t then Some k' else find_kthread u ts) = Some x" for x
    unfolding find_kthread_iff [OF d(2)] using assms(3) by (auto simp: i(3) mem find_kthread_iff [OF d(1)])
  then show "find_kthread u (modify_kthread t (\<lambda>_. k') ts) = (if u = t then Some k' else find_kthread u ts)"
    by (metis not_Some_eq)
qed

lemma sync_page:
  assumes "cpus_wf c" and "kprcb_page me c \<noteq> None"
  shows "cpus_wf (sync_per_cpu_current me k pid c)" and "queued (sync_per_cpu_current me k pid c) i u p = queued c i u p"
    and "cpu_view i (sync_per_cpu_current me k pid c) = (if i = me then Some (Some (kt_tid k), pid) else cpu_view i c)"
proof -
  obtain kp where kp: "kprcb_page me c = Some kp" using assms(2) by auto
  have me: "me < MAX_CPUS" "length (kprcbs c) = MAX_CPUS" using kprcb_page_bound [OF kp] assms(1) by (auto simp: cpus_wf)
  note pages = kprcb_page_update [OF me]
  show "cpus_wf (sync_per_cpu_current me k pid c)" using assms(1) kp by (auto simp: sync_per_cpu_current_def cpus_wf pages)
  show "queued (sync_per_cpu_current me k pid c) i u p = queued c i u p"
    using kp by (simp add: sync_per_cpu_current_def queued_def queue_levels_def pages)
  show "cpu_view i (sync_per_cpu_current me k pid c) = (if i = me then Some (Some (kt_tid k), pid) else cpu_view i c)"
    using kp by (simp add: sync_per_cpu_current_def cpu_view_def pages)
qed

lemma not_owned:
  assumes "exclusive c" and "\<not> candidate_owned_elsewhere t me c" and "j \<noteq> me"
  shows "try_per_cpu_tid j c \<noteq> Some t"
proof
  assume j: "try_per_cpu_tid j c = Some t"
  let ?P = "\<lambda>cpu. case kprcb_page cpu c of None \<Rightarrow> False | Some kp \<Rightarrow> kp_current_thread kp = Some t"
  have P: "?P i \<longleftrightarrow> try_per_cpu_tid i c = Some t" for i by (simp add: try_per_cpu_tid_def split: option.splits)
  have "j < MAX_CPUS" using j kprcb_page_bound by (fastforce simp: try_per_cpu_tid_def split: option.splits)
  then have "position ?P [0..<MAX_CPUS] \<noteq> None" using j P by (auto simp: position_None_iff)
  then obtain i where i: "position ?P [0..<MAX_CPUS] = Some i" by auto
  then have "try_per_cpu_tid i c = Some t" using conjunct1 [OF position_SomeD [OF i]] conjunct2 [OF position_SomeD [OF i]]
    unfolding P by simp
  then have "i = j" using assms(1) j unfolding exclusive_def by blast
  then show False using i assms(2,3) by (simp add: candidate_owned_elsewhere_def kthread_current_cpu_def)
qed

text \<open>The three sites of the dispatcher end the same way: the thread has left the queues, it is Running and
  current on this CPU, and the zombies are reaped.\<close>

lemma ready_self:
  assumes "ready_cpu me s"
  shows "kprcb_thread_in_self me s"
proof -
  obtain t pid where v: "cpu_view me (kw_cpus s) = Some (Some t, pid)"
    using assms by (auto simp: ready_cpu_def cpu_view_tid split: option.splits)
  then obtain k where "Some k \<in> set (kw_threads s)" "kt_tid k = t" using assms unfolding ready_cpu_def sched_inv_def pages_ok_def by blast
  then show ?thesis using v by (auto simp: kprcb_in_self_iff cpu_view_tid find_kthread_None_iff tids_of_mem)
qed

lemma effective_self: "kprcb_thread_in_self me s \<Longrightarrow> try_per_cpu_tid me (kw_cpus s) = Some (effective_tid me s)"
  by (auto simp: kprcb_in_self_iff effective_tid_def)

text \<open>Making a thread that no other CPU runs the current one of this CPU.\<close>

lemma commit_inv:
  assumes ready: "ready_cpu me s" and k: "find_kthread t (kw_threads s) = Some k"
    and other: "\<And>j. j \<noteq> me \<Longrightarrow> try_per_cpu_tid j (kw_cpus s) \<noteq> Some t"
    and c: "queues_consistent (kw_threads s) c" "same_current (kw_cpus s) c" "\<And>i p. \<not> queued c i t p"
    and k': "stays k k'" "kt_is_idle k \<Longrightarrow> unat (kt_cpu k) = me"
    and s': "kw_threads s' = modify_kthread t (\<lambda>_. k') (kw_threads s)" "sc_eprocesses s' = sc_eprocesses s" "sc_zombies s' = sc_zombies s"
    and c': "cpus_wf (kw_cpus s')" "\<And>i u p. queued (kw_cpus s') i u p = queued c i u p"
      "\<And>i. cpu_view i (kw_cpus s') = (if i = me then Some (Some t, kt_pid k) else cpu_view i c)"
  shows "sched_inv s'" and "try_per_cpu_tid i (kw_cpus s') = (if i = me then Some t else try_per_cpu_tid i (kw_cpus s))"
    and "find_kthread u (kw_threads s') = (if u = t then Some k' else find_kthread u (kw_threads s))"
proof -
  let ?s0 = "s' \<lparr> kw_cpus := c \<rparr>" and ?c = "kw_cpus s'"
  have inv: "sched_inv s" using ready by (simp add: ready_cpu_def)
  have wf: "cpus_wf c" using c(1) by (simp add: queues_consistent)
  have tid: "kt_tid k = t" "kt_tid k' = t" using find_kthread_SomeD(2) [OF k] k'(1) by (auto simp: stays_def)
  note rep = consistent_replace [OF c(1) k tid(2), folded s'(1)]
  have "queues_consistent (kw_threads s') c" using c(3) tid by (intro rep(1) wf) (auto simp: at_home_def)
  then have inv0: "sched_inv ?s0"
    by (rule stay_inv [OF inv, where s' = ?s0, simplified]) (use s' k'(1) threads_stay_modify [OF k] same_current_view [OF c(2)] in simp_all)
  have con: "queues_consistent (kw_threads s') ?c" using c'(1) inv0 by (simp add: sched_inv_def queues_consistent c'(2))
  show cur: "try_per_cpu_tid i ?c = (if i = me then Some t else try_per_cpu_tid i (kw_cpus s))" for i
    using same_current_view [OF c(2)] by (simp add: cpu_view_tid c'(3))
  show find: "find_kthread u (kw_threads s') = (if u = t then Some k' else find_kthread u (kw_threads s))" for u
    using rep(2) [OF wf] c(3) tid by (auto simp: at_home_def)
  have mem: "Some k' \<in> set (kw_threads s')" using find_kthread_SomeD(1) [of t _ k'] find [of t] by simp
  have uniq: "k0 = k'" if "Some k0 \<in> set (kw_threads s')" "kt_tid k0 = t" for k0
    using tids_of_inj [OF _ that(1) mem] that(2) tid con by (simp add: queues_consistent)
  have "exclusive ?c" using inv other unfolding exclusive_def sched_inv_def by (auto simp: cur)
  moreover have "pages_ok (kw_threads s') ?c"
    using inv0 mem tid k'(1) unfolding pages_ok_def sched_inv_def by (auto simp: c'(3) stays_def)
  moreover have "idle_ok (kw_threads s') ?c" unfolding idle_ok_def cur
    using inv0 uniq tid k'(1,2) ready same_current_tid [OF c(2)]
    by (auto simp: idle_ok_def sched_inv_def stays_def ready_cpu_def split: if_splits)
  ultimately show "sched_inv s'" using con inv0 by (simp add: sched_inv_def tables_wf_def)
qed

lemma commit_ok:
  assumes ready: "ready_cpu me s" and k: "find_kthread t (kw_threads s) = Some k"
    and other: "\<And>j. j \<noteq> me \<Longrightarrow> try_per_cpu_tid j (kw_cpus s) \<noteq> Some t"
    and c: "queues_consistent (kw_threads s) c" "same_current (kw_cpus s) c" "\<And>i p. \<not> queued c i t p"
    and k': "stays k k'" "kt_state k' = Running" "kt_is_idle k \<Longrightarrow> unat (kt_cpu k) = me"
    and s': "kw_threads s' = modify_kthread t (\<lambda>_. k') (kw_threads s)" "kt_tid kk = t" "kt_pid kk = kt_pid k"
      "kw_cpus s' = sync_per_cpu_current me kk (kt_pid kk) c" "sc_eprocesses s' = sc_eprocesses s" "sc_zombies s' = sc_zombies s"
    and prev: "try_per_cpu_tid me (kw_cpus s) = Some prev"
  shows "dispatched me s t (reap_previous prev s')"
proof -
  have wf: "cpus_wf c" using c(1) by (simp add: queues_consistent)
  have "kprcb_page me (kw_cpus s) \<noteq> None" using ready by (auto simp: ready_cpu_def try_per_cpu_tid_def split: option.splits)
  then have page: "kprcb_page me c \<noteq> None" using same_current_None [OF c(2)] by simp
  note sync = sync_page [OF wf page, where k = kk and pid = "kt_pid kk", folded s'(4)]
  note commit = commit_inv [OF ready k other c k'(1,3) s'(1,5,6) sync(1,2) sync(3) [unfolded s'(2,3)]]
  have "find_kthread prev (kw_threads s) \<noteq> None" using ready_self [OF ready] prev by (simp add: kprcb_in_self_iff)
  then have "find_kthread prev (kw_threads (reap_previous prev s')) \<noteq> None"
    using reap_ok(4) [OF commit(1), of prev] commit(3) [of prev] by (auto split: if_splits)
  then show ?thesis using reap_ok(1,2) [OF commit(1)] reap_ok(3) [OF commit(1), of t k'] commit(2,3) k'(2) prev
    by (auto simp: dispatched_def same_others_def)
qed

section \<open>The sites of the dispatcher\<close>

lemma ready_quiet:
  assumes "ready_cpu me s" and "queues_consistent ts c" and "same_current (kw_cpus s) c" and "threads_stay (kw_threads s) ts"
  shows "ready_cpu me (s \<lparr> kw_threads := ts, kw_cpus := c \<rparr>)"
  using stay_inv [of s "s \<lparr> kw_threads := ts, kw_cpus := c \<rparr>"] assms same_current_view [OF assms(3)] same_current_tid [OF assms(3)]
  by (simp add: ready_cpu_def)

lemma ready_requeue:
  assumes "ready_cpu me s" and "queues_consistent (kw_threads s) c" and "same_current (kw_cpus s) c"
  shows "ready_cpu me (s \<lparr> kw_cpus := c \<rparr>)"
  using ready_quiet [OF assms threads_stay_refl] by simp

lemma in_self_same:
  "same_current (kw_cpus s) c \<Longrightarrow> kprcb_thread_in_self me (s \<lparr> kw_cpus := c \<rparr>) = kprcb_thread_in_self me s"
  by (simp add: kprcb_in_self_iff same_current_tid)

lemma commit_current_self:
  "kprcb_thread_in_self me s \<Longrightarrow>
   commit_current me k s = s \<lparr> kw_current_tid := kt_tid k, kw_cpus := sync_per_cpu_current me k (kt_pid k) (kw_cpus s) \<rparr>"
  by (simp add: commit_current_def kprcb_in_self_iff)

lemma find_idle_SomeD:
  assumes "find_idle_ptr cpu ts = Some t" and "find_kthread t ts = Some k" and "distinct (tids_of ts)"
  shows "kt_is_idle k" and "unat (kt_cpu k) = cpu"
proof -
  let ?P = "\<lambda>t. case t of None \<Rightarrow> False | Some k \<Rightarrow> kt_is_idle k \<and> unat (kt_cpu k) = cpu"
  obtain i where i: "position ?P ts = Some i" "map_option kt_tid (ts ! i) = Some t"
    using assms(1) by (auto simp: find_idle_ptr_def split: option.splits)
  then obtain k0 where k0: "ts ! i = Some k0" "kt_tid k0 = t" by auto
  have "i < length ts" "?P (ts ! i)" using position_SomeD [OF i(1)] by blast+
  moreover from this have "k0 = k" using assms(2,3) k0 nth_mem [of i ts] by (simp add: find_kthread_iff tids_of_inj)
  ultimately show "kt_is_idle k" "unat (kt_cpu k) = cpu" using k0 by simp_all
qed

lemma ready_idle:
  assumes "ready_cpu me s"
  obtains t k where "find_idle_ptr me (kw_threads s) = Some t" and "find_kthread t (kw_threads s) = Some k"
    and "kt_is_idle k" and "unat (kt_cpu k) = me" and "kt_state k \<noteq> Terminated"
proof -
  let ?P = "\<lambda>t. case t of None \<Rightarrow> False | Some k \<Rightarrow> kt_is_idle k \<and> unat (kt_cpu k) = me" and ?ts = "kw_threads s"
  have d: "distinct (tids_of ?ts)" using assms by (simp add: ready_cpu_def sched_inv_def queues_consistent)
  obtain k0 where "Some k0 \<in> set ?ts" "kt_is_idle k0" "unat (kt_cpu k0) = me"
    using assms unfolding ready_cpu_def sched_inv_def idle_ok_def by blast
  then have "position ?P ?ts \<noteq> None" unfolding position_None_iff by fastforce
  then obtain i where i: "position ?P ?ts = Some i" by auto
  then obtain k where k: "i < length ?ts" "?ts ! i = Some k" using position_SomeD [OF i] by (auto split: option.splits)
  have t: "find_idle_ptr me ?ts = Some (kt_tid k)" using i k(2) by (simp add: find_idle_ptr_def)
  have f: "find_kthread (kt_tid k) ?ts = Some k" using modify_slot(1) [OF d k] .
  note idle = find_idle_SomeD [OF t f d]
  have "kt_state k \<noteq> Terminated" using assms idle(1) find_kthread_SomeD(1) [OF f] by (auto simp: ready_cpu_def sched_inv_def idle_ok_def)
  then show ?thesis using that [OF t f idle] by blast
qed

lemma dispatch_idle_ok:
  assumes "ready_cpu me s"
  shows "\<exists>t s'. dispatch_idle me s = Some (t, s') \<and> dispatched me s t s'"
proof -
  obtain t k where k: "find_idle_ptr me (kw_threads s) = Some t" "find_kthread t (kw_threads s) = Some k" "kt_is_idle k"
      "unat (kt_cpu k) = me" "kt_state k \<noteq> Terminated" using ready_idle [OF assms] .
  have inv: "sched_inv s" using assms by (simp add: ready_cpu_def)
  have con: "queues_consistent (kw_threads s) (kw_cpus s)" using inv by (simp add: sched_inv_def)
  let ?c = "remove_from_run_queue k (kw_cpus s)"
  let ?s1 = "s \<lparr> kw_cpus := ?c \<rparr>" and ?f = "\<lambda>k. k \<lparr> kt_state := Running, kt_time_slice_remaining := 10 \<rparr>"
  have rm: "cpus_wf ?c \<and> same_current (kw_cpus s) ?c \<and>
      (\<forall>i t p. queued ?c i t p \<longleftrightarrow> queued (kw_cpus s) i t p \<and> \<not> (i = unat (kt_cpu k) \<and> t = kt_tid k))"
    using con by (intro remove_from_run_queue_spec) (simp add: queues_consistent)
  have con1: "queues_consistent (kw_threads s) ?c" using consistent_shrink [OF con] rm by blast
  have self1: "kprcb_thread_in_self me ?s1" using ready_self [OF assms] in_self_same rm by blast
  have "\<not> queued ?c i t p" for i p using steal_candidate [OF con, of i t p] k(2,3) rm by (metis option.inject)
  moreover have "try_per_cpu_tid j (kw_cpus s) \<noteq> Some t" if "j \<noteq> me" for j
    using inv k that find_kthread_SomeD(1,2) [OF k(2)] unfolding sched_inv_def idle_ok_def by blast
  ultimately have "dispatched me s t (reap_previous (effective_tid me ?s1)
      ((commit_current me k ?s1) \<lparr> kw_threads := modify_kthread t (\<lambda>_. ?f k) (kw_threads s) \<rparr>))"
    using rm con1 k find_kthread_SomeD(2) [OF k(2)] effective_self [OF self1] same_current_tid [of "kw_cpus s" ?c me]
    by (intro commit_ok [OF assms k(2), where c = ?c and kk = k]) (simp_all add: commit_current_self [OF self1] stays_def)
  then show ?thesis using k modify_const [OF k(2), of ?f] by (simp add: dispatch_idle_def Let_def commit_current_self [OF self1])
qed

text \<open>A thread that was just taken from a queue: it is Ready and queued nowhere.\<close>

definition taken :: "u32 \<Rightarrow> 'z Sched_scheme \<Rightarrow> bool" where
  "taken t s \<longleftrightarrow> (\<exists>k. find_kthread t (kw_threads s) = Some k \<and> kt_state k = Ready \<and> \<not> kt_is_idle k) \<and> (\<forall>i p. \<not> queued (kw_cpus s) i t p)"

lemma dequeue_taken:
  assumes "queues_consistent ts c" and "with_runqueue me rq_pop c = (r, c')"
  shows "queues_consistent ts c'" and "same_current c c'"
    and "r = Some t \<Longrightarrow> (\<exists>k. find_kthread t ts = Some k \<and> kt_state k = Ready \<and> \<not> kt_is_idle k) \<and> (\<forall>i p. \<not> queued c' i t p)"
proof -
  have wf: "cpus_wf c" using assms(1) by (simp add: queues_consistent)
  note deq = dequeue_spec [OF wf assms(2)]
  show "queues_consistent ts c'" using consistent_shrink [OF assms(1) deq(1)] deq(3) by blast
  show "same_current c c'" by (rule deq(2))
  assume t: "r = Some t"
  then obtain p where p: "queued c me t p" using deq(4) by blast
  obtain k where k: "find_kthread t ts = Some k" "kt_state k = Ready" "\<not> kt_is_idle k" "unat (kt_cpu k) = me" "at_home k c" "kt_tid k = t"
    using steal_candidate [OF assms(1) p] by metis
  have "\<not> queued c' i t q" for i q
  proof
    assume q: "queued c' i t q"
    then have "i = me" using deq(3) [OF q] k(4,5,6) by (auto simp: at_home_def queue_home_def)
    then show False using q deq(5) [OF t] by blast
  qed
  then show "(\<exists>k. find_kthread t ts = Some k \<and> kt_state k = Ready \<and> \<not> kt_is_idle k) \<and> (\<forall>i p. \<not> queued c' i t p)"
    using k by blast
qed

lemma account_dispatch_sel [simp]:
  "kt_tid (account_dispatch b k) = kt_tid k" "kt_pid (account_dispatch b k) = kt_pid k" "kt_cpu (account_dispatch b k) = kt_cpu k"
  "kt_state (account_dispatch b k) = kt_state k" "kt_is_idle (account_dispatch b k) = kt_is_idle k"
  by (simp_all add: account_dispatch_def mark_dispatch_def Let_def)

lemma try_candidate_ok:
  assumes "ready_cpu me s" and "taken t s" and "try_candidate mem me req t s = (r, s')"
  shows "case r of Some t' \<Rightarrow> dispatched me s t' s' | None \<Rightarrow> ready_cpu me s' \<and> same_current (kw_cpus s) (kw_cpus s')"
proof -
  obtain k where k: "find_kthread t (kw_threads s) = Some k" "kt_state k = Ready" "\<not> kt_is_idle k"
    and free: "\<And>i p. \<not> queued (kw_cpus s) i t p" using assms(2) by (auto simp: taken_def)
  have inv: "sched_inv s" using assms(1) by (simp add: ready_cpu_def)
  note self = ready_self [OF assms(1)]
  have con: "queues_consistent (kw_threads s) (kw_cpus s)" and ex: "exclusive (kw_cpus s)" using inv by (auto simp: sched_inv_def)
  have wf: "cpus_wf (kw_cpus s)" using con by (simp add: queues_consistent)
  have tid: "kt_tid k = t" using find_kthread_SomeD(2) [OF k(1)] .
  show ?thesis
  proof (cases "dispatchable mem req k \<and> \<not> candidate_owned_elsewhere t me (kw_cpus s) \<and> kt_priority k \<le> highest_ready_priority (kw_cpus s)")
    case True
    let ?s1 = "commit_current me k s"
    let ?f = "\<lambda>k. account_dispatch (per_cpu_tick_base me ?s1) (k \<lparr> kt_state := Running \<rparr>)"
    have own: "try_per_cpu_tid j (kw_cpus s) \<noteq> Some t" if "j \<noteq> me" for j using not_owned [OF ex _ that] True by blast
    have "dispatched me s t (reap_previous (effective_tid me s) (?s1 \<lparr> kw_threads := modify_kthread t (\<lambda>_. ?f k) (kw_threads s) \<rparr>))"
      using con free k tid own effective_self [OF self]
      by (intro commit_ok [OF assms(1) k(1), where c = "kw_cpus s" and kk = k]) (simp_all add: commit_current_self [OF self] stays_def)
    moreover have "kw_threads ?s1 = kw_threads s" by (simp add: commit_current_self [OF self])
    ultimately show ?thesis using True k assms(3) modify_const [OF k(1), of ?f] by (auto simp: try_candidate_def Let_def)
  next
    case False
    let ?c = "enqueue_to_cpu_run_queue me k (kw_cpus s)"
    have s': "r = None" "s' = s \<lparr> kw_cpus := ?c \<rparr>" using False k assms(3) by (auto simp: try_candidate_def)
    note enq = enqueue_spec [OF wf]
    have "queues_consistent (kw_threads s) ?c" unfolding queues_consistent
    proof (intro conjI allI impI)
      fix i u p assume "queued ?c i u p"
      then show "\<exists>k. Some k \<in> set (kw_threads s) \<and> kt_tid k = u \<and> queue_home k i p"
        using enq(4) con k find_kthread_SomeD(1) [OF k(1)] unfolding queues_consistent queue_home_def by blast
    qed (use con enq(1) in \<open>auto simp: queues_consistent\<close>)
    then show ?thesis using ready_requeue [OF assms(1) _ enq(2)] enq(2) s' by simp
  qed
qed

lemma steal_ready:
  assumes "ready_cpu me s"
  shows "\<exists>r ts c. try_work_steal me (kw_threads s) (kw_cpus s) = Some (r, ts, c) \<and>
    ready_cpu me (s \<lparr> kw_threads := ts, kw_cpus := c \<rparr>) \<and> same_current (kw_cpus s) c \<and>
    (\<forall>t. r = Some t \<longrightarrow> taken t (s \<lparr> kw_threads := ts, kw_cpus := c \<rparr>))"
proof -
  have "queues_consistent (kw_threads s) (kw_cpus s)" using assms by (simp add: ready_cpu_def sched_inv_def)
  then obtain r ts c c1 where st: "try_work_steal me (kw_threads s) (kw_cpus s) = Some (r, ts, c)" "steal_ok (kw_threads s) (kw_cpus s) ts c1"
      "(r = None \<and> c = c1) \<or> with_runqueue me rq_pop c1 = (r, c)"
    using steal_victims_returns [of "kw_threads s" "kw_cpus s" me "[0..<MAX_CPUS]"] unfolding try_work_steal_def by blast
  have ok: "queues_consistent ts c1" "same_current (kw_cpus s) c1" "migrated (kw_threads s) ts" using st(2) by (auto simp: steal_ok_def)
  have "queues_consistent ts c \<and> same_current c1 c \<and> (\<forall>t. r = Some t \<longrightarrow> taken t (s \<lparr> kw_threads := ts, kw_cpus := c \<rparr>))"
  proof (cases "r = None \<and> c = c1")
    case False
    then show ?thesis using st(3) dequeue_taken [OF ok(1), of me r c] by (auto simp: taken_def)
  qed (use ok in simp)
  then show ?thesis using st(1) same_current_trans [OF ok(2)] ready_quiet [OF assms _ _ threads_stay_migrated [OF ok(3)]] by blast
qed

lemma first_some_SomeD: "first_some f xs = Some y \<Longrightarrow> \<exists>x\<in>set xs. f x = Some y"
  by (induction xs) (auto split: option.splits)

lemma scan_pick_ok:
  assumes "ready_cpu me s" and "scan_pick mem me req s = Some i"
  shows "\<exists>k. kw_threads s ! i = Some k \<and> dispatched me s (fst (dispatch_scanned me i k s)) (snd (dispatch_scanned me i k s))"
proof -
  obtain prio tid where pos: "position (\<lambda>t. case t of None \<Rightarrow> False | Some k \<Rightarrow> scan_ok mem me req (kw_cpus s) prio tid k) (kw_threads s) = Some i"
    using first_some_SomeD assms(2) by (fastforce simp: scan_pick_def)
  then obtain k where k: "i < length (kw_threads s)" "kw_threads s ! i = Some k" "scan_ok mem me req (kw_cpus s) prio tid k"
    using position_SomeD [OF pos] by (auto split: option.splits)
  have inv: "sched_inv s" using assms(1) by (simp add: ready_cpu_def)
  note self = ready_self [OF assms(1)]
  have con: "queues_consistent (kw_threads s) (kw_cpus s)" and ex: "exclusive (kw_cpus s)" using inv by (auto simp: sched_inv_def)
  have d: "distinct (tids_of (kw_threads s))" and wf: "cpus_wf (kw_cpus s)" using con by (auto simp: queues_consistent)
  note slot = modify_slot [OF d k(1,2)]
  let ?c = "remove_from_run_queue k (kw_cpus s)"
  note rm = remove_from_run_queue_spec [OF wf, of k]
  have same: "same_current (kw_cpus s) ?c" using rm by blast
  have con1: "queues_consistent (kw_threads s) ?c" using consistent_shrink [OF con] rm by blast
  have free: "\<not> queued ?c j (kt_tid k) p" for j p
  proof
    assume q: "queued ?c j (kt_tid k) p"
    then have "queued (kw_cpus s) j (kt_tid k) p" using rm by blast
    then have "unat (kt_cpu k) = j" using steal_candidate [OF con, of j "kt_tid k" p] slot(1) by (metis option.inject)
    then show False using q rm by blast
  qed
  let ?k = "account_dispatch (per_cpu_tick_base me (s \<lparr> kw_cpus := ?c \<rparr>)) (k \<lparr> kt_cpu := of_nat me, kt_state := Running \<rparr>)"
  let ?s1 = "s \<lparr> kw_cpus := ?c, kw_threads := modify_kthread (kt_tid k) (\<lambda>_. ?k) (kw_threads s) \<rparr>"
  have at: "at_home ?k ?c" using free by (simp add: at_home_def)
  have "find_kthread u (kw_threads ?s1) \<noteq> None" if "find_kthread u (kw_threads s) \<noteq> None" for u
    using consistent_replace(2) [OF con1 slot(1) _ _ _ at] rm that by auto
  then have self1: "kprcb_thread_in_self me ?s1" using self by (auto simp: kprcb_in_self_iff same_current_tid [OF same])
  have own: "try_per_cpu_tid j (kw_cpus s) \<noteq> Some (kt_tid k)" if "j \<noteq> me" for j
    using not_owned [OF ex _ that] k(3) by (auto simp: scan_ok_def)
  have ok: "kt_state k \<noteq> Terminated" "\<not> kt_is_idle k" using k(3) by (auto simp: scan_ok_def)
  have "dispatched me s (kt_tid k) (reap_previous (effective_tid me s) (commit_current me ?k ?s1))"
    using con1 same free own ok effective_self [OF self]
    by (intro commit_ok [OF assms(1) slot(1), where c = ?c and kk = ?k and k' = ?k]) (simp_all add: commit_current_self [OF self1] stays_def)
  then show ?thesis using k(2) self slot(2) [of ?k] by (simp add: dispatch_scanned_def Let_def)
qed

section \<open>Correctness of the dispatcher\<close>

lemma dispatched_trans: "same_current (kw_cpus s) (kw_cpus s1) \<Longrightarrow> dispatched me s1 t s' \<Longrightarrow> dispatched me s t s'"
  by (simp add: dispatched_def same_others_def same_current_tid)

lemma handoff_dispatched: "dispatched me s t s' \<Longrightarrow> dispatched me s t (set_kernel_handoff me s')"
  by (simp add: dispatched_def set_kernel_handoff_def sched_inv_def tables_wf_def)

lemma scan_or_idle_ok:
  assumes "ready_cpu me s"
  shows "\<exists>t s'. scan_or_idle mem me req s = Some (t, s') \<and> dispatched me s t s'"
proof (cases "scan_pick mem me req s")
  case None
  then show ?thesis using dispatch_idle_ok [OF assms] by (simp add: scan_or_idle_def)
next
  case (Some i)
  obtain k where k: "kw_threads s ! i = Some k" "dispatched me s (fst (dispatch_scanned me i k s)) (snd (dispatch_scanned me i k s))"
    using scan_pick_ok [OF assms Some] by blast
  then show ?thesis using Some by (cases "dispatch_scanned me i k s") (simp add: scan_or_idle_def)
qed

lemma candidate_step:
  assumes "ready_cpu me s" and "\<And>t. r = Some t \<Longrightarrow> taken t s"
  shows "\<exists>r' s'. (case r of None \<Rightarrow> (None, s) | Some tid \<Rightarrow> try_candidate mem me req tid s) = (r', s') \<and>
    (case r' of Some t \<Rightarrow> dispatched me s t s' | None \<Rightarrow> ready_cpu me s' \<and> same_current (kw_cpus s) (kw_cpus s'))"
proof (cases r)
  case (Some t)
  obtain r' s' where "try_candidate mem me req t s = (r', s')" by fastforce
  then show ?thesis using Some try_candidate_ok [OF assms(1) assms(2) [OF Some]] by auto
qed (use assms(1) in simp)

lemma steal_or_scan_ok:
  assumes "ready_cpu me s"
  shows "\<exists>t s'. steal_or_scan mem me req s = Some (t, s') \<and> dispatched me s t s'"
proof -
  obtain r ts c where st: "try_work_steal me (kw_threads s) (kw_cpus s) = Some (r, ts, c)" "same_current (kw_cpus s) c"
    and ready: "ready_cpu me (s \<lparr> kw_threads := ts, kw_cpus := c \<rparr>)"
    and taken: "\<And>t. r = Some t \<Longrightarrow> taken t (s \<lparr> kw_threads := ts, kw_cpus := c \<rparr>)"
    using steal_ready [OF assms] by blast
  let ?s1 = "s \<lparr> kw_threads := ts, kw_cpus := c \<rparr>"
  obtain r' s2 where c: "(case r of None \<Rightarrow> (None, ?s1) | Some tid \<Rightarrow> try_candidate mem me req tid ?s1) = (r', s2)"
      "case r' of Some t \<Rightarrow> dispatched me ?s1 t s2 | None \<Rightarrow> ready_cpu me s2 \<and> same_current (kw_cpus ?s1) (kw_cpus s2)"
    using candidate_step [OF ready taken] by blast
  have same: "same_current (kw_cpus s) (kw_cpus ?s1)" using st(2) by simp
  show ?thesis
  proof (cases r')
    case None
    then have "ready_cpu me s2" "same_current (kw_cpus s) (kw_cpus s2)" using c(2) same_current_trans [OF same] by simp_all
    then show ?thesis using scan_or_idle_ok [of me s2 mem req] st(1) c(1) None dispatched_trans
      by (auto simp: steal_or_scan_def Let_def)
  next
    case (Some t)
    then show ?thesis using st(1) c dispatched_trans [OF same] by (simp add: steal_or_scan_def Let_def)
  qed
qed

lemma schedule_ok:
  assumes "ready_cpu me s"
  shows "\<exists>t s'. schedule_with_handoff mem me req allow s = Some (t, s') \<and> dispatched me s t s'"
proof -
  let ?s = "s \<lparr> sc_schedule_count := sc_schedule_count s + 1 \<rparr>"
  have ready: "ready_cpu me ?s" using assms by (simp add: ready_cpu_def sched_inv_def tables_wf_def)
  have drop: "dispatched me ?s t s' \<Longrightarrow> dispatched me s t s'" for t s' by (simp add: dispatched_def)
  show ?thesis
  proof (cases "req \<and> allow \<and> kernel_thread_starved me ?s")
    case True
    obtain t s' where d: "dispatch_idle me ?s = Some (t, s')" "dispatched me ?s t s'" using dispatch_idle_ok [OF ready] by blast
    then show ?thesis using True handoff_dispatched [OF drop [OF d(2)]] by (simp add: schedule_with_handoff_def Let_def)
  next
    case no: False
    obtain r c where deq: "with_runqueue me rq_pop (kw_cpus ?s) = (r, c)" by fastforce
    have con: "queues_consistent (kw_threads ?s) (kw_cpus ?s)" using ready by (simp add: ready_cpu_def sched_inv_def)
    note t = dequeue_taken [OF con deq]
    let ?s1 = "?s \<lparr> kw_cpus := c \<rparr>"
    have "taken t ?s1" if "r = Some t" for t using t(3) [OF that] by (simp add: taken_def)
    then obtain r' s2 where c: "(case r of None \<Rightarrow> (None, ?s1) | Some tid \<Rightarrow> try_candidate mem me req tid ?s1) = (r', s2)"
        "case r' of Some t \<Rightarrow> dispatched me ?s1 t s2 | None \<Rightarrow> ready_cpu me s2 \<and> same_current (kw_cpus ?s1) (kw_cpus s2)"
      using candidate_step [OF ready_requeue [OF ready t(1,2)]] by blast
    have same: "same_current (kw_cpus ?s) (kw_cpus ?s1)" using t(2) by simp
    have unfold: "schedule_with_handoff mem me req allow s =
        (case r' of Some tid \<Rightarrow> Some (tid, s2) | None \<Rightarrow> steal_or_scan mem me req s2)"
      using no deq c(1) by (auto simp: schedule_with_handoff_def Let_def try_dequeue_local_def split: option.splits)
    show ?thesis
    proof (cases r')
      case None
      then have "ready_cpu me s2" "same_current (kw_cpus ?s) (kw_cpus s2)" using c(2) same_current_trans [OF same] by simp_all
      then show ?thesis using steal_or_scan_ok [of me s2 mem req] unfold None drop dispatched_trans by (metis option.simps(4))
    next
      case (Some t)
      then show ?thesis using unfold c(2) drop dispatched_trans [OF same] by simp
    qed
  qed
qed

end
