(* ===== verification/SchedOps.thy ===== *)
theory SchedOps
  imports Scheduler
begin

text \<open>
  The end of threads and processes (\<open>terminate_current\<close>, \<open>kill_pid\<close> and \<open>recycle_thread\<close> of
  scheduler/lifecycle.rs), and the proofs that the timer tick, the wait operations, the passes over the
  thread table, exits and kills keep the invariant of the dispatcher.

  Ending a process also frees its pages, pipes, handles and objects and notifies the service manager;
  those effects are outside this state.
\<close>

unbundle bit_operations_syntax

section \<open>Ending threads and processes\<close>

definition modify_eprocess :: "u32 \<Rightarrow> (Eprocess \<Rightarrow> Eprocess) \<Rightarrow> Eprocess option list \<Rightarrow> Eprocess option list" where
  "modify_eprocess pid f eps = (case position (has_pid pid) eps of None \<Rightarrow> eps | Some i \<Rightarrow> eps[i := map_option f (eps ! i)])"

text \<open>The thread and the process that end; \<open>None\<close> is the bug check of a CPU without a current thread.\<close>

definition terminating_ids :: "nat \<Rightarrow> 'z KWaitState_scheme \<Rightarrow> (u32 \<times> u32) option" where
  "terminating_ids me s =
    (let pid_of = (\<lambda>tid. case find_kthread tid (kw_threads s) of Some k \<Rightarrow> kt_pid k | None \<Rightarrow> 0) in
     if kprcb_thread_in_self me s then (case try_per_cpu_tid me (kw_cpus s) of
         Some tid \<Rightarrow> Some (tid, pid_of tid) | None \<Rightarrow> Some (kw_current_tid s, pid_of (kw_current_tid s)))
     else map_option (\<lambda>_. (kw_current_tid s, pid_of (kw_current_tid s))) (current_tid_checked me s))"

definition wake_all_on :: "nat \<Rightarrow> WaitReason \<Rightarrow> 'z KWaitState_scheme \<Rightarrow> 'z KWaitState_scheme" where
  "wake_all_on me reason s = (let (ts, c) = for_kthreads (wake_body me (encode_magic reason)) (kw_threads s) (kw_cpus s)
     in s \<lparr> kw_threads := ts, kw_cpus := c \<rparr>)"

definition end_thread :: "u32 \<Rightarrow> 'z KWaitState_scheme \<Rightarrow> 'z KWaitState_scheme" where
  "end_thread tid s = (case find_kthread tid (kw_threads s) of
      None \<Rightarrow> s
    | Some k \<Rightarrow> s \<lparr> kw_cpus := remove_from_run_queue k (kw_cpus s),
        kw_threads := modify_kthread tid (\<lambda>k. k \<lparr> kt_state := Terminated \<rparr>) (kw_threads s) \<rparr>)"

definition terminate_current :: "nat \<Rightarrow> u64 \<Rightarrow> 'z Sched_scheme \<Rightarrow> (u32 option \<times> 'z Sched_scheme) option" where
  "terminate_current me exit_code s = (case terminating_ids me s of
      None \<Rightarrow> None
    | Some (tid, pid) \<Rightarrow>
        if tid = 0 \<or> pid = 0 then Some (None, s)
        else let s1 = end_thread tid s;
                 (do_reap, s2) = (case find_eprocess pid (sc_eprocesses s1) of
                     None \<Rightarrow> (False, s1)
                   | Some ep \<Rightarrow>
                       let count = saturating_sub (ep_thread_count ep) 1;
                           counted = s1 \<lparr> sc_eprocesses := modify_eprocess pid (\<lambda>ep. ep \<lparr> ep_thread_count := count, ep_exit_code := exit_code,
                             ep_user_slot := (if count = 0 then None else ep_user_slot ep) \<rparr>) (sc_eprocesses s1) \<rparr>
                       in if count = 0 then (True, wake_all_on me (ChildExit pid) counted) else (False, counted));
                 s3 = wake_all_on me (ThreadJoin tid) s2
             in Some (Some pid, if do_reap then defer_reap_with_scheduler pid s3 else s3))"

text \<open>
  A kill. When a CPU still runs the process, its threads are only marked and taken from the run queues
  and the slots are reclaimed later; otherwise the slots are cleared at once.
\<close>

definition kill_pid :: "u32 \<Rightarrow> 'z Sched_scheme \<Rightarrow> bool \<times> 'z Sched_scheme" where
  "kill_pid pid s =
    (if pid = 0 \<or> pid = 1 then (False, s)
     else let tids = thread_tids_for_pid pid (kw_threads s) in
       if tids = [] then (False, s)
       else if is_pid_running_on_any_cpu pid (kw_cpus s)
       then (True, defer_reap_with_scheduler pid (foldl (\<lambda>s tid. end_thread tid s)
              (s \<lparr> sc_eprocesses := modify_eprocess pid (\<lambda>ep. ep \<lparr> ep_user_slot := None \<rparr>) (sc_eprocesses s) \<rparr>) tids))
       else (True, s \<lparr> sc_eprocesses := (case position (has_pid pid) (sc_eprocesses s) of
                None \<Rightarrow> sc_eprocesses s | Some i \<Rightarrow> (sc_eprocesses s)[i := None]),
              kw_threads := foldl clear_kthread (kw_threads s) tids \<rparr>))"

definition recycle_thread :: "u32 \<Rightarrow> 'z Sched_scheme \<Rightarrow> bool \<times> 'z Sched_scheme" where
  "recycle_thread tid s = (case find_slot tid (kw_threads s) of
      None \<Rightarrow> (False, s) | Some i \<Rightarrow> (True, s \<lparr> kw_threads := (kw_threads s)[i := None] \<rparr>))"

section \<open>Passes and the invariant\<close>

text \<open>A pass over the thread table whose body also leaves identity and end of each thread alone.\<close>

locale staying_pass = thread_pass +
  assumes pass_stays: "stays k (fst (f k c))"
begin

lemma pass_inv:
  assumes "sched_inv s"
  shows "sched_inv (s \<lparr> kw_threads := fst (for_kthreads f (kw_threads s) (kw_cpus s)), kw_cpus := snd (for_kthreads f (kw_threads s) (kw_cpus s)) \<rparr>)"
    and "cpu_view i (snd (for_kthreads f (kw_threads s) (kw_cpus s))) = cpu_view i (kw_cpus s)"
proof -
  have con: "queues_consistent (kw_threads s) (kw_cpus s)" using assms by (simp add: sched_inv_def)
  then have view: "cpu_view i (snd (for_kthreads f (kw_threads s) (kw_cpus s))) = cpu_view i (kw_cpus s)" for i
    by (intro same_current_view for_kthreads_current) (simp add: queues_consistent)
  then show "cpu_view i (snd (for_kthreads f (kw_threads s) (kw_cpus s))) = cpu_view i (kw_cpus s)" .
  show "sched_inv (s \<lparr> kw_threads := fst (for_kthreads f (kw_threads s) (kw_cpus s)), kw_cpus := snd (for_kthreads f (kw_threads s) (kw_cpus s)) \<rparr>)"
    by (rule stay_inv [OF assms]) (simp_all add: view for_kthreads_consistent [OF con] threads_stay_for pass_stays)
qed

end

lemma make_ready_stays: "kt_state k \<noteq> Terminated \<Longrightarrow> stays k (fst (make_thread_ready me k c))"
  by (simp add: make_thread_ready_def stays_def Let_def)

interpretation wakes: staying_pass "wake_body me magic"
  by unfold_locales (auto simp: wake_body_def stays_def make_thread_ready_def Let_def is_blocked_def split: ThreadState.splits)

interpretation ages: staying_pass "aging_body me"
  by unfold_locales (auto simp: aging_body_def stays_def Let_def)

interpretation activates: staying_pass "activate_body me pid"
  by unfold_locales (auto simp: activate_body_def make_ready_stays)

interpretation prios: staying_pass "set_priority_body me pid priority"
  by unfold_locales (auto simp: set_priority_body_def stays_def Let_def)

section \<open>Every operation keeps the invariant\<close>

lemma sched_inv_other [simp]:
  "sched_inv (s \<lparr> kw_deadlines := d \<rparr>) = sched_inv s" "sched_inv (s \<lparr> kw_need_resched := b \<rparr>) = sched_inv s"
  "sched_inv (s \<lparr> sc_timer_ticks := n \<rparr>) = sched_inv s"
  by (simp_all add: sched_inv_def tables_wf_def)

lemma resched_inv: "sched_inv s \<Longrightarrow> sched_inv (kw_set_need_resched me s)"
proof -
  assume inv: "sched_inv s"
  then have con: "queues_consistent (kw_threads s) (kw_cpus s)" by (simp add: sched_inv_def)
  then have "cpu_view i (this_cpu_set_need_resched me (kw_cpus s)) = cpu_view i (kw_cpus s)" for i
    by (simp add: cpu_view_def resched_page queues_consistent option.map_comp comp_def)
  then show ?thesis by (intro stay_inv [OF inv]) (simp_all add: kw_set_need_resched_def resched_consistent [OF con])
qed

lemma wake_all_on_inv: "sched_inv s \<Longrightarrow> sched_inv (wake_all_on me r s)"
  using wakes.pass_inv(1) by (simp add: wake_all_on_def Let_def case_prod_beta)

lemma kwait_wake_inv: "sched_inv s \<Longrightarrow> sched_inv (kwait_wake me r s)"
proof -
  assume "sched_inv s"
  then have "sched_inv (cancel_deadline (encode_magic r) s)" by (simp add: cancel_deadline_def)
  note pass = wakes.pass_inv(1) [OF this, of me "encode_magic r"]
  from pass resched_inv [OF pass, of me] show ?thesis
    by (simp add: kwait_wake_def Let_def case_prod_beta)
qed

lemma deadline_tick_inv: "sched_inv s \<Longrightarrow> sched_inv (snd (deadline_tick me now s))"
proof -
  have "sched_inv (foldl (\<lambda>s m. case decode_magic m of Some reason \<Rightarrow> kwait_wake me reason s | None \<Rightarrow> s) s ms)" if "sched_inv s"
    for ms :: "u64 list" and s :: "'a Sched_scheme"
    using that by (induction ms arbitrary: s) (auto simp: kwait_wake_inv split: option.splits)
  then show "sched_inv s \<Longrightarrow> sched_inv (snd (deadline_tick me now s))" by (simp add: deadline_tick_def Let_def)
qed

text \<open>The current thread of a CPU in use, as the operations find it.\<close>

definition running_on :: "nat \<Rightarrow> Kthread \<Rightarrow> 'z KWaitState_scheme \<Rightarrow> bool" where
  "running_on me k s \<longleftrightarrow> try_per_cpu_tid me (kw_cpus s) = Some (kt_tid k) \<and> find_kthread (kt_tid k) (kw_threads s) = Some k \<and> kt_state k = Running"

lemma running_current:
  assumes "running_on me k s"
  shows "current_tid_checked me s = Some (kt_tid k)" and "effective_tid me s = kt_tid k" and "kprcb_thread_in_self me s"
    and "terminating_ids me s = Some (kt_tid k, kt_pid k)"
  using assms
  by (auto simp: running_on_def current_tid_checked_def effective_tid_def kprcb_thread_in_self_def try_per_cpu_tid_def
      terminating_ids_def split: option.splits)

text \<open>Replacing a thread that is not Ready, and hence not queued, by one that stays.\<close>

lemma replace_inv:
  assumes "sched_inv s" and "find_kthread t (kw_threads s) = Some k" and "stays k k'" and "cpus_wf c" and "same_current (kw_cpus s) c"
    and "\<And>i u p. u \<noteq> t \<Longrightarrow> queued c i u p \<Longrightarrow> queued (kw_cpus s) i u p" and "at_home k' c"
    and "kw_threads s' = modify_kthread t (\<lambda>_. k') (kw_threads s)" and "kw_cpus s' = c"
    and "sc_eprocesses s' = sc_eprocesses s" and "sc_zombies s' = sc_zombies s"
  shows "sched_inv s'"
proof -
  have con: "queues_consistent (kw_threads s) (kw_cpus s)" using assms(1) by (simp add: sched_inv_def)
  have tid: "kt_tid k' = t" using find_kthread_SomeD(2) [OF assms(2)] assms(3) by (simp add: stays_def)
  have "queues_consistent (modify_kthread t (\<lambda>_. k') (kw_threads s)) c"
    using consistent_replace(1) [OF con assms(2) tid assms(4) _ assms(7)] assms(6) by blast
  then show ?thesis using assms(8-11)
    by (intro stay_inv [OF assms(1)]) (simp_all add: same_current_view [OF assms(5)] threads_stay_modify [OF assms(2,3)])
qed

lemma not_queued:
  assumes "sched_inv s" and "find_kthread t (kw_threads s) = Some k" and "kt_state k \<noteq> Ready"
  shows "\<not> queued (kw_cpus s) i t p"
proof
  assume "queued (kw_cpus s) i t p"
  then show False using steal_candidate [of "kw_threads s" "kw_cpus s" i t p] assms by (auto simp: sched_inv_def)
qed

lemma kwait_block_inv:
  assumes "sched_inv s" and "running_on me k s"
  shows "\<exists>s'. kwait_block me r s = Some s' \<and> sched_inv s'"
proof -
  let ?f = "\<lambda>k. k \<lparr> kt_state := Blocked (encode_magic r), kt_waiting_for := Some (encode_magic r) \<rparr>"
  let ?c = "remove_from_run_queue k (kw_cpus s)" and ?t = "kt_tid k"
  have k: "find_kthread ?t (kw_threads s) = Some k" "kt_state k = Running" using assms(2) by (auto simp: running_on_def)
  have wf: "cpus_wf (kw_cpus s)" using assms(1) by (simp add: sched_inv_def queues_consistent)
  note rm = remove_from_run_queue_spec [OF wf, of k]
  have "\<not> queued ?c i ?t p" for i p using not_queued [OF assms(1) k(1), of i p] k(2) rm by auto
  then have "sched_inv (s \<lparr> kw_cpus := ?c, kw_threads := modify_kthread ?t ?f (kw_threads s) \<rparr>)"
    using rm k(2) modify_const [OF k(1), of ?f]
    by (intro replace_inv [OF assms(1) k(1), where k' = "?f k" and c = ?c]) (auto simp: stays_def at_home_def)
  then show ?thesis using running_current(1) [OF assms(2)] k(1) resched_inv by (auto simp: kwait_block_def Let_def)
qed

text \<open>Whatever the tick does to the running thread, it stays the same thread, at its place in the queues.\<close>

lemma tick_running_stays [simp]:
  "stays k (tick_running b k)" "kt_state (tick_running b k) = kt_state k"
  by (auto simp: tick_running_def account_tick_def stays_def Let_def split: option.splits)

lemma running_stays:
  assumes "sched_inv s" and "running_on me k s" and "stays k k1"
  shows "stays k (k1 \<lparr> kt_cpu := of_nat me \<rparr>)"
proof -
  have "unat (kt_cpu k) = me" if "kt_is_idle k"
    using assms(1,2) that find_kthread_SomeD(1) [of "kt_tid k" "kw_threads s" k]
    unfolding idle_ok_def running_on_def sched_inv_def by blast
  then have "kt_cpu k = of_nat me" if "kt_is_idle k" using that word_unat_eq_iff by auto
  then show ?thesis using assms(3) by (simp add: stays_def)
qed

lemma tick_aging_inv:
  assumes "sched_inv s"
  shows "sched_inv (tick_aging me s)" and "cpu_view i (kw_cpus (tick_aging me s)) = cpu_view i (kw_cpus s)"
    and "find_kthread t (kw_threads s) = Some k \<Longrightarrow> kt_state k \<noteq> Ready \<Longrightarrow> find_kthread t (kw_threads (tick_aging me s)) = Some k"
proof -
  let ?s = "s \<lparr> sc_timer_ticks := sc_timer_ticks s + 1 \<rparr>"
  have s: "sched_inv ?s" using assms by simp
  show inv: "sched_inv (tick_aging me s)" and "cpu_view i (kw_cpus (tick_aging me s)) = cpu_view i (kw_cpus s)"
    using ages.pass_inv(1) [OF s, of me] ages.pass_inv(2) [OF s, where i = i] s by (auto simp: tick_aging_def apply_aging_def Let_def case_prod_beta)
  assume k: "find_kthread t (kw_threads s) = Some k" "kt_state k \<noteq> Ready"
  have d: "distinct (tids_of (kw_threads s))" "distinct (tids_of (kw_threads (tick_aging me s)))"
    using assms inv by (auto simp: sched_inv_def queues_consistent)
  have "aged k = k" using k(2) by (simp add: aged_def aging_body_def)
  then have "Some k \<in> set (map (map_option aged) (kw_threads s))" using find_kthread_SomeD(1) [OF k(1)] by force
  then have "Some k \<in> set (kw_threads (tick_aging me s))"
    using find_kthread_SomeD(1) [OF k(1)] for_kthreads_threads [OF aging_body_thread]
    by (auto simp: tick_aging_def apply_aging_def Let_def case_prod_beta)
  then show "find_kthread t (kw_threads (tick_aging me s)) = Some k"
    using find_kthread_SomeD(2) [OF k(1)] by (simp add: find_kthread_iff [OF d(2)])
qed

lemma slice_expired_inv:
  assumes "sched_inv s" and "running_on me k s" and "stays k k1" and "kt_state k1 = Running"
  shows "sched_inv (slice_expired me rsp expose k1 s)"
proof -
  let ?k3 = "(if kprcb_thread_in_self me s then save_live_rsp_checked rsp (k1 \<lparr> kt_yield_requested := False \<rparr>)
    else k1 \<lparr> kt_yield_requested := False, kt_rsp := rsp \<rparr>) \<lparr> kt_cpu := of_nat me \<rparr>"
  let ?c = "enqueue_to_cpu_run_queue me (?k3 \<lparr> kt_state := Ready \<rparr>) (kw_cpus s)"
  have k: "find_kthread (kt_tid k) (kw_threads s) = Some k" "kt_state k = Running" using assms(2) by (auto simp: running_on_def)
  have wf: "cpus_wf (kw_cpus s)" using assms(1) by (simp add: sched_inv_def queues_consistent)
  have "try_per_cpu_tid me (kw_cpus s) \<noteq> None" using assms(2) by (simp add: running_on_def)
  then have me: "unat (of_nat me :: u32) = me"
    using kprcb_page_bound [of me "kw_cpus s"] by (auto simp: try_per_cpu_tid_def MAX_CPUS_def unat_of_nat split: option.splits)
  have st: "stays k ?k3" "kt_state ?k3 = Running" "kt_tid ?k3 = kt_tid k" "kt_tid k1 = kt_tid k"
    using running_stays [OF assms(1,2,3)] assms(3,4) by (auto simp: save_live_rsp_checked_def stays_def)
  have free: "\<not> queued (kw_cpus s) i (kt_tid k) p" for i p using not_queued [OF assms(1) k(1)] k(2) by simp
  note enq = enqueue_spec [OF wf, where me = me and k = "?k3 \<lparr> kt_state := Ready \<rparr>"]
  have home: "at_home (?k3 \<lparr> kt_state := Ready \<rparr>) ?c"
    using enq(4) free st(3) me unfolding at_home_def queue_home_def by fastforce
  show ?thesis
  proof (cases "preempt_disabled me s \<or> \<not> expose")
    case True
    then show ?thesis using st free wf
      by (intro replace_inv [OF assms(1) k(1), where k' = "?k3 \<lparr> kt_time_slice_remaining := time_slice_of (kt_priority ?k3) \<rparr>" and c = "kw_cpus s"])
        (simp_all add: slice_expired_def Let_def at_home_def stays_def)
  next
    case False
    define k4 where "k4 = ?k3 \<lparr> kt_state := Ready \<rparr>"
    define c where "c = (if kt_tid k4 \<noteq> BOOT_TID \<and> \<not> kt_is_idle k4 then enqueue_to_cpu_run_queue me k4 (kw_cpus s) else kw_cpus s)"
    have eq: "slice_expired me rsp expose k1 s = s \<lparr> kw_threads := modify_kthread (kt_tid k) (\<lambda>_. k4) (kw_threads s), kw_cpus := c, kw_need_resched := True \<rparr>"
      using False st(4) unfolding slice_expired_def Let_def k4_def c_def by simp
    have "stays k k4" "kt_tid k4 = kt_tid k" using st k(2) by (auto simp: k4_def stays_def)
    moreover have "at_home k4 c" using home free st(3) by (auto simp: k4_def c_def at_home_def)
    moreover have "cpus_wf c" "same_current (kw_cpus s) c" using enq(1,2) wf by (simp_all add: c_def k4_def)
    moreover have "queued c i u p \<Longrightarrow> queued (kw_cpus s) i u p" if "u \<noteq> kt_tid k" for i u p
      using that enqueue_frame [OF wf, of u k4 me i p] calculation(2) by (simp add: c_def split: if_splits)
    ultimately show ?thesis unfolding eq
      by (intro replace_inv [OF assms(1) k(1), where k' = k4 and c = c]) auto
  qed
qed

lemma on_timer_tick_inv:
  assumes "sched_inv s" and "try_per_cpu_tid me (kw_cpus s) \<noteq> None"
  shows "\<exists>s'. on_timer_tick me rsp cs s = Some s' \<and> sched_inv s'"
proof -
  let ?s = "tick_aging me s"
  note age = tick_aging_inv [OF assms(1), where me = me]
  have ready: "ready_cpu me ?s" using assms age(1,2) by (simp add: ready_cpu_def cpu_view_tid)
  obtain t where t: "try_per_cpu_tid me (kw_cpus ?s) = Some t" "find_kthread t (kw_threads ?s) \<noteq> None"
    using ready_self [OF ready] by (auto simp: kprcb_in_self_iff)
  then obtain k where k: "find_kthread t (kw_threads ?s) = Some k" "kt_tid k = t" using find_kthread_SomeD(2) by fastforce
  have cur: "current_tid_checked me ?s = Some t"
    using t by (auto simp: current_tid_checked_def try_per_cpu_tid_def split: option.splits)
  show ?thesis
  proof (cases "kt_state k = Running")
    case False
    then show ?thesis using cur k age(1) by (simp add: on_timer_tick_def Let_def)
  next
    case True
    then have run: "running_on me k ?s" using t(1) k by (simp add: running_on_def)
    let ?k1 = "tick_running (per_cpu_tick_base me ?s) k"
    have free: "\<not> queued (kw_cpus ?s) i t p" for i p using not_queued [OF age(1) k(1)] True by simp
    have "cpus_wf (kw_cpus ?s)" using age(1) by (simp add: sched_inv_def queues_consistent)
    then have "sched_inv (?s \<lparr> kw_threads := modify_kthread t (\<lambda>_. ?k1) (kw_threads ?s) \<rparr>)"
      using free k(2) tick_running_stays(1) [of k "per_cpu_tick_base me ?s"]
      by (intro replace_inv [OF age(1) k(1), where k' = ?k1 and c = "kw_cpus ?s"]) (auto simp: at_home_def stays_def)
    moreover have "sched_inv (slice_expired me rsp e ?k1 ?s)" for e by (rule slice_expired_inv [OF age(1) run]) (simp_all add: True)
    ultimately show ?thesis using cur k(1) True by (simp add: on_timer_tick_def Let_def)
  qed
qed

section \<open>Exits and kills keep the invariant\<close>

lemma end_thread_ok:
  assumes inv: "sched_inv s" and k: "find_kthread t (kw_threads s) = Some k" and pid: "kt_pid k \<noteq> 0"
  shows "sched_inv (end_thread t s)"
    and "find_kthread u (kw_threads (end_thread t s)) = (if u = t then Some (k \<lparr> kt_state := Terminated \<rparr>) else find_kthread u (kw_threads s))"
    and "live_tids p (kw_threads (end_thread t s)) = live_tids p (kw_threads s) - {t}"
    and "cpu_view i (kw_cpus (end_thread t s)) = cpu_view i (kw_cpus s)"
proof -
  let ?s = "end_thread t s" and ?ts = "kw_threads s" and ?c = "remove_from_run_queue k (kw_cpus s)" and ?k = "k \<lparr> kt_state := Terminated \<rparr>"
  have s': "kw_threads ?s = modify_kthread t (\<lambda>_. ?k) ?ts" "kw_cpus ?s = ?c" "sc_eprocesses ?s = sc_eprocesses s" "sc_zombies ?s = sc_zombies s"
    using k modify_const [OF k, of "\<lambda>k. k \<lparr> kt_state := Terminated \<rparr>"] by (simp_all add: end_thread_def)
  have con: "queues_consistent ?ts (kw_cpus s)" using inv by (simp add: sched_inv_def)
  have tid: "kt_tid k = t" "kt_tid ?k = t" using find_kthread_SomeD(2) [OF k] by simp_all
  have rm: "cpus_wf ?c \<and> same_current (kw_cpus s) ?c \<and>
      (\<forall>i t p. queued ?c i t p \<longleftrightarrow> queued (kw_cpus s) i t p \<and> \<not> (i = unat (kt_cpu k) \<and> t = kt_tid k))"
    using con by (intro remove_from_run_queue_spec) (simp add: queues_consistent)
  have "at_home k (kw_cpus s)" using con find_kthread_SomeD(1) [OF k] by (simp add: queues_consistent_iff)
  then have "\<not> queued ?c i t p" for i p using rm tid(1) by (auto simp: at_home_def queue_home_def)
  then have home: "at_home ?k ?c" using tid(2) by (simp add: at_home_def)
  have frame: "queued ?c i u p \<Longrightarrow> queued (kw_cpus s) i u p" for i u p using rm by blast
  note rep = consistent_replace [OF con k tid(2) conjunct1 [OF rm] frame home, folded s'(1)]
  have con': "queues_consistent (kw_threads ?s) (kw_cpus ?s)" using rep(1) s'(2) by simp
  show find: "find_kthread u (kw_threads ?s) = (if u = t then Some ?k else find_kthread u ?ts)" for u using rep(2) .
  have d: "distinct (tids_of ?ts)" "distinct (tids_of (kw_threads ?s))" using con con' by (auto simp: queues_consistent)
  have mem: "Some x \<in> set (kw_threads ?s) \<longleftrightarrow> x = ?k \<or> (Some x \<in> set ?ts \<and> kt_tid x \<noteq> t)" for x
    using find [of "kt_tid x"] find_kthread_iff [OF d(1), of "kt_tid x" x] find_kthread_iff [OF d(2), of "kt_tid x" x] tid
    by (auto split: if_splits)
  have old: "Some x \<in> set ?ts \<Longrightarrow> kt_tid x = t \<Longrightarrow> x = k" for x using find_kthread_iff [OF d(1), of t x] k by simp
  show view: "cpu_view i (kw_cpus ?s) = cpu_view i (kw_cpus s)" for i using same_current_view rm s'(2) by simp
  then have cur: "try_per_cpu_tid i (kw_cpus ?s) = try_per_cpu_tid i (kw_cpus s)" for i by (simp add: cpu_view_tid)
  show live: "live_tids p (kw_threads ?s) = live_tids p ?ts - {t}" for p unfolding live_tids_def using mem tid by auto
  have k_mem: "Some k \<in> set ?ts" using find_kthread_SomeD(1) [OF k] .
  then have idle: "\<not> kt_is_idle k" using inv pid by (auto simp: sched_inv_def idle_ok_def)
  have "pages_ok (kw_threads ?s) (kw_cpus ?s)" unfolding pages_ok_def view
  proof (intro allI impI)
    fix i u pid assume "cpu_view i (kw_cpus s) = Some (Some u, pid)"
    then obtain x where x: "Some x \<in> set ?ts" "kt_tid x = u" "kt_pid x = pid" using inv unfolding sched_inv_def pages_ok_def by blast
    then show "\<exists>x. Some x \<in> set (kw_threads ?s) \<and> kt_tid x = u \<and> kt_pid x = pid"
      using mem [of x] mem [of ?k] old [of x] tid by (cases "u = t") auto
  qed
  moreover have "Some x \<in> set (kw_threads ?s) \<longleftrightarrow> Some x \<in> set ?ts" if "kt_is_idle x" for x using mem [of x] old [of x] idle that by auto
  then have "idle_ok (kw_threads ?s) (kw_cpus ?s)" using inv unfolding sched_inv_def idle_ok_def cur by blast
  moreover have "zombies_dead (kw_threads ?s) (sc_zombies s)" using inv unfolding sched_inv_def zombies_dead_def mem by auto
  moreover have "counts_ok (kw_threads ?s) (sc_eprocesses s)" unfolding counts_ok_def live
  proof (intro allI impI)
    fix ep assume ep: "Some ep \<in> set (sc_eprocesses s)" "ep_pid ep \<noteq> 0"
    have "card (live_tids (ep_pid ep) ?ts - {t}) \<le> card (live_tids (ep_pid ep) ?ts)" by (rule card_Diff1_le)
    also have "\<dots> \<le> max 1 (unat (ep_thread_count ep))" using inv ep unfolding sched_inv_def counts_ok_def by blast
    finally show "card (live_tids (ep_pid ep) ?ts - {t}) \<le> max 1 (unat (ep_thread_count ep))" .
  qed
  ultimately show "sched_inv ?s" using inv con' s'(3,4) by (simp add: sched_inv_def tables_wf_def queues_consistent exclusive_def cur)
qed

definition no_slot :: "u32 \<Rightarrow> Eprocess option list \<Rightarrow> bool" where
  "no_slot pid eps \<longleftrightarrow> (\<forall>ep. Some ep \<in> set eps \<longrightarrow> ep_pid ep = pid \<longrightarrow> ep_user_slot ep = None)"

lemma defer_reap_inv:
  assumes "sched_inv s" and "pid \<noteq> 0" and "live_tids pid (kw_threads s) = {}" and "no_slot pid (sc_eprocesses s)"
  shows "sched_inv (defer_reap_with_scheduler pid s)" and "cpu_view i (kw_cpus (defer_reap_with_scheduler pid s)) = cpu_view i (kw_cpus s)"
proof -
  have tw: "tables_wf s" using assms(1) by (simp add: sched_inv_def)
  obtain P z where d: "defer_reap_with_scheduler pid s = reclaim P (s \<lparr> sc_zombies := z \<rparr>)" "P \<subseteq> set (sc_zombies s) - {pid}"
      "\<forall>p\<in>P. \<not> is_pid_running_on_any_cpu p (kw_cpus s)" "set z = insert pid (set (sc_zombies s)) - P" "distinct z" "length z < 128"
    using defer_reap_spec [OF tw assms(2)] .
  let ?s = "s \<lparr> sc_zombies := snd (zq_enqueue pid (sc_zombies s)) \<rparr>"
  have q: "set (sc_zombies ?s) = insert pid (set (sc_zombies s))" "distinct (sc_zombies ?s)"
    using assms(2) tw by (auto simp: zq_enqueue_def tables_wf_def)
  have "sched_inv ?s"
    using assms q tw by (auto simp: sched_inv_def tables_wf_def zombies_dead_def live_tids_def slots_ok_def no_slot_def)
  then have "sched_inv (reclaim P (?s \<lparr> sc_zombies := z \<rparr>))" by (rule reclaim_inv(1)) (use d q in auto)
  then show "sched_inv (defer_reap_with_scheduler pid s)" using d(1) by simp
  show "cpu_view i (kw_cpus (defer_reap_with_scheduler pid s)) = cpu_view i (kw_cpus s)" using d(1) by simp
qed

lemma modify_eprocess_map:
  "distinct (pids_of eps) \<Longrightarrow> modify_eprocess pid f eps = map (map_option (\<lambda>ep. if ep_pid ep = pid then f ep else ep)) eps"
proof (induction eps)
  case (Cons e eps)
  have ih: "modify_eprocess pid f eps = map (map_option (\<lambda>ep. if ep_pid ep = pid then f ep else ep)) eps"
    using Cons by (auto simp: pids_of_def)
  show ?case
  proof (cases "has_pid pid e")
    case True
    then obtain ep where e: "e = Some ep" "ep_pid ep = pid" by (auto simp: has_pid_def split: option.splits)
    then have "pid \<notin> set (pids_of eps)" using Cons.prems by (simp add: pids_of_def)
    then have "map_option (\<lambda>ep. if ep_pid ep = pid then f ep else ep) x = x" if "x \<in> set eps" for x
      using that by (cases x) (auto simp: pids_of_mem)
    then show ?thesis using e True by (simp add: modify_eprocess_def map_idI)
  next
    case False
    then show ?thesis using ih by (cases e; cases "position (has_pid pid) eps") (auto simp: modify_eprocess_def has_pid_def)
  qed
qed (simp add: modify_eprocess_def)

lemma modify_eprocess_pids:
  assumes "distinct (pids_of eps)" and "\<And>ep. ep_pid (f ep) = ep_pid ep"
  shows "pids_of (modify_eprocess pid f eps) = pids_of eps"
  unfolding modify_eprocess_map [OF assms(1)] pids_of_def map_map comp_def
  by (rule arg_cong [where f = concat]) (auto simp: assms(2) split: option.splits)

lemma modify_eprocess_mem:
  assumes "distinct (pids_of eps)" and "Some ep' \<in> set (modify_eprocess pid f eps)"
  obtains ep where "Some ep \<in> set eps" and "ep' = (if ep_pid ep = pid then f ep else ep)"
  using assms(2) unfolding modify_eprocess_map [OF assms(1)] by (auto simp: map_option_case split: option.splits)

lemma modify_eprocess_inv:
  assumes "sched_inv s" and "\<And>ep. ep_pid (f ep) = ep_pid ep"
    and "\<And>ep. Some ep \<in> set (sc_eprocesses s) \<Longrightarrow> ep_pid ep = pid \<Longrightarrow> pid \<noteq> 0 \<Longrightarrow>
      card (live_tids pid (kw_threads s)) \<le> max 1 (unat (ep_thread_count (f ep)))"
    and "\<And>ep. Some ep \<in> set (sc_eprocesses s) \<Longrightarrow> ep_pid ep = pid \<Longrightarrow> ep_user_slot (f ep) \<noteq> None \<Longrightarrow>
      ep_user_slot ep \<noteq> None \<and> ep_thread_count (f ep) \<noteq> 0"
  shows "sched_inv (s \<lparr> sc_eprocesses := modify_eprocess pid f (sc_eprocesses s) \<rparr>)"
proof -
  have d: "distinct (pids_of (sc_eprocesses s))" using assms(1) by (simp add: sched_inv_def tables_wf_def)
  note pids = modify_eprocess_pids [OF d, of f pid, OF assms(2)]
  have "counts_ok (kw_threads s) (modify_eprocess pid f (sc_eprocesses s))" unfolding counts_ok_def
  proof (intro allI impI)
    fix ep' assume "Some ep' \<in> set (modify_eprocess pid f (sc_eprocesses s))" and nz: "ep_pid ep' \<noteq> 0"
    then obtain ep where ep: "Some ep \<in> set (sc_eprocesses s)" "ep' = (if ep_pid ep = pid then f ep else ep)"
      using modify_eprocess_mem [OF d] by blast
    show "card (live_tids (ep_pid ep') (kw_threads s)) \<le> max 1 (unat (ep_thread_count ep'))"
    proof (cases "ep_pid ep = pid")
      case True
      then show ?thesis using assms(2) [of ep] assms(3) [OF ep(1) True] ep(2) nz by simp
    next
      case False
      then show ?thesis using assms(1) ep nz unfolding sched_inv_def counts_ok_def by auto
    qed
  qed
  moreover have "slots_ok (modify_eprocess pid f (sc_eprocesses s)) (sc_zombies s)" unfolding slots_ok_def
  proof (intro allI impI)
    fix ep' assume "Some ep' \<in> set (modify_eprocess pid f (sc_eprocesses s))" and slot: "ep_user_slot ep' \<noteq> None"
    then obtain ep where ep: "Some ep \<in> set (sc_eprocesses s)" "ep' = (if ep_pid ep = pid then f ep else ep)"
      using modify_eprocess_mem [OF d] by blast
    then show "ep_thread_count ep' \<noteq> 0 \<and> ep_pid ep' \<notin> set (sc_zombies s)"
      using assms(1,2) assms(4) [OF ep(1)] slot unfolding sched_inv_def slots_ok_def by (metis (full_types))
  qed
  ultimately show ?thesis using assms(1) by (simp add: sched_inv_def tables_wf_def pids)
qed

lemma modify_no_slot:
  assumes "sched_inv s" and "\<And>ep. ep_pid (f ep) = ep_pid ep" and "\<And>ep. ep_user_slot (f ep) = None"
  shows "no_slot pid (modify_eprocess pid f (sc_eprocesses s))"
proof -
  have d: "distinct (pids_of (sc_eprocesses s))" using assms(1) by (simp add: sched_inv_def tables_wf_def)
  show ?thesis unfolding no_slot_def using assms(2,3) modify_eprocess_mem [OF d] by (metis (full_types))
qed

lemma wake_all_on_eprocesses [simp]: "sc_eprocesses (wake_all_on me r s) = sc_eprocesses s"
  by (simp add: wake_all_on_def Let_def case_prod_beta)

lemma end_threads_eprocesses [simp]: "sc_eprocesses (foldl (\<lambda>s tid. end_thread tid s) s tids) = sc_eprocesses s"
  by (induction tids arbitrary: s) (auto simp: end_thread_def split: option.splits)

lemma wake_all_on_live: "live_tids pid (kw_threads (wake_all_on me r s)) = live_tids pid (kw_threads s)"
  using stay_live [OF threads_stay_for [where f = "wake_body me (encode_magic r)"]] wakes.pass_stays
  by (simp add: wake_all_on_def Let_def case_prod_beta)

lemma find_eprocess_SomeD: "find_eprocess pid eps = Some ep \<Longrightarrow> Some ep \<in> set eps \<and> ep_pid ep = pid"
  using position_SomeD [of "has_pid pid" eps] nth_mem by (fastforce simp: find_eprocess_def has_pid_def split: option.splits)

lemma find_eprocess_iff:
  assumes "distinct (pids_of eps)"
  shows "Some ep \<in> set eps \<Longrightarrow> find_eprocess (ep_pid ep) eps = Some ep"
  using assms
proof (induction eps)
  case (Cons e eps)
  then show ?case by (auto simp: find_eprocess_def has_pid_def pids_of_def pids_of_mem split: option.splits)
qed simp

lemma finite_live: "finite (live_tids pid ts)"
proof -
  have "live_tids pid ts \<subseteq> (\<lambda>t. kt_tid (the t)) ` set ts" by (force simp: live_tids_def image_iff)
  then show ?thesis by (rule finite_subset) simp
qed

lemma terminate_current_inv:
  assumes inv: "sched_inv s" and run: "running_on me k s"
  shows "\<exists>r s'. terminate_current me code s = Some (r, s') \<and> sched_inv s'"
proof (cases "kt_tid k = 0 \<or> kt_pid k = 0")
  case True
  then show ?thesis using inv running_current(4) [OF run] by (auto simp: terminate_current_def)
next
  case False
  let ?t = "kt_tid k" and ?p = "kt_pid k"
  let ?s1 = "end_thread ?t s"
  have k: "find_kthread ?t (kw_threads s) = Some k" "kt_state k = Running" using run by (auto simp: running_on_def)
  note et = end_thread_ok [OF inv k(1)]
  have inv1: "sched_inv ?s1" using et(1) False by simp
  have live: "live_tids ?p (kw_threads ?s1) = live_tids ?p (kw_threads s) - {?t}" using et(3) False by simp
  have t: "?t \<in> live_tids ?p (kw_threads s)" using find_kthread_SomeD(1) [OF k(1)] k(2) by (auto simp: live_tids_def)
  have eps: "sc_eprocesses ?s1 = sc_eprocesses s" using k(1) by (simp add: end_thread_def)
  show ?thesis
  proof (cases "find_eprocess ?p (sc_eprocesses ?s1)")
    case None
    then show ?thesis using False running_current(4) [OF run] wake_all_on_inv [OF inv1] by (simp add: terminate_current_def Let_def)
  next
    case (Some ep)
    have ep: "Some ep \<in> set (sc_eprocesses s)" "ep_pid ep = ?p" using find_eprocess_SomeD [OF Some] eps by auto
    let ?n = "saturating_sub (ep_thread_count ep) 1"
    let ?f = "\<lambda>ep. ep \<lparr> ep_thread_count := ?n, ep_exit_code := code, ep_user_slot := (if ?n = 0 then None else ep_user_slot ep) \<rparr>"
    let ?s2 = "?s1 \<lparr> sc_eprocesses := modify_eprocess ?p ?f (sc_eprocesses ?s1) \<rparr>"
    have "card (live_tids ?p (kw_threads s)) \<le> max 1 (unat (ep_thread_count ep))"
      using inv ep False unfolding sched_inv_def counts_ok_def by auto
    then have card: "card (live_tids ?p (kw_threads ?s1)) \<le> unat ?n"
      using t finite_live by (simp add: live unat_saturating_sub card_Diff_singleton)
    have inv2: "sched_inv ?s2" using inv1 card by (intro modify_eprocess_inv) (auto split: if_splits)
    show ?thesis
    proof (cases "?n = 0")
      case True
      let ?s3 = "wake_all_on me (ThreadJoin ?t) (wake_all_on me (ChildExit ?p) ?s2)"
      have "live_tids ?p (kw_threads ?s3) = {}" using card True finite_live by (simp add: wake_all_on_live)
      moreover have "no_slot ?p (sc_eprocesses ?s3)" using modify_no_slot [OF inv1, of ?f] True by simp
      ultimately have "sched_inv (defer_reap_with_scheduler ?p ?s3)" using defer_reap_inv(1) wake_all_on_inv inv2 False by blast
      then show ?thesis using False True Some running_current(4) [OF run] by (simp add: terminate_current_def Let_def)
    next
      case n: False
      then show ?thesis using False Some running_current(4) [OF run] wake_all_on_inv [OF inv2] by (simp add: terminate_current_def Let_def)
    qed
  qed
qed

lemma end_threads_inv:
  assumes "sched_inv s" and "pid \<noteq> 0" and "\<forall>t\<in>set tids. \<forall>k. find_kthread t (kw_threads s) = Some k \<longrightarrow> kt_pid k = pid"
  shows "sched_inv (foldl (\<lambda>s tid. end_thread tid s) s tids) \<and>
    live_tids pid (kw_threads (foldl (\<lambda>s tid. end_thread tid s) s tids)) = live_tids pid (kw_threads s) - set tids"
  using assms
proof (induction tids arbitrary: s)
  case (Cons t tids)
  show ?case
  proof (cases "find_kthread t (kw_threads s)")
    case None
    then have "t \<notin> live_tids pid (kw_threads s)" by (auto simp: live_tids_def find_kthread_None_iff tids_of_mem)
    then show ?thesis using Cons None by (simp add: end_thread_def)
  next
    case (Some k)
    then have "kt_pid k \<noteq> 0" using Cons.prems(2,3) by simp
    note et = end_thread_ok [OF Cons.prems(1) Some this]
    have "\<forall>u\<in>set tids. \<forall>k. find_kthread u (kw_threads (end_thread t s)) = Some k \<longrightarrow> kt_pid k = pid"
      using Cons.prems(3) Some by (auto simp: et(2))
    then show ?thesis using Cons.IH [OF et(1) Cons.prems(2)] by (auto simp: et(3))
  qed
qed simp

lemma kill_pid_inv:
  assumes "sched_inv s" and "is_pid_running_on_any_cpu pid (kw_cpus s)"
  shows "sched_inv (snd (kill_pid pid s))"
proof -
  let ?tids = "thread_tids_for_pid pid (kw_threads s)"
  let ?s1 = "s \<lparr> sc_eprocesses := modify_eprocess pid (\<lambda>ep. ep \<lparr> ep_user_slot := None \<rparr>) (sc_eprocesses s) \<rparr>"
  have d: "distinct (tids_of (kw_threads s))" using assms(1) by (simp add: sched_inv_def queues_consistent)
  have tids: "t \<in> set ?tids \<longleftrightarrow> (\<exists>k. find_kthread t (kw_threads s) = Some k \<and> kt_pid k = pid)" for t
    by (force simp: find_kthread_iff [OF d] thread_tids_for_pid_def split: option.splits if_splits)
  let ?s2 = "foldl (\<lambda>s tid. end_thread tid s) ?s1 ?tids"
  have live: "live_tids pid (kw_threads s) - set ?tids = {}" using tids d by (auto simp: live_tids_def find_kthread_iff)
  show ?thesis
  proof (cases "pid = 0 \<or> pid = 1 \<or> ?tids = []")
    case True
    then show ?thesis using assms(1) by (auto simp: kill_pid_def Let_def)
  next
    case False
    then have "sched_inv ?s1" using assms(1) by (intro modify_eprocess_inv) (auto simp: sched_inv_def counts_ok_def)
    moreover have "\<forall>t\<in>set ?tids. \<forall>k. find_kthread t (kw_threads ?s1) = Some k \<longrightarrow> kt_pid k = pid" using tids by auto
    ultimately have "sched_inv ?s2 \<and> live_tids pid (kw_threads ?s2) = {}" using end_threads_inv [of ?s1 pid ?tids] False live by auto
    moreover have "no_slot pid (sc_eprocesses ?s2)" using modify_no_slot [OF assms(1), of "\<lambda>ep. ep \<lparr> ep_user_slot := None \<rparr>"] by simp
    ultimately have "sched_inv (defer_reap_with_scheduler pid ?s2)" using defer_reap_inv(1) False by blast
    then show ?thesis using False assms(2) by (simp add: kill_pid_def Let_def)
  qed
qed

end
