(* ===== verification/Spawn.thy ===== *)
theory Spawn
  imports SchedOps Bytes
begin

text \<open>
  Creation of threads and processes (scheduler/lifecycle.rs, scheduler/thread.rs) and of the idle thread
  of a CPU (scheduler/schedule.rs), and the proofs that they keep the invariant of the dispatcher.

  Whether a vector can grow, the address of a new kernel stack and the object created for a thread come
  from the allocator and the object manager and are arguments. The slot indexes of pids and tids are
  left out: lookups agree with scans (theory \<open>Threads\<close>).
\<close>

unbundle bit_operations_syntax

section \<open>Slots and new threads\<close>

definition alloc_slot :: "bool \<Rightarrow> 'a option list \<Rightarrow> (nat \<times> 'a option list) option" where
  "alloc_slot reserve xs = (case position Option.is_none xs of
      Some pos \<Rightarrow> Some (pos, xs)
    | None \<Rightarrow> if reserve then Some (length xs, xs @ [None]) else None)"

definition ensure_slots :: "bool \<Rightarrow> bool \<Rightarrow> 'z Sched_scheme \<Rightarrow> (unit, string) result \<times> 'z Sched_scheme" where
  "ensure_slots reserve_ep reserve_th s = (case alloc_slot reserve_ep (sc_eprocesses s) of
      None \<Rightarrow> (Err ''NoMem for eprocess slot'', s)
    | Some (_, eps) \<Rightarrow> (let s1 = s \<lparr> sc_eprocesses := eps \<rparr> in case alloc_slot reserve_th (kw_threads s1) of
        None \<Rightarrow> (Err ''NoMem for kthread slot'', s1)
      | Some (_, ts) \<Rightarrow> (Ok (), s1 \<lparr> kw_threads := ts \<rparr>)))"

abbreviation (input) KERNEL_STACK_SIZE :: u64 where "KERNEL_STACK_SIZE \<equiv> 16384"
abbreviation (input) IDLE_STACK_SIZE :: u64 where "IDLE_STACK_SIZE \<equiv> 4096"
abbreviation (input) AP_STACK_SIZE :: u64 where "AP_STACK_SIZE \<equiv> 16384"

text \<open>
  The first frame of a thread, 20 words written downwards from the aligned top of its kernel stack. The
  memory is outside the state of the scheduler: creation uses the stack pointer, the theorems on what the
  thread starts with use the memory that the frame functions leave.
\<close>

primrec push_words :: "u64 list \<Rightarrow> u64 \<Rightarrow> (u64 \<Rightarrow> u64) \<Rightarrow> u64 \<Rightarrow> u64" where
  "push_words [] sp mem = mem"
| "push_words (w # ws) sp mem = push_words ws (sp - 8) (mem(sp - 8 := w))"

abbreviation (input) init_frame :: "u64 \<Rightarrow> u64" where
  "init_frame kernel_stack_top \<equiv> (kernel_stack_top AND NOT 0xF) - 20 * 8"

definition init_ring0_frame :: "u64 \<Rightarrow> u64 \<Rightarrow> (u64 \<Rightarrow> u64) \<Rightarrow> u64 \<times> (u64 \<Rightarrow> u64)" where
  "init_ring0_frame kernel_stack_top entry mem = (init_frame kernel_stack_top,
     push_words ([0x10, kernel_stack_top, 0x202, 0x08, entry] @ replicate 15 0) (kernel_stack_top AND NOT 0xF) mem)"

definition init_ring3_frame :: "u64 \<Rightarrow> u64 \<Rightarrow> u64 \<Rightarrow> (u64 \<Rightarrow> u64) \<Rightarrow> u64 \<times> (u64 \<Rightarrow> u64)" where
  "init_ring3_frame kernel_stack_top entry user_stack_top mem = (init_frame kernel_stack_top,
     push_words ([0x23, user_stack_top, 0x202, 0x1B, entry] @ replicate 15 0) (kernel_stack_top AND NOT 0xF) mem)"

definition new_ring3_with_stack :: "nat \<Rightarrow> u32 \<Rightarrow> u32 \<Rightarrow> u64 \<Rightarrow> u64 \<Rightarrow> Kthread option" where
  "new_ring3_with_stack me tid pid rsp kernel_stack_top = (if kernel_stack_top = 0 then None
     else Some \<lparr> kt_tid = tid, kt_pid = pid, kt_state = Ready, kt_rsp = rsp, kt_cpu_ticks = 0, kt_cpu_time = 0,
       kt_cpu_time_base = CPU_TIME_UNSET, kt_waiting_for = None, kt_priority = PRIORITY_NORMAL, kt_base_priority = PRIORITY_NORMAL,
       kt_time_slice_remaining = TIME_SLICES ! unat PRIORITY_NORMAL, kt_ticks_since_scheduled = 0,
       kt_kernel_stack_top = kernel_stack_top, kt_kernel_stack_size = KERNEL_STACK_SIZE, kt_kernel_stack = True,
       kt_cpu = of_nat me, kt_obj_id = None, kt_is_idle = False, kt_is_kernel = False, kt_yield_requested = False \<rparr>)"

definition new_idle :: "u32 \<Rightarrow> u32 \<Rightarrow> u64 \<Rightarrow> Kthread" where
  "new_idle tid pid stack_top = \<lparr> kt_tid = tid, kt_pid = pid, kt_state = Ready, kt_rsp = init_frame stack_top, kt_cpu_ticks = 0, kt_cpu_time = 0,
     kt_cpu_time_base = CPU_TIME_UNSET, kt_waiting_for = None, kt_priority = PRIORITY_IDLE, kt_base_priority = PRIORITY_IDLE,
     kt_time_slice_remaining = IDLE_TIME_SLICE, kt_ticks_since_scheduled = 0,
     kt_kernel_stack_top = stack_top, kt_kernel_stack_size = IDLE_STACK_SIZE, kt_kernel_stack = False,
     kt_cpu = 0, kt_obj_id = None, kt_is_idle = True, kt_is_kernel = True, kt_yield_requested = False \<rparr>"

section \<open>Creation\<close>

text \<open>
  A process with its first thread, which stays Suspended until it is activated; \<open>ks_top\<close> is the top of
  the new kernel stack. \<open>None\<close> is the panic of a stack without an address.
\<close>

definition add_ring3_process ::
  "nat \<Rightarrow> bool \<Rightarrow> bool \<Rightarrow> u8 \<Rightarrow> u64 \<Rightarrow> u64 option \<Rightarrow> 'z Sched_scheme \<Rightarrow> ((u32, string) result \<times> 'z Sched_scheme) option" where
  "add_ring3_process me reserve_ep reserve_th slot_idx ks_top thread_obj s = (case alloc_slot reserve_ep (sc_eprocesses s) of
      None \<Rightarrow> Some (Err ''EPROCESS table full'', s)
    | Some (ep_slot, eps) \<Rightarrow> (case alloc_slot reserve_th (kw_threads s) of
        None \<Rightarrow> Some (Err ''KTHREAD table full'', s \<lparr> sc_eprocesses := eps \<rparr>)
      | Some (th_slot, ts) \<Rightarrow>
          (let pid = sc_next_pid s; tid = sc_next_tid s in
           case new_ring3_with_stack me tid pid (init_frame ks_top) ks_top of
             None \<Rightarrow> None
           | Some thread \<Rightarrow> Some (Ok pid, s \<lparr> sc_next_pid := pid + 1, sc_next_tid := tid + 1,
               sc_eprocesses := eps[ep_slot := Some (eprocess_new pid (Some slot_idx) 1)],
               kw_threads := ts[th_slot := Some (thread \<lparr> kt_obj_id := thread_obj, kt_state := Suspended \<rparr>)] \<rparr>))))"

text \<open>The same with everything allocated before: free slots must exist, and the identifiers are taken first.\<close>

definition add_ring3_process_with_stack ::
  "nat \<Rightarrow> u8 \<Rightarrow> u64 \<Rightarrow> u64 \<Rightarrow> u64 option \<Rightarrow> 'z Sched_scheme \<Rightarrow> ((u32, string) result \<times> 'z Sched_scheme) option" where
  "add_ring3_process_with_stack me slot_idx rsp kernel_stack_top thread_obj s =
    (if kernel_stack_top = 0 then Some (Err ''kernel_stack_top is 0'', s)
     else let pid = sc_next_pid s; tid = sc_next_tid s; s1 = s \<lparr> sc_next_pid := pid + 1, sc_next_tid := tid + 1 \<rparr> in
       case new_ring3_with_stack me tid pid rsp kernel_stack_top of
         None \<Rightarrow> None
       | Some thread \<Rightarrow> Some (case position Option.is_none (sc_eprocesses s1) of
           None \<Rightarrow> (Err ''EPROCESS table full (ensure_slots not called or OOM)'', s1)
         | Some ep_slot \<Rightarrow> (case position Option.is_none (kw_threads s1) of
             None \<Rightarrow> (Err ''KTHREAD table full (ensure_slots not called or OOM)'', s1)
           | Some th_slot \<Rightarrow> (Ok pid, s1 \<lparr> sc_eprocesses := (sc_eprocesses s1)[ep_slot := Some (eprocess_new pid (Some slot_idx) 1)],
               kw_threads := (kw_threads s1)[th_slot := Some (thread \<lparr> kt_obj_id := thread_obj, kt_state := Suspended \<rparr>)] \<rparr>))))"

text \<open>One more thread of a process, published at once.\<close>

definition add_thread_to_process ::
  "nat \<Rightarrow> bool \<Rightarrow> u64 \<Rightarrow> u64 option \<Rightarrow> u32 \<Rightarrow> 'z Sched_scheme \<Rightarrow> (u32 option \<times> 'z Sched_scheme) option" where
  "add_thread_to_process me reserve ks_top thread_obj pid s0 =
    (let tid = sc_next_tid s0; s = s0 \<lparr> sc_next_tid := tid + 1 \<rparr> in
     case alloc_slot reserve (kw_threads s) of
       None \<Rightarrow> Some (None, s)
     | Some (th_slot, ts) \<Rightarrow> (case new_ring3_with_stack me tid pid (init_frame ks_top) ks_top of
         None \<Rightarrow> None
       | Some thread \<Rightarrow> Some (let s1 = s \<lparr> kw_threads := ts \<rparr> in
           case find_eprocess pid (sc_eprocesses s1) of
             None \<Rightarrow> (None, s1)
           | Some eproc \<Rightarrow>
               (let s2 = s1 \<lparr> sc_eprocesses := modify_eprocess pid (\<lambda>ep. ep \<lparr> ep_thread_count := ep_thread_count ep + 1 \<rparr>) (sc_eprocesses s1) \<rparr>
                in if ep_user_slot eproc = None then (None, s2)
                   else let (k, c) = make_thread_ready me (thread \<lparr> kt_obj_id := thread_obj, kt_state := Suspended \<rparr>) (kw_cpus s2)
                     in (Some tid, s2 \<lparr> kw_threads := ts[th_slot := Some k], kw_cpus := c \<rparr>)))))"

definition new_kernel_thread :: "u32 \<Rightarrow> u32 \<Rightarrow> u64 \<Rightarrow> u8 \<Rightarrow> Kthread" where
  "new_kernel_thread tid pid ks_top priority =
    \<lparr> kt_tid = tid, kt_pid = pid, kt_state = Suspended, kt_rsp = init_frame ks_top, kt_cpu_ticks = 0, kt_cpu_time = 0,
      kt_cpu_time_base = CPU_TIME_UNSET, kt_waiting_for = None, kt_priority = priority, kt_base_priority = priority,
      kt_time_slice_remaining = TIME_SLICES ! unat priority, kt_ticks_since_scheduled = 0,
      kt_kernel_stack_top = ks_top, kt_kernel_stack_size = KERNEL_STACK_SIZE, kt_kernel_stack = True,
      kt_cpu = 0, kt_obj_id = None, kt_is_idle = False, kt_is_kernel = True, kt_yield_requested = False \<rparr>"

text \<open>A kernel thread in a process of its own; \<open>None\<close> is the panic for a priority outside the table.\<close>

definition spawn_kthread_named ::
  "nat \<Rightarrow> bool \<Rightarrow> bool \<Rightarrow> u64 \<Rightarrow> u8 \<Rightarrow> 'z Sched_scheme \<Rightarrow> (u32 option \<times> 'z Sched_scheme) option" where
  "spawn_kthread_named me reserve_th reserve_ep ks_top priority s0 = (case alloc_slot reserve_th (kw_threads s0) of
      None \<Rightarrow> Some (None, s0)
    | Some (th_slot, ts) \<Rightarrow>
        (let tid = sc_next_tid s0; pid = sc_next_pid s0; s = s0 \<lparr> sc_next_tid := tid + 1, kw_threads := ts \<rparr> in
         if priority \<ge> PRIORITY_COUNT then None
         else let kthread = new_kernel_thread tid pid ks_top priority
           in case alloc_slot reserve_ep (sc_eprocesses s) of
             None \<Rightarrow> Some (None, s)
           | Some (ep_slot, eps) \<Rightarrow> Some (let (k, c) = make_thread_ready me kthread (kw_cpus s) in
               (Some tid, s \<lparr> sc_eprocesses := eps[ep_slot := Some (eprocess_new pid None 0)], sc_next_pid := pid + 1,
                  kw_threads := ts[th_slot := Some k], kw_cpus := c \<rparr>))))"

text \<open>The idle thread of a CPU that comes up, on a stack it already has.\<close>

definition register_ap_idle :: "bool \<Rightarrow> u32 \<Rightarrow> u64 \<Rightarrow> 'z Sched_scheme \<Rightarrow> u32 option \<times> 'z Sched_scheme" where
  "register_ap_idle reserve cpu stack_top s =
    (if stack_top < 4096 then (None, s)
     else case find_idle_ptr (unat cpu) (kw_threads s) of
       Some tid \<Rightarrow> (Some tid, s)
     | None \<Rightarrow> (case alloc_slot reserve (kw_threads s) of
         None \<Rightarrow> (None, s)
       | Some (th_slot, ts) \<Rightarrow>
           (let tid = sc_next_tid s;
                frame_top = saturating_sub stack_top 4096;
                span = max (saturating_sub frame_top (saturating_sub stack_top AP_STACK_SIZE)) 1;
                idle = (new_idle tid 0 frame_top) \<lparr> kt_kernel_stack_size := span, kt_cpu := cpu, kt_state := Running \<rparr>
            in (Some tid, s \<lparr> sc_next_tid := tid + 1, kw_threads := ts[th_slot := Some idle] \<rparr>))))"

definition mark_handoff_target_running :: "u32 \<Rightarrow> 'z Sched_scheme \<Rightarrow> bool \<times> 'z Sched_scheme" where
  "mark_handoff_target_running target_tid s = (case find_kthread target_tid (kw_threads s) of
      Some k \<Rightarrow> (True, s \<lparr> kw_threads := modify_kthread target_tid (\<lambda>k. k \<lparr> kt_state := Running \<rparr>) (kw_threads s) \<rparr>)
    | None \<Rightarrow> (False, s))"

section \<open>A new entry in a free slot\<close>

lemma alloc_slot_spec:
  assumes "alloc_slot r xs = Some (i, ys)"
  shows "i < length ys" and "ys ! i = None" and "ys = xs \<or> ys = xs @ [None]"
  using assms position_SomeD [of Option.is_none xs] by (auto simp: alloc_slot_def Option.is_none_def split: option.splits if_splits)

lemma put_split:
  assumes "i < length ys" and "ys ! i = None"
  obtains as bs where "ys = as @ None # bs" and "ys[i := Some x] = as @ Some x # bs"
  using assms by (metis id_take_nth_drop upd_conv_take_nth_drop)

text \<open>The table \<open>ys\<close> is \<open>xs\<close>, possibly with one more free slot, and \<open>zs\<close> holds the new entry in a free slot.\<close>

definition put_in :: "'a option list \<Rightarrow> 'a \<Rightarrow> 'a option list \<Rightarrow> bool" where
  "put_in xs x zs \<longleftrightarrow> (\<exists>ys i. (ys = xs \<or> ys = xs @ [None]) \<and> i < length ys \<and> ys ! i = None \<and> zs = ys[i := Some x])"

lemma put_in_alloc: "alloc_slot r xs = Some (i, ys) \<Longrightarrow> put_in xs x (ys[i := Some x])"
  unfolding put_in_def using alloc_slot_spec [of r xs i ys] by (intro exI [of _ ys] exI [of _ i]) simp

lemma put_in_position: "position Option.is_none xs = Some i \<Longrightarrow> put_in xs x (xs[i := Some x])"
  unfolding put_in_def using position_SomeD [of Option.is_none xs i] by (intro exI [of _ xs] exI [of _ i]) (simp add: is_none_code(1) Option.is_none_def split: option.splits)

lemma put_in_split:
  assumes "put_in xs x zs"
  obtains as bs where "xs = as @ None # bs \<or> xs @ [None] = as @ None # bs" and "zs = as @ Some x # bs"
  using assms put_split unfolding put_in_def by metis

lemma put_in_mem: "put_in xs x zs \<Longrightarrow> Some y \<in> set zs \<longleftrightarrow> Some y \<in> set xs \<or> y = x"
proof -
  assume "put_in xs x zs"
  then obtain as bs where "xs = as @ None # bs \<or> xs @ [None] = as @ None # bs" "zs = as @ Some x # bs" by (rule put_in_split)
  then have "set zs \<union> {None} = insert (Some x) (set xs) \<union> {None}" by (auto dest!: arg_cong [where f = set])
  then show ?thesis by blast
qed

lemma put_in_tids:
  assumes "put_in ts k ts'" and "distinct (tids_of ts)" and "\<And>k0. Some k0 \<in> set ts \<Longrightarrow> kt_tid k0 \<noteq> kt_tid k"
  shows "distinct (tids_of ts')"
proof -
  obtain as bs where s: "ts = as @ None # bs \<or> ts @ [None] = as @ None # bs" "ts' = as @ Some k # bs" using put_in_split [OF assms(1)] .
  have "tids_of (ts @ [None]) = tids_of ts" by (simp add: tids_of_def)
  then have "tids_of ts = tids_of (as @ None # bs)" using s(1) by metis
  then have "tids_of ts = tids_of as @ tids_of bs" by (simp add: tids_of_def)
  moreover have "kt_tid k \<notin> set (tids_of ts)" using assms(3) by (auto simp: tids_of_mem)
  ultimately show ?thesis using assms(2) s(2) by (auto simp: tids_of_def)
qed

lemma put_in_pids:
  assumes "put_in eps ep eps'" and "distinct (pids_of eps)" and "\<And>ep0. Some ep0 \<in> set eps \<Longrightarrow> ep_pid ep0 \<noteq> ep_pid ep"
  shows "distinct (pids_of eps')"
proof -
  obtain as bs where s: "eps = as @ None # bs \<or> eps @ [None] = as @ None # bs" "eps' = as @ Some ep # bs" using put_in_split [OF assms(1)] .
  have "pids_of (eps @ [None]) = pids_of eps" by (simp add: pids_of_def)
  then have "pids_of eps = pids_of (as @ None # bs)" using s(1) by metis
  then have "pids_of eps = pids_of as @ pids_of bs" by (simp add: pids_of_def)
  moreover have "ep_pid ep \<notin> set (pids_of eps)" using assms(3) by (auto simp: pids_of_mem)
  ultimately show ?thesis using assms(2) s(2) by (auto simp: pids_of_def)
qed

section \<open>Creation keeps the invariant\<close>

lemma new_thread_inv:
  assumes inv: "sched_inv s" and put: "put_in (kw_threads s) k (kw_threads s')"
    and new: "\<And>k0. Some k0 \<in> set (kw_threads s) \<Longrightarrow> kt_tid k0 \<noteq> kt_tid k"
    and c: "cpus_wf (kw_cpus s')" "same_current (kw_cpus s) (kw_cpus s')" "at_home k (kw_cpus s')"
      "\<And>i u p. u \<noteq> kt_tid k \<Longrightarrow> queued (kw_cpus s') i u p \<Longrightarrow> queued (kw_cpus s) i u p"
    and k: "kt_is_idle k \<Longrightarrow> kt_pid k = 0" "kt_state k \<noteq> Terminated" "kt_pid k \<notin> set (sc_zombies s)"
    and e: "sc_zombies s' = sc_zombies s" "distinct (pids_of (sc_eprocesses s'))" "counts_ok (kw_threads s') (sc_eprocesses s')"
      "slots_ok (sc_eprocesses s') (sc_zombies s)"
  shows "sched_inv s'"
proof -
  note mem = put_in_mem [OF put]
  have con: "queues_consistent (kw_threads s) (kw_cpus s)" using inv by (simp add: sched_inv_def)
  then have d: "distinct (tids_of (kw_threads s'))" using put_in_tids [OF put _ new] by (simp add: queues_consistent)
  have "queues_consistent (kw_threads s') (kw_cpus s')" unfolding queues_consistent
  proof (intro conjI allI impI c(1) d)
    fix i t p assume q: "queued (kw_cpus s') i t p"
    show "\<exists>k. Some k \<in> set (kw_threads s') \<and> kt_tid k = t \<and> queue_home k i p"
    proof (cases "t = kt_tid k")
      case True
      then show ?thesis using c(3) q mem by (auto simp: at_home_def)
    next
      case False
      then show ?thesis using c(4) [OF False q] con mem unfolding queues_consistent by blast
    qed
  qed
  moreover have view: "cpu_view i (kw_cpus s') = cpu_view i (kw_cpus s)" for i using same_current_view [OF c(2)] .
  have tid: "try_per_cpu_tid i (kw_cpus s') = try_per_cpu_tid i (kw_cpus s)" for i using same_current_tid [OF c(2)] .
  have "pages_ok (kw_threads s') (kw_cpus s')" using inv unfolding sched_inv_def pages_ok_def view mem by blast
  moreover have "try_per_cpu_tid i (kw_cpus s) \<noteq> Some (kt_tid k)" for i
    using inv new unfolding sched_inv_def pages_ok_def cpu_view_tid by (auto split: option.splits) (metis surj_pair)
  then have "idle_ok (kw_threads s') (kw_cpus s')" using inv k(1,2) unfolding sched_inv_def idle_ok_def tid mem by blast
  moreover have "zombies_dead (kw_threads s') (sc_zombies s')" using inv k(3) e(1) unfolding sched_inv_def zombies_dead_def mem by metis
  moreover have "exclusive (kw_cpus s')" using inv unfolding sched_inv_def exclusive_def tid by blast
  ultimately show ?thesis using inv d e by (simp add: sched_inv_def tables_wf_def)
qed

text \<open>The next identifiers are in use nowhere. The counters only grow, so this holds until they wrap around.\<close>

definition fresh_ids :: "'z Sched_scheme \<Rightarrow> bool" where
  "fresh_ids s \<longleftrightarrow> (\<forall>k. Some k \<in> set (kw_threads s) \<longrightarrow> kt_tid k \<noteq> sc_next_tid s \<and> kt_pid k \<noteq> sc_next_pid s) \<and>
     (\<forall>ep. Some ep \<in> set (sc_eprocesses s) \<longrightarrow> ep_pid ep \<noteq> sc_next_pid s) \<and> sc_next_pid s \<notin> set (sc_zombies s)"

lemma sched_inv_ids [simp]: "sched_inv (s \<lparr> sc_next_tid := t \<rparr>) = sched_inv s" "sched_inv (s \<lparr> sc_next_pid := p \<rparr>) = sched_inv s"
  by (simp_all add: sched_inv_def tables_wf_def)

lemma grow_inv:
  assumes "sched_inv s"
  shows "alloc_slot r (kw_threads s) = Some (i, ts) \<Longrightarrow> sched_inv (s \<lparr> kw_threads := ts \<rparr>)"
    and "alloc_slot r (sc_eprocesses s) = Some (j, eps) \<Longrightarrow> sched_inv (s \<lparr> sc_eprocesses := eps \<rparr>)"
proof -
  assume "alloc_slot r (kw_threads s) = Some (i, ts)"
  then have "ts = kw_threads s \<or> ts = kw_threads s @ [None]" by (rule alloc_slot_spec(3))
  then have "tids_of ts = tids_of (kw_threads s)" and mem: "\<And>k. Some k \<in> set ts \<longleftrightarrow> Some k \<in> set (kw_threads s)" by (auto simp: tids_of_def)
  moreover have "threads_stay (kw_threads s) ts" unfolding threads_stay_def mem using stays_refl by blast
  ultimately show "sched_inv (s \<lparr> kw_threads := ts \<rparr>)"
    using assms by (intro stay_inv [OF assms]) (simp_all add: sched_inv_def queues_consistent)
next
  assume "alloc_slot r (sc_eprocesses s) = Some (j, eps)"
  then have "eps = sc_eprocesses s \<or> eps = sc_eprocesses s @ [None]" by (rule alloc_slot_spec(3))
  then have "pids_of eps = pids_of (sc_eprocesses s)" and mem: "\<And>ep. Some ep \<in> set eps \<longleftrightarrow> Some ep \<in> set (sc_eprocesses s)" by (auto simp: pids_of_def)
  then show "sched_inv (s \<lparr> sc_eprocesses := eps \<rparr>)"
    using assms by (simp add: sched_inv_def tables_wf_def counts_ok_def slots_ok_def mem)
qed

lemma live_put: "put_in ts k ts' \<Longrightarrow>
    live_tids p ts' = live_tids p ts \<union> (if kt_pid k = p \<and> kt_state k \<noteq> Terminated then {kt_tid k} else {})"
  by (auto simp: live_tids_def put_in_mem)

lemma new_process_inv:
  assumes inv: "sched_inv s" and fresh: "fresh_ids s"
    and put: "put_in (kw_threads s) k (kw_threads s')" "put_in (sc_eprocesses s) ep (sc_eprocesses s')"
    and ids: "kt_tid k = sc_next_tid s" "kt_pid k = sc_next_pid s" "ep_pid ep = sc_next_pid s"
    and k: "\<not> kt_is_idle k" "kt_state k \<noteq> Terminated" "ep_user_slot ep \<noteq> None \<Longrightarrow> ep_thread_count ep \<noteq> 0"
    and c: "cpus_wf (kw_cpus s')" "same_current (kw_cpus s) (kw_cpus s')" "at_home k (kw_cpus s')"
      "\<And>i u p. u \<noteq> kt_tid k \<Longrightarrow> queued (kw_cpus s') i u p \<Longrightarrow> queued (kw_cpus s) i u p"
    and z: "sc_zombies s' = sc_zombies s"
  shows "sched_inv s'"
proof (rule new_thread_inv [OF inv put(1) _ c])
  note mem = put_in_mem [OF put(2)] and live = live_put [OF put(1)]
  show "kt_tid k0 \<noteq> kt_tid k" if "Some k0 \<in> set (kw_threads s)" for k0 using fresh that ids by (auto simp: fresh_ids_def)
  show "distinct (pids_of (sc_eprocesses s'))"
    using inv fresh ids by (intro put_in_pids [OF put(2)]) (auto simp: sched_inv_def tables_wf_def fresh_ids_def)
  have none: "live_tids (sc_next_pid s) (kw_threads s) = {}" using fresh by (auto simp: live_tids_def fresh_ids_def)
  have old: "card (live_tids (ep_pid ep') (kw_threads s)) \<le> max 1 (unat (ep_thread_count ep'))"
    if "Some ep' \<in> set (sc_eprocesses s)" "ep_pid ep' \<noteq> 0" for ep' using inv that by (simp add: sched_inv_def counts_ok_def)
  show "counts_ok (kw_threads s') (sc_eprocesses s')" unfolding counts_ok_def mem
  proof (intro allI impI)
    fix ep' assume ep': "Some ep' \<in> set (sc_eprocesses s) \<or> ep' = ep" "ep_pid ep' \<noteq> 0"
    show "card (live_tids (ep_pid ep') (kw_threads s')) \<le> max 1 (unat (ep_thread_count ep'))"
    proof (cases "ep_pid ep' = sc_next_pid s")
      case True
      then show ?thesis using none by (simp add: live)
    next
      case False
      then show ?thesis using old ep' ids by (auto simp: live)
    qed
  qed
  show "slots_ok (sc_eprocesses s') (sc_zombies s)"
    using inv fresh k(3) ids(3) by (auto simp: slots_ok_def mem sched_inv_def fresh_ids_def)
qed (use fresh k ids z in \<open>auto simp: fresh_ids_def\<close>)

lemma suspended_home: "kt_state k \<noteq> Ready \<Longrightarrow> sched_inv s \<Longrightarrow> (\<And>k0. Some k0 \<in> set (kw_threads s) \<Longrightarrow> kt_tid k0 \<noteq> kt_tid k) \<Longrightarrow>
    at_home k (kw_cpus s)"
  unfolding at_home_def sched_inv_def queues_consistent by blast

lemma add_ring3_process_inv:
  assumes inv: "sched_inv s" and fresh: "fresh_ids s" and add: "add_ring3_process me re rt slot ks_top obj s = Some (r, s')"
  shows "sched_inv s'"
proof (cases "alloc_slot re (sc_eprocesses s)")
  case None
  then show ?thesis using inv add by (simp add: add_ring3_process_def)
next
  case (Some a)
  then obtain i eps where ep: "alloc_slot re (sc_eprocesses s) = Some (i, eps)" by (cases a) simp
  show ?thesis
  proof (cases "alloc_slot rt (kw_threads s)")
    case None
    then show ?thesis using grow_inv(2) [OF inv ep] ep add by (simp add: add_ring3_process_def)
  next
    case (Some b)
    then obtain j ts where th: "alloc_slot rt (kw_threads s) = Some (j, ts)" by (cases b) simp
    obtain k0 where k0: "new_ring3_with_stack me (sc_next_tid s) (sc_next_pid s) (init_frame ks_top) ks_top = Some k0"
      using add ep th by (auto simp: add_ring3_process_def Let_def split: option.splits)
    let ?k = "k0 \<lparr> kt_obj_id := obj, kt_state := Suspended \<rparr>" and ?ep = "eprocess_new (sc_next_pid s) (Some slot) 1"
    have s': "s' = s \<lparr> sc_next_pid := sc_next_pid s + 1, sc_next_tid := sc_next_tid s + 1, sc_eprocesses := eps[i := Some ?ep], kw_threads := ts[j := Some ?k] \<rparr>"
      using add ep th k0 by (simp add: add_ring3_process_def Let_def)
    have k: "kt_tid ?k = sc_next_tid s" "kt_pid ?k = sc_next_pid s" "\<not> kt_is_idle ?k"
      using k0 by (auto simp: new_ring3_with_stack_def split: if_splits)
    then have "at_home ?k (kw_cpus s)" using inv fresh by (intro suspended_home) (auto simp: fresh_ids_def)
    then show ?thesis using inv k
      by (intro new_process_inv [OF inv fresh, where k = ?k and ep = ?ep])
        (auto simp: s' put_in_alloc [OF ep] put_in_alloc [OF th] eprocess_new_def sched_inv_def queues_consistent)
  qed
qed

lemma add_ring3_process_with_stack_inv:
  assumes inv: "sched_inv s" and fresh: "fresh_ids s" and add: "add_ring3_process_with_stack me slot rsp ks_top obj s = Some (r, s')"
  shows "sched_inv s'"
proof (cases "ks_top = 0 \<or> position Option.is_none (sc_eprocesses s) = None \<or> position Option.is_none (kw_threads s) = None")
  case True
  then show ?thesis using inv add by (auto simp: add_ring3_process_with_stack_def Let_def split: option.splits if_splits)
next
  case False
  then obtain i j where ep: "position Option.is_none (sc_eprocesses s) = Some i" and th: "position Option.is_none (kw_threads s) = Some j" by auto
  obtain k0 where k0: "new_ring3_with_stack me (sc_next_tid s) (sc_next_pid s) rsp ks_top = Some k0"
    using False by (auto simp: new_ring3_with_stack_def)
  let ?k = "k0 \<lparr> kt_obj_id := obj, kt_state := Suspended \<rparr>" and ?ep = "eprocess_new (sc_next_pid s) (Some slot) 1"
  have s': "s' = s \<lparr> sc_next_pid := sc_next_pid s + 1, sc_next_tid := sc_next_tid s + 1,
      sc_eprocesses := (sc_eprocesses s)[i := Some ?ep], kw_threads := (kw_threads s)[j := Some ?k] \<rparr>"
    using add ep th k0 False by (simp add: add_ring3_process_with_stack_def Let_def)
  have k: "kt_tid ?k = sc_next_tid s" "kt_pid ?k = sc_next_pid s" "\<not> kt_is_idle ?k"
    using k0 by (auto simp: new_ring3_with_stack_def split: if_splits)
  then have "at_home ?k (kw_cpus s)" using inv fresh by (intro suspended_home) (auto simp: fresh_ids_def)
  then show ?thesis using inv k
    by (intro new_process_inv [OF inv fresh, where k = ?k and ep = ?ep])
      (auto simp: s' put_in_position [OF ep] put_in_position [OF th] eprocess_new_def sched_inv_def queues_consistent)
qed

text \<open>Publishing a new thread: it is queued at home, and nothing else moves.\<close>

lemma publish_new:
  assumes inv: "sched_inv s" and "\<And>k0. Some k0 \<in> set (kw_threads s) \<Longrightarrow> kt_tid k0 \<noteq> kt_tid k" and "kt_state k = Suspended"
  shows "cpus_wf (snd (make_thread_ready me k (kw_cpus s)))" and "same_current (kw_cpus s) (snd (make_thread_ready me k (kw_cpus s)))"
    and "at_home (fst (make_thread_ready me k (kw_cpus s))) (snd (make_thread_ready me k (kw_cpus s)))"
    and "u \<noteq> kt_tid k \<Longrightarrow> queued (snd (make_thread_ready me k (kw_cpus s))) i u p \<Longrightarrow> queued (kw_cpus s) i u p"
    and "kt_pid (fst (make_thread_ready me k (kw_cpus s))) = kt_pid k" and "kt_is_idle (fst (make_thread_ready me k (kw_cpus s))) = kt_is_idle k"
    and "kt_state (fst (make_thread_ready me k (kw_cpus s))) = Ready"
proof -
  have wf: "cpus_wf (kw_cpus s)" using inv by (simp add: sched_inv_def queues_consistent)
  have "at_home k (kw_cpus s)" using suspended_home [OF _ inv assms(2)] assms(3) by simp
  then show "at_home (fst (make_thread_ready me k (kw_cpus s))) (snd (make_thread_ready me k (kw_cpus s)))"
    by (rule make_thread_ready_home [OF wf])
  show "cpus_wf (snd (make_thread_ready me k (kw_cpus s)))" "same_current (kw_cpus s) (snd (make_thread_ready me k (kw_cpus s)))"
    using make_thread_ready_wf [OF wf] make_thread_ready_current [OF wf] by auto
  show "u \<noteq> kt_tid k \<Longrightarrow> queued (snd (make_thread_ready me k (kw_cpus s))) i u p \<Longrightarrow> queued (kw_cpus s) i u p"
    using make_thread_ready_frame [OF wf] by blast
qed (use assms(3) in \<open>simp_all add: make_thread_ready_def Let_def\<close>)

lemma spawn_kthread_inv:
  assumes inv: "sched_inv s" and fresh: "fresh_ids s" and add: "spawn_kthread_named me rt re ks_top priority s = Some (r, s')"
  shows "sched_inv s'"
proof (cases "alloc_slot rt (kw_threads s)")
  case None
  then show ?thesis using inv add by (simp add: spawn_kthread_named_def)
next
  case (Some a)
  then obtain j ts where th: "alloc_slot rt (kw_threads s) = Some (j, ts)" by (cases a) simp
  note grown = grow_inv(1) [OF inv th]
  show ?thesis
  proof (cases "alloc_slot re (sc_eprocesses s)")
    case None
    then have "s' = s \<lparr> sc_next_tid := sc_next_tid s + 1, kw_threads := ts \<rparr>"
      using add th by (simp add: spawn_kthread_named_def Let_def split: if_splits)
    then show ?thesis using grown by (simp add: sched_inv_def tables_wf_def)
  next
    case (Some b)
    then obtain i eps where ep: "alloc_slot re (sc_eprocesses s) = Some (i, eps)" by (cases b) simp
    let ?ep = "eprocess_new (sc_next_pid s) None 0"
    define k where "k = new_kernel_thread (sc_next_tid s) (sc_next_pid s) ks_top priority"
    have k: "kt_tid k = sc_next_tid s" "kt_pid k = sc_next_pid s" "\<not> kt_is_idle k" "kt_state k = Suspended"
      by (simp_all add: k_def new_kernel_thread_def)
    have s': "s' = s \<lparr> sc_next_tid := sc_next_tid s + 1, sc_eprocesses := eps[i := Some ?ep], sc_next_pid := sc_next_pid s + 1,
        kw_threads := ts[j := Some (fst (make_thread_ready me k (kw_cpus s)))], kw_cpus := snd (make_thread_ready me k (kw_cpus s)) \<rparr>"
      using add th ep by (simp add: spawn_kthread_named_def k_def [symmetric] Let_def case_prod_beta split: if_splits)
    have "kt_tid k0 \<noteq> kt_tid k" if "Some k0 \<in> set (kw_threads s)" for k0 using fresh that k(1) by (auto simp: fresh_ids_def)
    note pub = publish_new [OF inv this k(4), where me = me]
    show ?thesis using k pub
      by (intro new_process_inv [OF inv fresh, where k = "fst (make_thread_ready me k (kw_cpus s))" and ep = ?ep])
        (auto simp: s' put_in_alloc [OF ep] put_in_alloc [OF th] eprocess_new_def)
  qed
qed

lemma register_ap_idle_inv:
  assumes inv: "sched_inv s" and fresh: "fresh_ids s"
  shows "sched_inv (snd (register_ap_idle r cpu stk s))"
proof (cases "stk < 4096 \<or> find_idle_ptr (unat cpu) (kw_threads s) \<noteq> None \<or> alloc_slot r (kw_threads s) = None")
  case True
  then show ?thesis using inv by (auto simp: register_ap_idle_def split: option.splits)
next
  case False
  then obtain j ts where th: "alloc_slot r (kw_threads s) = Some (j, ts)" by auto
  define k where "k = (new_idle (sc_next_tid s) 0 (saturating_sub stk 4096)) \<lparr> kt_kernel_stack_size :=
      max (saturating_sub (saturating_sub stk 4096) (saturating_sub stk 16384)) 1, kt_cpu := cpu, kt_state := Running \<rparr>"
  have k: "kt_tid k = sc_next_tid s" "kt_pid k = 0" "kt_is_idle k" "kt_state k = Running" by (simp_all add: k_def new_idle_def)
  have s': "snd (register_ap_idle r cpu stk s) = s \<lparr> sc_next_tid := sc_next_tid s + 1, kw_threads := ts[j := Some k] \<rparr>" (is "?s' = _")
    using False th by (simp add: register_ap_idle_def k_def Let_def)
  have new: "kt_tid k0 \<noteq> kt_tid k" if "Some k0 \<in> set (kw_threads s)" for k0 using fresh that k(1) by (auto simp: fresh_ids_def)
  have "at_home k (kw_cpus s)" using suspended_home [OF _ inv new] k(4) by simp
  moreover have "counts_ok (kw_threads ?s') (sc_eprocesses ?s')"
    using inv k(2) live_put [OF put_in_alloc [OF th, of k]] by (simp add: s' sched_inv_def counts_ok_def)
  ultimately show ?thesis using inv k
    by (intro new_thread_inv [OF inv _ new])
      (auto simp: s' put_in_alloc [OF th] sched_inv_def queues_consistent tables_wf_def)
qed

lemma ensure_slots_inv: "sched_inv s \<Longrightarrow> sched_inv (snd (ensure_slots re rt s))"
  using grow_inv(2) [of s re] grow_inv(1) [of "s \<lparr> sc_eprocesses := _ \<rparr>" rt]
  by (auto simp: ensure_slots_def Let_def split: option.splits)

lemma mark_handoff_inv:
  assumes inv: "sched_inv s" and k: "find_kthread t (kw_threads s) = Some k" "kt_state k = Suspended"
  shows "sched_inv (snd (mark_handoff_target_running t s))"
proof -
  have wf: "cpus_wf (kw_cpus s)" using inv by (simp add: sched_inv_def queues_consistent)
  let ?k = "k \<lparr> kt_state := Running \<rparr>"
  have "\<not> queued (kw_cpus s) i t p" for i p using not_queued [OF inv k(1)] k(2) by simp
  then have "at_home ?k (kw_cpus s)" using find_kthread_SomeD(2) [OF k(1)] by (simp add: at_home_def)
  then show ?thesis using wf k modify_const [OF k(1), of "\<lambda>k. k \<lparr> kt_state := Running \<rparr>"]
    by (intro replace_inv [OF inv k(1), where k' = ?k and c = "kw_cpus s"]) (auto simp: mark_handoff_target_running_def stays_def)
qed

text \<open>The count of a process without a user slot grows although no thread is added.\<close>

lemma uncounted_inv:
  assumes inv: "sched_inv s" and ep: "find_eprocess pid (sc_eprocesses s) = Some ep" "ep_user_slot ep = None" "ep_thread_count ep \<noteq> 0xFFFFFFFF"
  shows "sched_inv (s \<lparr> sc_eprocesses := modify_eprocess pid (\<lambda>ep. ep \<lparr> ep_thread_count := ep_thread_count ep + 1 \<rparr>) (sc_eprocesses s) \<rparr>)"
proof -
  have uniq: "e = ep" if "Some e \<in> set (sc_eprocesses s)" "ep_pid e = pid" for e
    using find_eprocess_iff [of "sc_eprocesses s" e] that ep(1) inv by (simp add: sched_inv_def tables_wf_def)
  have "unat (ep_thread_count ep) < 0xFFFFFFFF"
    using ep(3) unat_bound [of "ep_thread_count ep"] by (simp add: word_unat_eq_iff [of _ "0xFFFFFFFF"])
  then have "unat (ep_thread_count ep + 1) = Suc (unat (ep_thread_count ep))" by (intro unat_Suc_small) simp
  moreover have "card (live_tids pid (kw_threads s)) \<le> max 1 (unat (ep_thread_count ep))" if "pid \<noteq> 0"
    using inv that find_eprocess_SomeD [OF ep(1)] by (auto simp: sched_inv_def counts_ok_def)
  ultimately show ?thesis using uniq ep(2) by (intro modify_eprocess_inv [OF inv]) fastforce+
qed

text \<open>One more thread of a process that has a user slot, and one more in its count.\<close>

lemma counted_thread:
  assumes inv: "sched_inv s" and put: "put_in (kw_threads s) k ts'" and ep: "find_eprocess pid (sc_eprocesses s) = Some ep"
    and k: "kt_pid k = pid" "kt_state k \<noteq> Terminated" and slot: "ep_user_slot ep \<noteq> None" and count: "ep_thread_count ep \<noteq> 0xFFFFFFFF"
  defines "eps' \<equiv> modify_eprocess pid (\<lambda>ep. ep \<lparr> ep_thread_count := ep_thread_count ep + 1 \<rparr>) (sc_eprocesses s)"
  shows "counts_ok ts' eps'" and "slots_ok eps' (sc_zombies s)" and "pid \<notin> set (sc_zombies s)"
proof -
  let ?f = "\<lambda>ep. ep \<lparr> ep_thread_count := ep_thread_count ep + 1 \<rparr>"
  have d: "distinct (pids_of (sc_eprocesses s))" using inv by (simp add: sched_inv_def tables_wf_def)
  have mem: "Some ep \<in> set (sc_eprocesses s)" "ep_pid ep = pid" using find_eprocess_SomeD [OF ep] by auto
  have "unat (ep_thread_count ep) < 0xFFFFFFFF"
    using count unat_bound [of "ep_thread_count ep"] by (simp add: word_unat_eq_iff [of _ "0xFFFFFFFF"])
  then have up: "unat (ep_thread_count ep + 1) = Suc (unat (ep_thread_count ep))" by (intro unat_Suc_small) simp
  have "ep_thread_count ep \<noteq> 0" and zomb: "pid \<notin> set (sc_zombies s)" using inv mem slot by (auto simp: sched_inv_def slots_ok_def)
  then have room: "0 < unat (ep_thread_count ep)" by (simp add: unat_gt_0)
  have live: "live_tids p ts' = live_tids p (kw_threads s) \<union> (if p = pid then {kt_tid k} else {})" for p using live_put [OF put] k by auto
  have "card (live_tids pid (kw_threads s)) \<le> max 1 (unat (ep_thread_count ep))" if "pid \<noteq> 0"
    using inv mem that by (auto simp: sched_inv_def counts_ok_def)
  then have card: "card (live_tids pid ts') \<le> Suc (unat (ep_thread_count ep))" if "pid \<noteq> 0"
    using that room finite_live by (simp add: live card_insert_if)
  have changed: "e = ?f ep \<or> Some e \<in> set (sc_eprocesses s) \<and> ep_pid e \<noteq> pid" if e: "Some e \<in> set eps'" for e
  proof -
    obtain e0 where e0: "Some e0 \<in> set (sc_eprocesses s)" "e = (if ep_pid e0 = pid then ?f e0 else e0)"
      using modify_eprocess_mem [OF d e [unfolded eps'_def]] .
    then show ?thesis using find_eprocess_iff [OF d e0(1)] ep by (cases "ep_pid e0 = pid") auto
  qed
  show "counts_ok ts' eps'" using inv card up mem(2) by (auto simp: counts_ok_def sched_inv_def live dest!: changed)
  show "slots_ok eps' (sc_zombies s)" using inv up mem(2) zomb by (auto simp: slots_ok_def sched_inv_def dest!: changed)
  show "pid \<notin> set (sc_zombies s)" by (rule zomb)
qed

text \<open>A thread is added only to a process that has a user slot, which never waits to be reaped.\<close>

lemma add_thread_inv:
  assumes inv: "sched_inv s" and fresh: "fresh_ids s" and add: "add_thread_to_process me r ks_top obj pid s = Some (res, s')"
    and count: "\<And>ep. find_eprocess pid (sc_eprocesses s) = Some ep \<Longrightarrow> ep_thread_count ep \<noteq> 0xFFFFFFFF"
  shows "sched_inv s'"
proof (cases "alloc_slot r (kw_threads s)")
  case None
  then show ?thesis using inv add by (auto simp: add_thread_to_process_def Let_def)
next
  case (Some a)
  then obtain j ts where th: "alloc_slot r (kw_threads s) = Some (j, ts)" by (cases a) simp
  obtain k0 where k0: "new_ring3_with_stack me (sc_next_tid s) pid (init_frame ks_top) ks_top = Some k0"
    using add th by (auto simp: add_thread_to_process_def Let_def split: option.splits)
  let ?s1 = "s \<lparr> sc_next_tid := sc_next_tid s + 1, kw_threads := ts \<rparr>" and ?f = "\<lambda>ep. ep \<lparr> ep_thread_count := ep_thread_count ep + 1 \<rparr>"
  let ?eps = "modify_eprocess pid ?f (sc_eprocesses s)"
  have inv1: "sched_inv ?s1" using grow_inv(1) [OF inv th] by (simp add: sched_inv_def tables_wf_def)
  have d: "distinct (pids_of (sc_eprocesses s))" using inv by (simp add: sched_inv_def tables_wf_def)
  consider "find_eprocess pid (sc_eprocesses s) = None"
    | ep where "find_eprocess pid (sc_eprocesses s) = Some ep" "ep_user_slot ep = None"
    | ep where "find_eprocess pid (sc_eprocesses s) = Some ep" "ep_user_slot ep \<noteq> None" by fastforce
  then show ?thesis
  proof cases
    case 1
    then show ?thesis using add th k0 inv1 by (auto simp: add_thread_to_process_def Let_def)
  next
    case 2
    have "sched_inv (?s1 \<lparr> sc_eprocesses := ?eps \<rparr>)" using uncounted_inv [OF inv1, of pid ep] 2 count by auto
    then show ?thesis using add th k0 2 by (auto simp: add_thread_to_process_def Let_def)
  next
    case 3
    define k where "k = k0 \<lparr> kt_obj_id := obj, kt_state := Suspended \<rparr>"
    have k: "kt_tid k = sc_next_tid s" "kt_pid k = pid" "\<not> kt_is_idle k" "kt_state k = Suspended"
      using k0 by (auto simp: k_def new_ring3_with_stack_def split: if_splits)
    have new: "kt_tid x \<noteq> kt_tid k" if "Some x \<in> set (kw_threads s)" for x using fresh that k(1) by (auto simp: fresh_ids_def)
    note pub = publish_new [OF inv new k(4), where me = me]
    let ?k = "fst (make_thread_ready me k (kw_cpus s))"
    have s': "s' = ?s1 \<lparr> sc_eprocesses := ?eps, kw_threads := ts[j := Some ?k], kw_cpus := snd (make_thread_ready me k (kw_cpus s)) \<rparr>"
      using add th k0 3 by (auto simp: add_thread_to_process_def k_def [symmetric] Let_def case_prod_beta)
    have put: "put_in (kw_threads s) ?k (kw_threads s')" by (simp add: s' put_in_alloc [OF th])
    have "counts_ok (kw_threads s') ?eps" "slots_ok ?eps (sc_zombies s)" "pid \<notin> set (sc_zombies s)"
      using counted_thread [OF inv put 3(1) _ _ 3(2) count [OF 3(1)]] pub k by auto
    then show ?thesis using k pub d fresh
      by (intro new_thread_inv [OF inv put]) (auto simp: s' modify_eprocess_pids fresh_ids_def)
  qed
qed

section \<open>What a new thread starts with\<close>

lemma frame_words:
  fixes mem :: "u64 \<Rightarrow> u64"
  assumes m0: "m0 = push_words ([ss, rsp, flags, cs, entry] @ replicate 15 0) (top0 AND NOT 0xF) mem"
  shows "m0 (init_frame top0 + 144) = rsp" and "m0 (init_frame top0 + 128) = cs" and "m0 (init_frame top0 + 120) = entry"
proof -
  define A where "A = top0 AND NOT 0xF"
  have zeros: "replicate 15 (0 :: u64) = [0, 0, 0, 0, 0, 0, 0, 0, 0, 0, 0, 0, 0, 0, 0]" by code_simp
  show "m0 (init_frame top0 + 144) = rsp" and "m0 (init_frame top0 + 128) = cs" and "m0 (init_frame top0 + 120) = entry"
    unfolding m0 A_def [symmetric] zeros by simp_all
qed

text \<open>The frame lies inside the kernel stack it is written to.\<close>

lemma unat_align: "unat ((x :: u64) AND NOT 0xF) = unat x - unat x mod 16"
proof -
  have mask: "(0xF :: u64) = mask 4" by (simp add: mask_eq_exp_minus_1)
  have "x AND NOT 0xF = push_bit 4 (drop_bit 4 x)" unfolding mask by (rule bit_word_eqI) (auto simp: bit_simps)
  then have "(x AND NOT 0xF) + take_bit 4 x = x" using bits_ident [of 4 x] by simp
  then have align: "x AND NOT 0xF = x - x mod 16" by (simp add: take_bit_eq_mod eq_diff_eq)
  have mod: "unat (x mod 16) = unat x mod 16" by (simp add: unat_mod_distrib)
  then have "x mod 16 \<le> x" by (simp add: word_le_nat_alt)
  then show ?thesis unfolding align using mod by (simp add: unat_sub)
qed

lemma frame_in_stack:
  assumes "0x4000 \<le> ks_top"
  shows "0x1000 \<le> init_frame ks_top" and "rsp_in_kernel_stack ks_top KERNEL_STACK_SIZE (init_frame ks_top)"
proof -
  have large: "0x4000 \<le> unat ks_top" using assms by (simp add: word_le_nat_alt)
  define A where "A = ks_top AND NOT 0xF"
  obtain r where r: "r < 16" "unat A = unat ks_top - r" using that [of "unat ks_top mod 16"] unat_align [of ks_top] unfolding A_def by simp
  then have "160 \<le> A" using large by (simp add: word_le_nat_alt)
  then have sp: "unat (A - 160) = unat ks_top - r - 160" using r by (simp add: unat_sub)
  then have "4096 \<le> unat (A - 160)" "unat ks_top - 16384 \<le> unat (A - 160)" "unat (A - 160) < unat ks_top"
    using r(1) large by linarith+
  then show "0x1000 \<le> init_frame ks_top" "rsp_in_kernel_stack ks_top KERNEL_STACK_SIZE (init_frame ks_top)"
    unfolding A_def [symmetric] rsp_in_kernel_stack_def by (simp_all add: word_le_nat_alt word_less_nat_alt unat_saturating_sub)
qed



end
