(* ===== verification/SchedSystem.thy ===== *)
theory SchedSystem
  imports Spawn
begin

text \<open>
  The scheduler as a system of steps that the CPUs take in any order, what holds in every reachable
  state, and the length of a time slice.
\<close>

unbundle bit_operations_syntax

section \<open>The scheduler as a system\<close>

text \<open>
  The steps that the CPUs take. The scheduler lock serialises them, so any sequence of steps is an
  interleaving of the CPUs. Frames, stack pointers, exit codes and times are arbitrary, and so is the
  outcome of every allocation. Threads and processes are created as long as the counters of identifiers
  and of the threads of a process have not wrapped around.
\<close>

inductive sched_step :: "Sched \<Rightarrow> Sched \<Rightarrow> bool" where
  Dispatch: "try_per_cpu_tid me (kw_cpus s) \<noteq> None \<Longrightarrow> schedule_with_handoff mem me require_ring3 allow_handoff s = Some (t, s') \<Longrightarrow> sched_step s s'"
| Tick: "try_per_cpu_tid me (kw_cpus s) \<noteq> None \<Longrightarrow> on_timer_tick me rsp cs s = Some s' \<Longrightarrow> sched_step s s'"
| Block: "running_on me k s \<Longrightarrow> kwait_block me reason s = Some s' \<Longrightarrow> sched_step s s'"
| Wake: "sched_step s (kwait_wake me reason s)"
| Deadline: "sched_step s (snd (deadline_tick me now s))"
| Activate: "sched_step s (s \<lparr> kw_threads := fst (snd (activate_suspended_process me pid (kw_threads s) (kw_cpus s))),
    kw_cpus := snd (snd (activate_suspended_process me pid (kw_threads s) (kw_cpus s))) \<rparr>)"
| Priority: "sched_step s (s \<lparr> kw_threads := fst (snd (set_process_priority me pid priority (kw_threads s) (kw_cpus s))),
    kw_cpus := snd (snd (set_process_priority me pid priority (kw_threads s) (kw_cpus s))) \<rparr>)"
| Exit: "running_on me k s \<Longrightarrow> terminate_current me code s = Some (r, s') \<Longrightarrow> sched_step s s'"
| Kill: "is_pid_running_on_any_cpu pid (kw_cpus s) \<Longrightarrow> sched_step s (snd (kill_pid pid s))"
| Reserve: "sched_step s (snd (ensure_slots reserve_ep reserve_th s))"
| New_process: "fresh_ids s \<Longrightarrow> add_ring3_process me reserve_ep reserve_th slot ks_top obj s = Some (r, s') \<Longrightarrow> sched_step s s'"
| New_process_prepared: "fresh_ids s \<Longrightarrow> add_ring3_process_with_stack me slot rsp ks_top obj s = Some (r, s') \<Longrightarrow> sched_step s s'"
| New_thread: "fresh_ids s \<Longrightarrow> (\<And>ep. find_eprocess pid (sc_eprocesses s) = Some ep \<Longrightarrow> ep_thread_count ep \<noteq> 0xFFFFFFFF) \<Longrightarrow>
    add_thread_to_process me reserve_th ks_top obj pid s = Some (res, s') \<Longrightarrow> sched_step s s'"
| New_kthread: "fresh_ids s \<Longrightarrow> spawn_kthread_named me reserve_th reserve_ep ks_top prio s = Some (res, s') \<Longrightarrow> sched_step s s'"
| New_idle: "fresh_ids s \<Longrightarrow> sched_step s (snd (register_ap_idle reserve_th cpu stack_top s))"
| Handoff: "find_kthread t (kw_threads s) = Some k \<Longrightarrow> kt_state k = Suspended \<Longrightarrow> sched_step s (snd (mark_handoff_target_running t s))"

inductive_cases sched_stepE: "sched_step s s'"

lemma sched_step_inv: "sched_step s s' \<Longrightarrow> sched_inv s \<Longrightarrow> sched_inv s'"
proof (induction rule: sched_step.induct)
  case (Dispatch me s mem r h t s')
  then show ?case using schedule_ok [of me s mem r h] by (auto simp: ready_cpu_def dispatched_def)
next
  case (Tick me s rsp cs s')
  then show ?case using on_timer_tick_inv [of s me rsp cs] by auto
next
  case (Block me k s reason s')
  then show ?case using kwait_block_inv [of s me k reason] by auto
next
  case (Activate s me pid)
  then show ?case using activates.pass_inv(1) [of s me pid] by (simp add: activate_suspended_process_def)
next
  case (Priority s me pid priority)
  then show ?case using prios.pass_inv(1) [of s me pid priority] by (simp add: set_process_priority_def)
next
  case (Exit me k s code r s')
  then show ?case using terminate_current_inv [of s me k code] by auto
next
  case (New_thread s pid me reserve_th ks_top obj res s')
  then show ?case using add_thread_inv [of s me reserve_th ks_top obj pid res s'] by blast
qed (blast intro: kwait_wake_inv deadline_tick_inv kill_pid_inv ensure_slots_inv add_ring3_process_inv
      add_ring3_process_with_stack_inv spawn_kthread_inv register_ap_idle_inv mark_handoff_inv)+

lemma reachable_inv: "sched_step\<^sup>*\<^sup>* s s' \<Longrightarrow> sched_inv s \<Longrightarrow> sched_inv s'"
  by (induction rule: rtranclp_induct) (auto intro: sched_step_inv)

section \<open>Time slices\<close>

primrec ticks :: "nat \<Rightarrow> u64 \<Rightarrow> u64 \<Rightarrow> nat \<Rightarrow> 'z Sched_scheme \<Rightarrow> 'z Sched_scheme option" where
  "ticks me rsp cs 0 s = Some s"
| "ticks me rsp cs (Suc n) s = (case on_timer_tick me rsp cs s of None \<Rightarrow> None | Some s' \<Rightarrow> ticks me rsp cs n s')"

lemma tick_aging_running:
  assumes "sched_inv s" and "running_on me k s"
  shows "running_on me k (tick_aging me s)" and "preempt_disabled me (tick_aging me s) = preempt_disabled me s"
proof -
  show "running_on me k (tick_aging me s)"
    using assms tick_aging_inv(3) [OF assms(1)] tick_aging_inv(2) [OF assms(1), where i = me and me = me]
    by (simp add: running_on_def cpu_view_tid)
  show "preempt_disabled me (tick_aging me s) = preempt_disabled me s"
    by (simp add: tick_aging_def preempt_disabled_def Let_def case_prod_beta)
qed

lemma tick_running_slice:
  "kt_time_slice_remaining (tick_running b k) = (if kt_time_slice_remaining k = 0 then 0 else kt_time_slice_remaining k - 1)"
  by (auto simp: tick_running_def account_tick_def word_gt_0 Let_def split: option.splits)

text \<open>Replacing the thread that runs on a CPU, found again under its tid.\<close>

lemma replaced_find:
  assumes "sched_inv s" and "find_kthread t (kw_threads s) = Some k" and "kt_tid k' = t"
  shows "find_kthread t (modify_kthread t (\<lambda>_. k') (kw_threads s)) = Some k'"
proof -
  have cons: "queues_consistent (kw_threads s) (cpus_boot 0)" using assms(1) by (intro consistent_boot) (simp add: sched_inv_def queues_consistent)
  have "\<not> queued (cpus_boot 0) i u p" for i u p by (rule queued_None) (simp add: cpus_boot_page)
  then show ?thesis using consistent_replace(2) [OF cons assms(2,3), of "cpus_boot 0" t] cons by (simp add: queues_consistent at_home_def)
qed

lemma tick_within_slice:
  assumes inv: "sched_inv s" and run: "running_on me k s" and "unat (kt_time_slice_remaining k) > 1"
  shows "\<exists>s' k'. on_timer_tick me rsp cs s = Some s' \<and> sched_inv s' \<and> running_on me k' s' \<and> kt_tid k' = kt_tid k \<and>
    kt_time_slice_remaining k' = kt_time_slice_remaining k - 1 \<and> preempt_disabled me s' = preempt_disabled me s"
proof -
  let ?s = "tick_aging me s" and ?k = "tick_running (per_cpu_tick_base me (tick_aging me s)) k"
  note age = tick_aging_running [OF inv run]
  let ?s' = "?s \<lparr> kw_threads := modify_kthread (kt_tid k) (\<lambda>_. ?k) (kw_threads ?s) \<rparr>"
  have k: "find_kthread (kt_tid k) (kw_threads ?s) = Some k" "kt_state k = Running" using age(1) by (auto simp: running_on_def)
  have slice: "kt_time_slice_remaining ?k = kt_time_slice_remaining k - 1" "kt_time_slice_remaining ?k \<noteq> 0"
    using assms(3) by (cases "kt_time_slice_remaining k = 0"; cases "kt_time_slice_remaining k = 1"; simp add: tick_running_slice)+
  then have tick: "on_timer_tick me rsp cs s = Some ?s'"
    using running_current(1) [OF age(1)] k by (simp add: on_timer_tick_def Let_def)
  have "kt_tid ?k = kt_tid k" using tick_running_stays(1) [of k] by (simp add: stays_def)
  then have "running_on me ?k ?s'" using age(1) k replaced_find [OF tick_aging_inv(1) [OF inv] k(1)] by (simp add: running_on_def)
  moreover have "sched_inv ?s'" using on_timer_tick_inv [OF inv, of me rsp cs] run tick by (auto simp: running_on_def)
  ultimately show ?thesis using tick slice(1) age(2) \<open>kt_tid ?k = kt_tid k\<close> by (auto simp: preempt_disabled_def)
qed

lemma tick_ends_slice:
  assumes inv: "sched_inv s" and run: "running_on me k s" and "unat (kt_time_slice_remaining k) \<le> 1"
    and ring3: "cs AND 3 = 3" and "\<not> preempt_disabled me s"
  shows "\<exists>s' k'. on_timer_tick me rsp cs s = Some s' \<and> find_kthread (kt_tid k) (kw_threads s') = Some k' \<and>
    kt_state k' = Ready \<and> kt_cpu k' = of_nat me \<and> kw_need_resched s'"
proof -
  let ?s = "tick_aging me s" and ?k = "tick_running (per_cpu_tick_base me (tick_aging me s)) k"
  note age = tick_aging_running [OF inv run]
  let ?k4 = "save_live_rsp_checked rsp (?k \<lparr> kt_yield_requested := False \<rparr>) \<lparr> kt_cpu := of_nat me, kt_state := Ready \<rparr>"
  let ?s' = "slice_expired me rsp True ?k ?s"
  have k: "find_kthread (kt_tid k) (kw_threads ?s) = Some k" "kt_state k = Running" using age(1) by (auto simp: running_on_def)
  have "kt_time_slice_remaining k = 0 \<or> kt_time_slice_remaining k = 1" using assms(3) by (auto simp: word_unat_eq_iff le_Suc_eq)
  then have tick: "on_timer_tick me rsp cs s = Some ?s'"
    using running_current(1) [OF age(1)] k ring3 by (auto simp: on_timer_tick_def tick_running_slice Let_def)
  have tid: "kt_tid ?k = kt_tid k" using tick_running_stays(1) [of k] by (simp add: stays_def)
  then have "kw_threads ?s' = modify_kthread (kt_tid k) (\<lambda>_. ?k4) (kw_threads ?s)" and need: "kw_need_resched ?s'"
    using running_current(3) [OF age(1)] age(2) assms(5) by (simp_all add: slice_expired_def Let_def)
  moreover have "kt_tid ?k4 = kt_tid k" using tid by (simp add: save_live_rsp_checked_def)
  ultimately have "find_kthread (kt_tid k) (kw_threads ?s') = Some ?k4"
    using replaced_find [OF tick_aging_inv(1) [OF inv] k(1)] by simp
  then show ?thesis using tick need by simp
qed

lemma ticks_within:
  assumes "sched_inv s" and "running_on me k s" and "n < unat (kt_time_slice_remaining k)"
  shows "\<exists>s' k'. ticks me rsp cs n s = Some s' \<and> sched_inv s' \<and> running_on me k' s' \<and> kt_tid k' = kt_tid k \<and>
    unat (kt_time_slice_remaining k') = unat (kt_time_slice_remaining k) - n \<and> preempt_disabled me s' = preempt_disabled me s"
  using assms
proof (induction n arbitrary: s k)
  case (Suc n)
  obtain s' k' where s': "on_timer_tick me rsp cs s = Some s'" "sched_inv s'" "running_on me k' s'" "kt_tid k' = kt_tid k"
    "kt_time_slice_remaining k' = kt_time_slice_remaining k - 1" "preempt_disabled me s' = preempt_disabled me s"
    using tick_within_slice [OF Suc.prems(1,2), of rsp cs] Suc.prems(3) by auto
  have "unat (kt_time_slice_remaining k') = unat (kt_time_slice_remaining k) - 1"
    using s'(5) Suc.prems(3) unat_minus_one [of "kt_time_slice_remaining k"] by fastforce
  then show ?case using Suc.IH [OF s'(2,3)] Suc.prems(3) s' by auto
qed auto

lemma ticks_Suc: "ticks me rsp cs (Suc n) s = (case ticks me rsp cs n s of None \<Rightarrow> None | Some s' \<Rightarrow> on_timer_tick me rsp cs s')"
proof (induction n arbitrary: s)
  case (Suc n)
  show ?case
  proof (cases "on_timer_tick me rsp cs s")
    case (Some s1)
    then have "ticks me rsp cs (Suc (Suc n)) s = ticks me rsp cs (Suc n) s1" by simp
    also have "\<dots> = (case ticks me rsp cs n s1 of None \<Rightarrow> None | Some s' \<Rightarrow> on_timer_tick me rsp cs s')" by (rule Suc.IH)
    finally show ?thesis using Some by simp
  qed simp
qed (simp split: option.splits)

section \<open>A concrete system\<close>

text \<open>Two CPUs in their idle threads, a Ready thread of process 7, and process 8 waiting to be reaped.\<close>

definition sample_idle :: "u32 \<Rightarrow> u32 \<Rightarrow> Kthread" where
  "sample_idle tid cpu = (sample_thread tid Running 3 cpu) \<lparr> kt_is_idle := True, kt_pid := 0 \<rparr>"

lemma sample_idle_sel [simp]:
  "kt_tid (sample_idle tid cpu) = tid" "kt_pid (sample_idle tid cpu) = 0" "kt_is_idle (sample_idle tid cpu)" "kt_cpu (sample_idle tid cpu) = cpu"
  by (simp_all add: sample_idle_def sample_thread_def)

lemma sample_page:
  "kprcb_page i sample_cpus = (if i = 0 then Some (kprcb_new \<lparr> kp_current_thread := Some 1 \<rparr>)
     else if i = 1 then Some (kprcb_new \<lparr> kp_current_thread := Some 2 \<rparr>) else None)"
  by (auto simp: kprcb_page_def sample_cpus_def nth_append nth_Cons MAX_CPUS_def split: nat.splits)

lemma sample_tid: "try_per_cpu_tid i sample_cpus = (if i = 0 then Some 1 else if i = 1 then Some 2 else None)"
  by (simp add: try_per_cpu_tid_def sample_page)

lemma sample_queues: "queues_consistent (kw_threads sample_sched) sample_cpus"
proof -
  have "cpus_wf sample_cpus" using levels_distinct_new
    by (auto simp: cpus_wf sample_page kprcb_new_def split: if_splits) (simp add: sample_cpus_def MAX_CPUS_def)
  moreover have "\<not> queued sample_cpus i t p" for i t p
    by (auto simp: queued_def queue_levels_def sample_page kprcb_new_def rq_new_abs)
  moreover have "distinct (tids_of (kw_threads sample_sched))" using sample_tables_wf by (simp add: tables_wf_def)
  ultimately show ?thesis by (simp add: queues_consistent)
qed

lemma sample_inv: "sched_inv sample_sched"
proof -
  have cpus: "kw_cpus sample_sched = sample_cpus" by (simp add: sample_sched_def)
  have "exclusive sample_cpus" by (auto simp: exclusive_def sample_tid split: if_splits)
  moreover have idle: "Some (sample_idle 1 0) \<in> set (kw_threads sample_sched)" "Some (sample_idle 2 1) \<in> set (kw_threads sample_sched)"
    by (simp_all add: sample_sched_def sample_idle_def)
  have view: "cpu_view i sample_cpus = (if i = 0 then Some (Some 1, 0) else if i = 1 then Some (Some 2, 0) else None)" for i
    by (simp add: cpu_view_def sample_page kprcb_new_def)
  have "pages_ok (kw_threads sample_sched) sample_cpus" unfolding pages_ok_def view using idle
    by (metis option.distinct(1) option.inject prod.inject sample_idle_sel(1,2))
  moreover have "idle_ok (kw_threads sample_sched) sample_cpus" unfolding idle_ok_def sample_tid
  proof (intro conjI allI impI)
    fix i :: nat assume "(if i = 0 then Some 1 else if i = 1 then Some 2 else None) \<noteq> (None :: u32 option)"
    then show "\<exists>k. Some k \<in> set (kw_threads sample_sched) \<and> kt_is_idle k \<and> unat (kt_cpu k) = i" using idle
      by (metis sample_idle_sel(3,4) unat_0 unat_1)
  qed (auto simp: sample_sched_def sample_thread_def split: if_splits)
  moreover have "zombies_dead (kw_threads sample_sched) (sc_zombies sample_sched)"
    by (auto simp: zombies_dead_def sample_sched_def sample_thread_def)
  moreover have "live_tids p (kw_threads sample_sched) \<subseteq> {3}" if "p \<noteq> 0" for p
    using that by (auto simp: live_tids_def sample_sched_def sample_thread_def)
  then have "counts_ok (kw_threads sample_sched) (sc_eprocesses sample_sched)" unfolding counts_ok_def
    by (metis One_nat_def card.empty card.insert card_mono empty_iff finite.emptyI finite.insertI le_max_iff_disj)
  moreover have "slots_ok (sc_eprocesses sample_sched) (sc_zombies sample_sched)"
    by (auto simp: slots_ok_def sample_sched_def eprocess_new_def)
  ultimately show ?thesis using sample_queues sample_tables_wf cpus by (simp add: sched_inv_def)
qed

section \<open>Properties of the system\<close>



text \<open>
  C1. The dispatcher never fails in a reachable state: on every CPU that runs a thread it returns a
  thread, for any frames in memory and any request for ring 3 and handoff. That thread is Running and is
  now the current one of this CPU, the other CPUs keep theirs, and the invariant holds again. The thread
  that the CPU leaves, whose stack it still uses, is not among the threads that are reclaimed on the way.
\<close>

theorem reachable_dispatch_returns:
  assumes "sched_inv s" and "sched_step\<^sup>*\<^sup>* s s'" and "try_per_cpu_tid me (kw_cpus s') \<noteq> None"
  shows "\<exists>t s'' k. schedule_with_handoff mem me require_ring3 allow_handoff s' = Some (t, s'') \<and> sched_inv s'' \<and>
    try_per_cpu_tid me (kw_cpus s'') = Some t \<and> find_kthread t (kw_threads s'') = Some k \<and> kt_state k = Running \<and>
    (\<forall>i. i \<noteq> me \<longrightarrow> try_per_cpu_tid i (kw_cpus s'') = try_per_cpu_tid i (kw_cpus s')) \<and>
    (\<forall>u. try_per_cpu_tid me (kw_cpus s') = Some u \<longrightarrow> find_kthread u (kw_threads s'') \<noteq> None)"
proof -
  have "ready_cpu me s'" using reachable_inv [OF assms(2,1)] assms(3) by (simp add: ready_cpu_def)
  then show ?thesis using schedule_ok [of me s' mem require_ring3 allow_handoff] by (auto simp: dispatched_def same_others_def)
qed

theorem reachable_dispatch_returns_witness:
  "sched_inv sample_sched \<and> sched_step\<^sup>*\<^sup>* sample_sched sample_sched \<and> try_per_cpu_tid 1 (kw_cpus sample_sched) = Some 2 \<and>
   (\<exists>t s''. schedule_with_handoff (\<lambda>_. 0) 1 False False sample_sched = Some (t, s'') \<and> try_per_cpu_tid 1 (kw_cpus s'') = Some t)"
proof -
  have tid: "try_per_cpu_tid 1 (kw_cpus sample_sched) = Some 2" by code_simp
  then show ?thesis using reachable_dispatch_returns [OF sample_inv rtranclp.rtrancl_refl, of 1 "\<lambda>_. 0" False False] sample_inv by auto
qed

text \<open>
  C12. A thread that runs in user mode keeps its CPU for exactly the ticks left in its slice: at every
  earlier tick it is still Running, and at the last one it becomes Ready on this CPU and a reschedule
  is requested, if preemption is enabled.
\<close>

theorem time_slice_exact:
  assumes "sched_inv s" and "running_on me k s" and "0 < kt_time_slice_remaining k" and "cs AND 3 = 3" and "\<not> preempt_disabled me s"
  shows "(\<forall>n<unat (kt_time_slice_remaining k). \<exists>s' k'. ticks me rsp cs n s = Some s' \<and>
      find_kthread (kt_tid k) (kw_threads s') = Some k' \<and> kt_state k' = Running) \<and>
    (\<exists>s' k'. ticks me rsp cs (unat (kt_time_slice_remaining k)) s = Some s' \<and>
      find_kthread (kt_tid k) (kw_threads s') = Some k' \<and> kt_state k' = Ready \<and> kt_cpu k' = of_nat me \<and> kw_need_resched s')"
proof -
  obtain n where n: "unat (kt_time_slice_remaining k) = Suc n" using assms(3) by (metis gr0_conv_Suc unat_gt_0 word_gt_0)
  obtain s1 k1 where s1: "ticks me rsp cs n s = Some s1" "sched_inv s1" "running_on me k1 s1" "kt_tid k1 = kt_tid k"
    "unat (kt_time_slice_remaining k1) = 1" "\<not> preempt_disabled me s1"
    using ticks_within [OF assms(1,2), of n rsp cs] n assms(5) by auto
  have "ticks me rsp cs (Suc n) s = on_timer_tick me rsp cs s1" unfolding ticks_Suc using s1(1) by simp
  then show ?thesis using tick_ends_slice [OF s1(2,3) _ assms(4) s1(6), of rsp] s1(4,5) n
      ticks_within [OF assms(1,2), of _ rsp cs] by (fastforce simp: running_on_def)
qed

theorem time_slice_exact_witness:
  "sched_inv sample_sched \<and> running_on 0 (sample_idle 1 0) sample_sched \<and>
   (\<exists>s' k'. ticks 0 0x9000 3 (unat (kt_time_slice_remaining (sample_idle 1 0))) sample_sched = Some s' \<and>
      find_kthread 1 (kw_threads s') = Some k' \<and> kt_state k' = Ready)"
proof -
  have run: "running_on 0 (sample_idle 1 0) sample_sched" by code_simp
  have "0 < kt_time_slice_remaining (sample_idle 1 0)" "\<not> preempt_disabled 0 sample_sched" "(3 :: u64) AND 3 = 3" by code_simp+
  then show ?thesis using time_slice_exact [OF sample_inv run, of 3 "0x9000"] sample_inv run unfolding sample_idle_sel by blast
qed

text \<open>
  C13. A process that waits to be reclaimed never gets a thread again: in every reachable state adding one
  to it fails and leaves the thread table without a live thread of that process.
\<close>

theorem ended_process_gets_no_thread:
  assumes "sched_inv s" and "sched_step\<^sup>*\<^sup>* s s'" and "pid \<in> set (sc_zombies s')"
    and "add_thread_to_process me reserve ks_top obj pid s' = Some (res, s'')"
  shows "res = None \<and> live_tids pid (kw_threads s'') = {}"
proof -
  have inv: "sched_inv s'" using reachable_inv assms(1,2) by blast
  have "ep_user_slot ep = None" if "find_eprocess pid (sc_eprocesses s') = Some ep" for ep
    using inv assms(3) find_eprocess_SomeD [OF that] by (auto simp: sched_inv_def slots_ok_def)
  then have res: "res = None \<and> (kw_threads s'' = kw_threads s' \<or> kw_threads s'' = kw_threads s' @ [None])"
    using assms(4) alloc_slot_spec(3) [of reserve "kw_threads s'"]
    by (auto simp: add_thread_to_process_def Let_def split: option.splits prod.splits)
  have "live_tids pid (kw_threads s') = {}" using inv assms(3) by (auto simp: sched_inv_def zombies_dead_def live_tids_def)
  then show ?thesis using res by (auto simp: live_tids_def)
qed

theorem ended_process_gets_no_thread_witness:
  "sched_inv sample_sched \<and> 8 \<in> set (sc_zombies sample_sched) \<and>
   map_option fst (add_thread_to_process 0 True 0x9000 None 8 sample_sched) = Some None"
proof -
  have zomb: "8 \<in> set (sc_zombies sample_sched)" by (simp add: sample_sched_def)
  have "add_thread_to_process 0 True 0x9000 None 8 sample_sched \<noteq> None" by code_simp
  then obtain res s'' where add: "add_thread_to_process 0 True 0x9000 None 8 sample_sched = Some (res, s'')" by auto
  then show ?thesis using ended_process_gets_no_thread [OF sample_inv rtranclp.rtrancl_refl zomb add] sample_inv zomb by simp
qed

end
