(* ===== verification/SchedValidate.thy ===== *)
theory SchedValidate
  imports SchedSystem Bytes
begin

text \<open>
  The scheduler's own checker of its run queues (\<open>validate_runqueue_invariants\<close> of scheduler/schedule.rs):
  what it accepts, said without its loops, and a state that a kill leaves behind and that it refuses.
\<close>

section \<open>The checker\<close>

definition flatten :: "Kthread option list \<Rightarrow> Kthread list" where
  "flatten ts = concat (map (\<lambda>t. case t of None \<Rightarrow> [] | Some k \<Rightarrow> [k]) ts)"

definition check_current :: "nat \<Rightarrow> 'z KWaitState_scheme \<Rightarrow> string option" where
  "check_current me s = (case find_kthread (effective_tid me s) (kw_threads s) of
      None \<Rightarrow> Some ''current_tid does not identify a thread''
    | Some current \<Rightarrow>
        if kt_state current \<noteq> Running then Some ''current_tid does not identify a Running thread''
        else if kprcb_thread_in_self me s \<and> kt_cpu current \<noteq> of_nat me then Some ''current thread belongs to another CPU''
        else None)"

fun check_table :: "u32 list \<Rightarrow> u32 list \<Rightarrow> Kthread list \<Rightarrow> string option" where
  "check_table thread_tids running_cpus [] = None"
| "check_table thread_tids running_cpus (k # ks) =
    (if kt_tid k \<in> set thread_tids then Some ''duplicate TID in scheduler thread table''
     else if kt_state k = Running
     then (if kt_cpu k \<in> set running_cpus then Some ''more than one Running thread on a CPU''
           else check_table (thread_tids @ [kt_tid k]) (running_cpus @ [kt_cpu k]) ks)
     else check_table (thread_tids @ [kt_tid k]) running_cpus ks)"

fun check_entries :: "Kthread option list \<Rightarrow> nat \<Rightarrow> u32 list \<Rightarrow> u32 list \<Rightarrow> (u32 list, string) result" where
  "check_entries ts cpu queue_tids [] = Ok queue_tids"
| "check_entries ts cpu queue_tids (tid # tids) =
    (if tid \<in> set queue_tids then Err ''duplicate TID in run queue''
     else case find_kthread tid ts of
       None \<Rightarrow> Err ''orphan TID in run queue''
     | Some k \<Rightarrow>
         if tid = BOOT_TID \<or> kt_is_idle k then Err ''boot or idle thread found in run queue''
         else if unat (kt_cpu k) \<noteq> cpu then Err ''run queue entry belongs to another CPU''
         else if kt_state k \<noteq> Ready then Err ''non-Ready thread found in run queue''
         else check_entries ts cpu (queue_tids @ [tid]) tids)"

fun check_queues :: "Kthread option list \<Rightarrow> Cpus \<Rightarrow> u32 list \<Rightarrow> nat list \<Rightarrow> (u32 list, string) result" where
  "check_queues ts c queue_tids [] = Ok queue_tids"
| "check_queues ts c queue_tids (cpu # cpus) =
    (case check_entries ts cpu queue_tids (fst (with_runqueue cpu (\<lambda>rq. (entries_vec rq, rq)) c)) of
       Ok tids \<Rightarrow> check_queues ts c tids cpus | Err e \<Rightarrow> Err e)"

definition check_thread :: "u32 list \<Rightarrow> Kthread \<Rightarrow> string option" where
  "check_thread queue_tids k = (let count = length (filter (\<lambda>tid. tid = kt_tid k) queue_tids) in
     if kt_is_idle k \<or> kt_tid k = BOOT_TID then (if count \<noteq> 0 then Some ''special thread found in run queue'' else None)
     else if kt_state k = Ready \<and> count \<noteq> 1 then Some ''Ready thread not in run queue exactly once''
     else if kt_state k \<noteq> Ready \<and> count \<noteq> 0 then Some ''Non-Ready thread found in run queue''
     else None)"

definition validate_runqueue_invariants :: "nat \<Rightarrow> 'z KWaitState_scheme \<Rightarrow> (nat, string) result" where
  "validate_runqueue_invariants me s = (case check_current me s of
      Some e \<Rightarrow> Err e
    | None \<Rightarrow> (case check_table [] [] (flatten (kw_threads s)) of
        Some e \<Rightarrow> Err e
      | None \<Rightarrow> (case check_queues (kw_threads s) (kw_cpus s) [] [0..<MAX_CPUS] of
          Err e \<Rightarrow> Err e
        | Ok queue_tids \<Rightarrow> (case first_some (check_thread queue_tids) (flatten (kw_threads s)) of
            Some e \<Rightarrow> Err e | None \<Rightarrow> Ok (length queue_tids)))))"

section \<open>What each loop accepts\<close>

definition running_cpus :: "Kthread list \<Rightarrow> u32 list" where
  "running_cpus ks = map kt_cpu (filter (\<lambda>k. kt_state k = Running) ks)"

definition entries_on :: "Cpus \<Rightarrow> nat \<Rightarrow> u32 list" where
  "entries_on c cpu = concat (queue_levels cpu c)"

definition entry_ok :: "Kthread option list \<Rightarrow> nat \<Rightarrow> u32 \<Rightarrow> bool" where
  "entry_ok ts cpu tid \<longleftrightarrow> (\<exists>k. find_kthread tid ts = Some k \<and> kt_state k = Ready \<and> \<not> kt_is_idle k \<and> tid \<noteq> BOOT_TID \<and> unat (kt_cpu k) = cpu)"

lemma set_flatten [simp]: "k \<in> set (flatten ts) \<longleftrightarrow> Some k \<in> set ts"
  by (auto simp: flatten_def split: option.splits)

lemma flatten_tids: "map kt_tid (flatten ts) = tids_of ts"
  by (induction ts) (auto simp: flatten_def tids_of_def split: option.splits)

lemma check_table_iff:
  "check_table tids cpus ks = None \<longleftrightarrow> distinct (map kt_tid ks) \<and> set (map kt_tid ks) \<inter> set tids = {} \<and>
     distinct (running_cpus ks) \<and> set (running_cpus ks) \<inter> set cpus = {}"
  by (induction tids cpus ks rule: check_table.induct) (auto simp: running_cpus_def)

lemma check_entries_iff:
  "check_entries ts cpu seen tids = Ok r \<longleftrightarrow> distinct tids \<and> set tids \<inter> set seen = {} \<and> list_all (entry_ok ts cpu) tids \<and> r = seen @ tids"
  by (induction ts cpu seen tids rule: check_entries.induct) (auto simp: entry_ok_def split: option.splits)

lemma entries_read: "cpus_wf c \<Longrightarrow> fst (with_runqueue cpu (\<lambda>rq. (entries_vec rq, rq)) c) = entries_on c cpu"
  by (auto simp: with_runqueue_def entries_on_def queue_levels_def cpus_wf entries_vec_abs rq_new_abs split: option.splits)

lemma check_queues_iff:
  assumes "cpus_wf c"
  shows "check_queues ts c seen cpus = Ok r \<longleftrightarrow> distinct (concat (map (entries_on c) cpus)) \<and>
    set (concat (map (entries_on c) cpus)) \<inter> set seen = {} \<and> (\<forall>cpu\<in>set cpus. list_all (entry_ok ts cpu) (entries_on c cpu)) \<and>
    r = seen @ concat (map (entries_on c) cpus)"
proof (induction cpus arbitrary: seen)
  case (Cons cpu cpus)
  show ?case
  proof (cases "check_entries ts cpu seen (entries_on c cpu)")
    case (Ok tids)
    then show ?thesis using check_entries_iff [of ts cpu seen "entries_on c cpu" tids] Cons.IH [of tids]
      by (auto simp: entries_read [OF assms])
  next
    case (Err e)
    then have "\<not> (distinct (entries_on c cpu) \<and> set (entries_on c cpu) \<inter> set seen = {} \<and> list_all (entry_ok ts cpu) (entries_on c cpu))"
      using check_entries_iff [of ts cpu seen "entries_on c cpu" "seen @ entries_on c cpu"] by auto
    then show ?thesis using Err by (auto simp: entries_read [OF assms])
  qed
qed auto

lemma first_some_None: "first_some f xs = None \<longleftrightarrow> (\<forall>x\<in>set xs. f x = None)"
  by (induction xs) (auto split: option.splits)

section \<open>The entries of the queues\<close>

lemma entries_on_iff: "cpus_wf c \<Longrightarrow> t \<in> set (entries_on c cpu) \<longleftrightarrow> (\<exists>p. queued c cpu t p)"
  using queue_levels_wf [of c cpu] by (auto simp: entries_on_def queued_def in_set_conv_nth) (metis nth_mem)+

lemma entries_on_distinct:
  assumes "cpus_wf c"
  shows "distinct (entries_on c cpu)"
proof -
  have ls: "levels_distinct (queue_levels cpu c)" using queue_levels_wf [OF assms] by blast
  have "distinct (concat xs)" if "levels_distinct xs" for xs :: "u32 list list"
    using that
  proof (induction xs)
    case (Cons x xs)
    note same = levels_distinctD(1) [OF Cons.prems]
    have "distinct x" using levels_distinctD(2) [OF Cons.prems, of 0] by simp
    moreover have "distinct (xs ! p)" if "p < length xs" for p using levels_distinctD(2) [OF Cons.prems, of "Suc p"] that by simp
    then have "levels_distinct xs" unfolding levels_distinct_def using same [of "Suc _" "Suc _"] by auto
    moreover have "t \<notin> set (xs ! q)" if "q < length xs" "t \<in> set x" for t q using same [of 0 "Suc q" t] that by auto
    then have "set x \<inter> set (concat xs) = {}" by (auto simp: in_set_conv_nth [of _ xs])
    ultimately show ?case using Cons.IH by simp
  qed simp
  then show ?thesis using ls by (simp add: entries_on_def)
qed

lemma entry_ok_inj: "entry_ok ts i t \<Longrightarrow> entry_ok ts j t \<Longrightarrow> i = j"
  by (auto simp: entry_ok_def)

lemma all_entries_distinct:
  assumes "cpus_wf c" and ok: "\<And>cpu t. t \<in> set (entries_on c cpu) \<Longrightarrow> entry_ok ts cpu t" and "distinct cpus"
  shows "distinct (concat (map (entries_on c) cpus))"
  using assms(3)
proof (induction cpus)
  case (Cons cpu cpus)
  have "t \<notin> set (entries_on c i)" if "i \<in> set cpus" "t \<in> set (entries_on c cpu)" for i t
  proof
    assume "t \<in> set (entries_on c i)"
    then have "i = cpu" using entry_ok_inj [OF ok ok] that(2) by blast
    then show False using that(1) Cons.prems by simp
  qed
  then show ?case using Cons entries_on_distinct [OF assms(1)] by auto
qed simp

lemma queued_cpu: "queued c cpu t p \<Longrightarrow> cpu < MAX_CPUS"
  by (rule ccontr) (auto simp: queued_None kprcb_page_def)

lemma check_thread_None:
  assumes "distinct q"
  shows "check_thread q k = None \<longleftrightarrow> (kt_tid k \<in> set q \<longleftrightarrow> kt_state k = Ready \<and> \<not> kt_is_idle k \<and> kt_tid k \<noteq> BOOT_TID)"
proof -
  have "length (filter (\<lambda>tid. tid = kt_tid k) q) = (if kt_tid k \<in> set q then 1 else 0)"
    using assms by (induction q) auto
  then show ?thesis by (auto simp: check_thread_def Let_def)
qed

lemma one_running:
  assumes "distinct (map kt_tid ks)"
  shows "distinct (running_cpus ks) \<longleftrightarrow> (\<forall>k l. k \<in> set ks \<longrightarrow> l \<in> set ks \<longrightarrow> kt_state k = Running \<longrightarrow> kt_state l = Running \<longrightarrow>
    kt_cpu k = kt_cpu l \<longrightarrow> kt_tid k = kt_tid l)"
proof -
  have "k = l" if "k \<in> set ks" "l \<in> set ks" "kt_tid k = kt_tid l" for k l
    using assms that by (meson distinct_map inj_onD)
  moreover have "distinct ks" using assms distinct_map by blast
  ultimately show ?thesis unfolding running_cpus_def distinct_map inj_on_def by simp metis
qed

section \<open>What the checker accepts\<close>

definition current_valid :: "nat \<Rightarrow> 'z KWaitState_scheme \<Rightarrow> bool" where
  "current_valid me s \<longleftrightarrow> (\<exists>k. find_kthread (effective_tid me s) (kw_threads s) = Some k \<and> kt_state k = Running \<and>
     (kprcb_thread_in_self me s \<longrightarrow> kt_cpu k = of_nat me))"

abbreviation (input) queue_tids_of :: "Cpus \<Rightarrow> u32 list" where
  "queue_tids_of c \<equiv> concat (map (entries_on c) [0..<MAX_CPUS])"

definition entries_valid :: "Kthread option list \<Rightarrow> Cpus \<Rightarrow> bool" where
  "entries_valid ts c \<longleftrightarrow> (\<forall>cpu t p. queued c cpu t p \<longrightarrow> entry_ok ts cpu t)"

lemma queues_accepted:
  assumes wf: "cpus_wf c"
  shows "check_queues ts c [] [0..<MAX_CPUS] = Ok q \<longleftrightarrow> entries_valid ts c \<and> q = queue_tids_of c"
proof -
  have "list_all (entry_ok ts cpu) (entries_on c cpu) \<longleftrightarrow> (\<forall>t p. queued c cpu t p \<longrightarrow> entry_ok ts cpu t)" for cpu
    using entries_on_iff [OF wf] by (auto simp: list_all_iff)
  moreover have "\<not> queued c cpu t p" if "\<not> cpu < MAX_CPUS" for cpu t p
    using that queued_cpu by blast
  ultimately have "(\<forall>cpu\<in>set [0..<MAX_CPUS]. list_all (entry_ok ts cpu) (entries_on c cpu)) \<longleftrightarrow> entries_valid ts c"
    unfolding entries_valid_def set_upt by (meson atLeastLessThan_iff le0)
  moreover have "distinct (queue_tids_of c)" if "entries_valid ts c"
    using that entries_on_iff [OF wf] by (intro all_entries_distinct [OF wf, where ts = ts]) (auto simp: entries_valid_def)
  ultimately show ?thesis using check_queues_iff [OF wf, of ts "[]" "[0..<MAX_CPUS]" q] by auto
qed

lemma threads_accepted:
  assumes wf: "cpus_wf c" and "entries_valid ts c" and "distinct (tids_of ts)"
  shows "first_some (check_thread (queue_tids_of c)) (flatten ts) = None \<longleftrightarrow>
    (\<forall>k. Some k \<in> set ts \<longrightarrow> kt_state k = Ready \<longrightarrow> \<not> kt_is_idle k \<longrightarrow> kt_tid k \<noteq> BOOT_TID \<longrightarrow> (\<exists>cpu p. queued c cpu (kt_tid k) p))"
proof -
  have q: "t \<in> set (queue_tids_of c) \<longleftrightarrow> (\<exists>cpu p. queued c cpu t p)" for t
    using entries_on_iff [OF wf] queued_cpu by (auto simp: Bex_def) blast
  have "distinct (queue_tids_of c)"
    using assms(2) entries_on_iff [OF wf] by (intro all_entries_distinct [OF wf, where ts = ts]) (auto simp: entries_valid_def)
  then have "first_some (check_thread (queue_tids_of c)) (flatten ts) = None \<longleftrightarrow> (\<forall>k. Some k \<in> set ts \<longrightarrow>
      ((\<exists>cpu p. queued c cpu (kt_tid k) p) \<longleftrightarrow> kt_state k = Ready \<and> \<not> kt_is_idle k \<and> kt_tid k \<noteq> BOOT_TID))"
    by (simp only: first_some_None check_thread_None q set_flatten Ball_def)
  moreover have "kt_state k = Ready \<and> \<not> kt_is_idle k \<and> kt_tid k \<noteq> BOOT_TID" if "Some k \<in> set ts" "queued c cpu (kt_tid k) p" for k cpu p
  proof -
    have "entry_ok ts cpu (kt_tid k)" "find_kthread (kt_tid k) ts = Some k"
      using that assms(2,3) by (auto simp: entries_valid_def find_kthread_iff)
    then show ?thesis by (simp add: entry_ok_def)
  qed
  ultimately show ?thesis by blast
qed

lemma validate_accepts:
  assumes "cpus_wf (kw_cpus s)" and "validate_runqueue_invariants me s = Ok n"
  shows "entries_valid (kw_threads s) (kw_cpus s)"
  using assms(2) queues_accepted [OF assms(1)]
  by (auto simp: validate_runqueue_invariants_def split: option.splits result.splits)

text \<open>
  C15. On well-formed queues the checker accepts exactly the states in which: the current thread is
  Running, on this CPU where the CPU page names it; no tid occurs twice in the table; no two Running
  threads share a CPU; every queue entry names a Ready thread of that CPU other than the boot and idle
  threads; and every such Ready thread is in a queue.
\<close>

theorem validate_accepts_iff:
  assumes wf: "cpus_wf (kw_cpus s)"
  shows "(\<exists>n. validate_runqueue_invariants me s = Ok n) \<longleftrightarrow>
    current_valid me s \<and> distinct (tids_of (kw_threads s)) \<and>
    (\<forall>k l. Some k \<in> set (kw_threads s) \<longrightarrow> Some l \<in> set (kw_threads s) \<longrightarrow> kt_state k = Running \<longrightarrow> kt_state l = Running \<longrightarrow>
       kt_cpu k = kt_cpu l \<longrightarrow> kt_tid k = kt_tid l) \<and>
    entries_valid (kw_threads s) (kw_cpus s) \<and>
    (\<forall>k. Some k \<in> set (kw_threads s) \<longrightarrow> kt_state k = Ready \<longrightarrow> \<not> kt_is_idle k \<longrightarrow> kt_tid k \<noteq> BOOT_TID \<longrightarrow>
       (\<exists>cpu p. queued (kw_cpus s) cpu (kt_tid k) p))"
  (is "?accepts \<longleftrightarrow> ?cur \<and> ?dist \<and> ?one \<and> ?entries \<and> ?ready")
proof -
  let ?ts = "kw_threads s" and ?c = "kw_cpus s"
  have cur: "check_current me s = None \<longleftrightarrow> ?cur" by (auto simp: check_current_def current_valid_def split: option.splits)
  have table: "check_table [] [] (flatten ?ts) = None \<longleftrightarrow> ?dist \<and> ?one"
    using one_running [of "flatten ?ts"] by (auto simp: check_table_iff flatten_tids)
  have "?accepts \<longleftrightarrow> check_current me s = None \<and> check_table [] [] (flatten ?ts) = None \<and>
    (\<exists>q. check_queues ?ts ?c [] [0..<MAX_CPUS] = Ok q \<and> first_some (check_thread q) (flatten ?ts) = None)"
    by (auto simp: validate_runqueue_invariants_def split: option.splits result.splits)
  also have "\<dots> \<longleftrightarrow> ?cur \<and> (?dist \<and> ?one) \<and> ?entries \<and> first_some (check_thread (queue_tids_of ?c)) (flatten ?ts) = None"
    unfolding cur table queues_accepted [OF wf] by simp
  also have "\<dots> \<longleftrightarrow> ?cur \<and> ?dist \<and> ?one \<and> ?entries \<and> ?ready" using threads_accepted [OF wf, of ?ts] by argo
  finally show ?thesis .
qed

text \<open>The concrete system after its Ready thread got another priority, which queues it.\<close>

definition sample_ready :: Sched where
  "sample_ready = sample_sched \<lparr> kw_threads := fst (snd (set_process_priority 0 7 1 (kw_threads sample_sched) (kw_cpus sample_sched))),
    kw_cpus := snd (snd (set_process_priority 0 7 1 (kw_threads sample_sched) (kw_cpus sample_sched))) \<rparr>"

lemma sample_ready_inv: "sched_inv sample_ready"
  unfolding sample_ready_def by (rule sched_step_inv [OF Priority sample_inv])

lemma sample_ready_queued: "queued (kw_cpus sample_ready) 0 3 1"
  by code_simp

theorem validate_accepts_iff_witness:
  "cpus_wf (kw_cpus sample_ready) \<and> validate_runqueue_invariants 0 sample_ready = Ok 1 \<and> entries_valid (kw_threads sample_ready) (kw_cpus sample_ready)"
proof -
  have wf: "cpus_wf (kw_cpus sample_ready)" using sample_ready_inv by (simp add: sched_inv_def queues_consistent)
  have ok: "validate_runqueue_invariants 0 sample_ready = Ok 1" by code_simp
  then show ?thesis using validate_accepts_iff [OF wf, of 0] wf by blast
qed

section \<open>A kill that leaves a queue entry behind\<close>

text \<open>
  C18. A kill of a process that no CPU runs clears the slots of its threads but leaves the entries of its
  Ready threads in the run queues. The entry then names no thread, and the checker refuses the state on
  every CPU.
\<close>

theorem kill_pid_leaves_orphan:
  assumes "sched_inv s" and "find_kthread t (kw_threads s) = Some k" and "queued (kw_cpus s) cpu t p"
    and "kt_pid k \<noteq> 0" and "kt_pid k \<noteq> 1" and "\<not> is_pid_running_on_any_cpu (kt_pid k) (kw_cpus s)"
  shows "fst (kill_pid (kt_pid k) s) \<and> find_kthread t (kw_threads (snd (kill_pid (kt_pid k) s))) = None \<and>
    queued (kw_cpus (snd (kill_pid (kt_pid k) s))) cpu t p \<and>
    (\<forall>me n. validate_runqueue_invariants me (snd (kill_pid (kt_pid k) s)) \<noteq> Ok n)"
proof -
  let ?ts = "kw_threads s" and ?s' = "snd (kill_pid (kt_pid k) s)"
  have d: "distinct (tids_of ?ts)" and wf: "cpus_wf (kw_cpus s)" using assms(1) by (simp_all add: sched_inv_def queues_consistent)
  have k: "Some k \<in> set ?ts" "kt_tid k = t" using assms(2) find_kthread_SomeD by auto
  have "thread_tids_for_pid (kt_pid k) ?ts \<noteq> []" using k(1) by (force simp: thread_tids_for_pid_def split: option.splits)
  then have kill: "fst (kill_pid (kt_pid k) s)" "kw_cpus ?s' = kw_cpus s" "kw_threads ?s' = drop_threads {kt_pid k} ?ts"
    using assms(4-6) clear_process_threads [OF d] by (simp_all add: kill_pid_def Let_def)
  have "l = k" if "Some l \<in> set ?ts" "kt_tid l = t" for l using that k tids_of_inj [OF d] by blast
  then have gone: "find_kthread t (kw_threads ?s') = None"
    unfolding kill(3) find_kthread_None_iff by (auto simp: drop_threads_def tids_of_mem split: option.splits if_splits)
  then have "\<not> entry_ok (kw_threads ?s') cpu t" by (simp add: entry_ok_def)
  then have "\<not> entries_valid (kw_threads ?s') (kw_cpus ?s')" using assms(3) kill(2) unfolding entries_valid_def by metis
  then have "validate_runqueue_invariants me ?s' \<noteq> Ok n" for me n using validate_accepts wf kill(2) by metis
  then show ?thesis using kill gone assms(3) by simp
qed

theorem kill_pid_leaves_orphan_witness:
  "sched_inv sample_ready \<and> queued (kw_cpus sample_ready) 0 3 1 \<and> find_kthread 3 (kw_threads (snd (kill_pid 7 sample_ready))) = None \<and>
   queued (kw_cpus (snd (kill_pid 7 sample_ready))) 0 3 1"
proof -
  have "map_option kt_pid (find_kthread 3 (kw_threads sample_ready)) = Some 7" by code_simp
  then obtain k where k: "find_kthread 3 (kw_threads sample_ready) = Some k" "kt_pid k = 7" by (auto simp: map_option_eq_Some)
  have "\<not> is_pid_running_on_any_cpu 7 (kw_cpus sample_ready)" by code_simp
  then show ?thesis using kill_pid_leaves_orphan [OF sample_ready_inv k(1) sample_ready_queued] k(2) sample_ready_inv sample_ready_queued by simp
qed

end
