(* ===== verification/Handles.thy ===== *)
theory Handles
  imports Pipes Input UserMem KWait
begin

text \<open>
  Handles and the system calls on them: the handle table of a process (neodos-kernel/src/infra/handle.rs),
  creation of objects by path (object/table.rs), and the calls that read, write, duplicate and close
  handles and create pipes (syscall/handlers.rs, syscall/ob/create/pipe.rs).

  The state joins the Object Manager, the pipes, the input manager, the user memory and the handle table
  of the calling process, which exists, and a file system of parameter type \<open>'v\<close>, whose write operation
  is a parameter. Printed text and the value the caller blocks on are recorded. The read and write hooks
  of operations tables are left out: they are consulted first, but every table keeps the defaults, which
  decline. \<open>None\<close> is a call that does not return.
\<close>

section \<open>Handles\<close>

abbreviation (input) HANDLE_CLOSED :: u64 where "HANDLE_CLOSED \<equiv> 0"
abbreviation (input) HANDLE_STDIN :: u64 where "HANDLE_STDIN \<equiv> - 1"
abbreviation (input) HANDLE_STDOUT :: u64 where "HANDLE_STDOUT \<equiv> - 2"
abbreviation (input) HANDLE_STDERR :: u64 where "HANDLE_STDERR \<equiv> - 3"

record HandleEntry =
  he_object_id :: u64
  he_offset :: u64

definition he_ob_object :: "u64 \<Rightarrow> HandleEntry" where
  "he_ob_object i = \<lparr> he_object_id = i, he_offset = 0 \<rparr>"

definition he_closed :: HandleEntry where "he_closed = he_ob_object HANDLE_CLOSED"

definition has_ob_object :: "HandleEntry \<Rightarrow> bool" where
  "has_ob_object e \<longleftrightarrow> he_object_id e > 0 \<and> he_object_id e < HANDLE_STDERR"

definition is_open :: "HandleEntry \<Rightarrow> bool" where
  "is_open e \<longleftrightarrow> he_object_id e \<noteq> HANDLE_CLOSED"

text \<open>The constructors that register an object of their own for the handle.\<close>

datatype handle_kind = PipeReadEnd u8 | PipeWriteEnd u8 | FileHandle u8 u32 | DeviceHandle u32 | EventHandle u32 | DirHandle u8 u32

abbreviation (input) pipe_end_name :: "string \<Rightarrow> u8 \<Rightarrow> bytes" where
  "pipe_end_name end pipe_id \<equiv> (let n = ascii end @ [pipe_id + 0x30] in if utf8_valid n then n else ascii end)"

definition he_new :: "handle_kind \<Rightarrow> 'z ObMan_scheme \<Rightarrow> (HandleEntry \<times> 'z ObMan_scheme) option" where
  "he_new kind s = do {
     let (ty, name, native, flags, offset) = (case kind of
         PipeReadEnd p \<Rightarrow> (ObPipe, pipe_end_name ''PIPE_R'' p, ucast p, 0, 0)
       | PipeWriteEnd p \<Rightarrow> (ObPipe, pipe_end_name ''PIPE_W'' p, ucast p, 0, 1)
       | FileHandle drive inode \<Rightarrow> (ObFilesystem, ascii ''FILE'', ucast inode, ucast drive, 0)
       | DeviceHandle device_id \<Rightarrow> (ObDevice, ascii ''DEVICE'', ucast device_id, 0, 0)
       | EventHandle event_type \<Rightarrow> (ObEvent, ascii ''EVENT'', ucast event_type, 0, 0)
       | DirHandle drive inode \<Rightarrow> (ObDirectory, ascii ''DIR'', ucast inode, ucast drive, 0));
     (i, s1) \<leftarrow> ob_create_object ty name native flags None s;
     Some (\<lparr> he_object_id = i, he_offset = offset \<rparr>, s1) }"

text \<open>The object behind a handle, and what the accessors read of it.\<close>

definition he_lookup :: "HandleEntry \<Rightarrow> 'z ObMan_scheme \<Rightarrow> ObObject option option" where
  "he_lookup e s = (if has_ob_object e then ob_lookup (he_object_id e) (om_table s) else Some None)"

definition is_valid :: "HandleEntry \<Rightarrow> 'z ObMan_scheme \<Rightarrow> bool option" where
  "is_valid e s = (if has_ob_object e then map_option (\<lambda>r. r \<noteq> None) (ob_lookup (he_object_id e) (om_table s)) else Some True)"

definition obj_type :: "ObObject option \<Rightarrow> ObType option" where
  "obj_type = map_option ob_type"

definition native_id :: "ObObject option \<Rightarrow> u64" where
  "native_id r = (case r of Some ob \<Rightarrow> ob_native_id ob | None \<Rightarrow> 0)"

definition drive :: "ObObject option \<Rightarrow> u8" where
  "drive r = (case r of Some ob \<Rightarrow> ucast (ob_flags ob AND 0xFF) | None \<Rightarrow> 0)"

definition is_pipe_read :: "HandleEntry \<Rightarrow> ObObject option \<Rightarrow> bool" where
  "is_pipe_read e r \<longleftrightarrow> obj_type r = Some ObPipe \<and> he_offset e = 0"

definition is_pipe_write :: "HandleEntry \<Rightarrow> ObObject option \<Rightarrow> bool" where
  "is_pipe_write e r \<longleftrightarrow> obj_type r = Some ObPipe \<and> he_offset e = 1"

definition he_close :: "'z destroy_cb \<Rightarrow> HandleEntry \<Rightarrow> 'z ObMan_scheme \<Rightarrow> (HandleEntry \<times> 'z ObMan_scheme) option" where
  "he_close cb e s = do {
     v \<leftarrow> is_valid e s;
     (_, s1) \<leftarrow> (if has_ob_object e \<and> v then ob_close_object cb (he_object_id e) s else Some (Ok (), s));
     Some (he_closed, s1) }"

section \<open>The handle table\<close>

type_synonym HandleTable = "HandleEntry list"

definition ht_with_defaults :: HandleTable where
  "ht_with_defaults = [he_ob_object HANDLE_STDIN, he_ob_object HANDLE_STDOUT, he_ob_object HANDLE_STDERR]"

definition ht_get :: "u8 \<Rightarrow> HandleTable \<Rightarrow> HandleEntry" where
  "ht_get fd es = (if unat fd < length es then es ! unat fd else he_closed)"

definition ht_set :: "u8 \<Rightarrow> HandleEntry \<Rightarrow> HandleTable \<Rightarrow> HandleTable" where
  "ht_set fd e es = (es @ replicate (unat fd + 1 - length es) he_closed)[unat fd := e]"

text \<open>The closed entries above the standard streams, in the order of the scans.\<close>

definition ht_free :: "HandleTable \<Rightarrow> nat list" where
  "ht_free es = filter (\<lambda>i. \<not> is_open (es ! i)) [3..<length es]"

definition alloc_handle :: "HandleEntry \<Rightarrow> HandleTable \<Rightarrow> u8 option \<times> HandleTable" where
  "alloc_handle e es = (case ht_free es of
      i # _ \<Rightarrow> (Some (of_nat i), es[i := e])
    | [] \<Rightarrow> if length es > 255 then (None, es) else (Some (of_nat (length es)), es @ [e]))"

definition alloc_two_handles :: "HandleEntry \<Rightarrow> HandleEntry \<Rightarrow> HandleTable \<Rightarrow> (u8 \<times> u8) option \<times> HandleTable" where
  "alloc_two_handles e1 e2 es = (case ht_free es of
      [] \<Rightarrow> (None, es)
    | [i] \<Rightarrow> (let f = of_nat i :: u8 in
        if length es > 255 then (None, es)
        else (Some (f, of_nat (length es)), (es @ [e2])[unat f := e1]))
    | i # j # _ \<Rightarrow> (let a = of_nat i :: u8; b = of_nat j :: u8
        in (Some (a, b), es[unat a := e1, unat b := e2])))"

section \<open>System calls\<close>

datatype SyscallError = Inval | NoEnt | NoMem | Acces | BadF | Fault | NoSys | Again | PipeError | Exist | NotDir | IsDir
  | Io | NoDev | Busy | Perm

definition err_to_u64 :: "SyscallError \<Rightarrow> u64" where
  "err_to_u64 e = - (case e of Inval \<Rightarrow> 1 | NoEnt \<Rightarrow> 2 | NoMem \<Rightarrow> 3 | Acces \<Rightarrow> 4 | BadF \<Rightarrow> 5 | Fault \<Rightarrow> 6 | NoSys \<Rightarrow> 7
     | Again \<Rightarrow> 8 | PipeError \<Rightarrow> 9 | Exist \<Rightarrow> 10 | NotDir \<Rightarrow> 11 | IsDir \<Rightarrow> 12 | Io \<Rightarrow> 13 | NoDev \<Rightarrow> 14 | Busy \<Rightarrow> 15 | Perm \<Rightarrow> 16)"

definition ob_err_to_syscall :: "ObError \<Rightarrow> SyscallError" where
  "ob_err_to_syscall e = (case e of ObNotFound \<Rightarrow> NoEnt | ObAlreadyExists \<Rightarrow> Exist | ObInvalidParam \<Rightarrow> Inval
     | ObRefCountHeld \<Rightarrow> Busy | ObOutOfMemory \<Rightarrow> NoMem | ObAccessDenied \<Rightarrow> Acces | ObNotSupported \<Rightarrow> NoSys
     | ObInvalidType \<Rightarrow> Inval | ObTableFull \<Rightarrow> NoMem)"

record ('c, 'v) ProcState = IoState +
  ps_handles :: HandleTable
  ps_input :: "'c InputManager"
  ps_vt :: u8
  ps_user :: UserMem
  ps_vfs :: 'v
  ps_printed :: bytes
  ps_blocked :: "u64 option"

type_synonym ('c, 'v) on_destroy = "('c, 'v, unit) ProcState_ext IoState_ext destroy_cb"

definition set_current_handle :: "u8 \<Rightarrow> HandleEntry \<Rightarrow> ('c, 'v) ProcState \<Rightarrow> ('c, 'v) ProcState" where
  "set_current_handle fd e s = s \<lparr> ps_handles := ht_set fd e (ps_handles s) \<rparr>"

text \<open>The parameter gives what \<open>vfs.write\<close> does for a drive, inode, offset and data.\<close>

definition handler_write :: "(nat \<Rightarrow> u32 \<Rightarrow> u64 \<Rightarrow> bytes \<Rightarrow> 'v \<Rightarrow> (nat, unit) result \<times> 'v) \<Rightarrow> u8 \<Rightarrow> u64 \<Rightarrow> nat \<Rightarrow>
    ('c, 'v) ProcState \<Rightarrow> (u64 \<times> ('c, 'v) ProcState) option" where
  "handler_write vfs_write fd ptr len s =
    (if len > 4096 then Some (err_to_u64 Fault, s)
     else case copy_from_user len ptr (ps_user s) of
       Err _ \<Rightarrow> Some (err_to_u64 Fault, s)
     | Ok data \<Rightarrow> (let entry = ht_get fd (ps_handles s) in do {
         r \<leftarrow> he_lookup entry s;
         if he_object_id entry = HANDLE_STDOUT \<or> he_object_id entry = HANDLE_STDERR
         then Some (of_nat len, if utf8_valid data then s \<lparr> ps_printed := ps_printed s @ data \<rparr> else s)
         else if is_pipe_write entry r
         then (case pm_write (ucast (native_id r)) data s of
             (Ok n, s1) \<Rightarrow> Some (of_nat n, s1)
           | (Err _, s1) \<Rightarrow> Some (err_to_u64 PipeError, s1))
         else if obj_type r = Some ObFilesystem
         then (case vfs_write (unat (drive r)) (ucast (native_id r)) (he_offset entry) data (ps_vfs s) of
             (Ok n, v) \<Rightarrow> Some (of_nat n, set_current_handle fd (entry \<lparr> he_offset := he_offset entry + of_nat n \<rparr>) (s \<lparr> ps_vfs := v \<rparr>))
           | (Err _, v) \<Rightarrow> Some (err_to_u64 Io, s \<lparr> ps_vfs := v \<rparr>))
         else Some (err_to_u64 BadF, s) }))"

text \<open>
  The loop that takes bytes of a terminal up to a count or the end of a line. \<open>None\<close> as the first
  component means that there was no byte at all, and the caller blocks.
\<close>

fun stdin_loop :: "nat \<Rightarrow> nat \<Rightarrow> bytes \<Rightarrow> 'c InputManager \<Rightarrow> bytes option \<times> 'c InputManager" where
  "stdin_loop vt 0 acc m = (Some acc, m)"
| "stdin_loop vt (Suc n) acc m = (case pop_byte_from_vt vt m of
      (Some byte, m1) \<Rightarrow> if byte = 13 \<or> byte = 10 then (Some (acc @ [byte]), m1) else stdin_loop vt n (acc @ [byte]) m1
    | (None, m1) \<Rightarrow> if acc \<noteq> [] then (Some acc, m1) else (None, m1))"

definition WAIT_STDIN :: u64 where "WAIT_STDIN = 0xFFFFFFFF"

definition block_current :: "u64 \<Rightarrow> ('c, 'v) ProcState \<Rightarrow> ('c, 'v) ProcState" where
  "block_current magic s = s \<lparr> ps_blocked := Some magic, ps_input := set_need_resched (ps_input s) \<rparr>"

definition give_user :: "u64 \<Rightarrow> bytes \<Rightarrow> ('c, 'v) ProcState \<Rightarrow> u64 \<times> ('c, 'v) ProcState" where
  "give_user ptr data s = (let (r, u) = copy_to_user ptr data (ps_user s)
     in (case r of Ok _ \<Rightarrow> of_nat (length data) | Err _ \<Rightarrow> err_to_u64 Fault, s \<lparr> ps_user := u \<rparr>))"

definition handler_read :: "u8 \<Rightarrow> u64 \<Rightarrow> nat \<Rightarrow> ('c, 'v) ProcState \<Rightarrow> (u64 \<times> ('c, 'v) ProcState) option" where
  "handler_read fd ptr len s =
    (if len > 4096 then Some (err_to_u64 Fault, s)
     else let entry = ht_get fd (ps_handles s) in do {
       r \<leftarrow> he_lookup entry s;
       if he_object_id entry = HANDLE_STDIN
       then (case stdin_loop (unat (ps_vt s)) len [] (ps_input s) of
           (None, m) \<Rightarrow> Some (err_to_u64 Again, block_current WAIT_STDIN (s \<lparr> ps_input := m \<rparr>))
         | (Some data, m) \<Rightarrow> Some (give_user ptr data (s \<lparr> ps_input := m \<rparr>)))
       else if is_pipe_read entry r
       then (case pm_read (ucast (native_id r)) len s of
           (Ok [], s1) \<Rightarrow> Some (0, s1)
         | (Ok data, s1) \<Rightarrow> Some (give_user ptr data s1)
         | (Err _, s1) \<Rightarrow> Some (err_to_u64 Again, block_current (encode_magic (PipeRead (ucast (native_id r)))) s1))
       else Some (err_to_u64 BadF, s) })"

definition handler_dup2 :: "('c, 'v) on_destroy \<Rightarrow> u8 \<Rightarrow> u8 \<Rightarrow> ('c, 'v) ProcState \<Rightarrow> (u64 \<times> ('c, 'v) ProcState) option" where
  "handler_dup2 cb old_fd new_fd s = (let src = ht_get old_fd (ps_handles s); dst = ht_get new_fd (ps_handles s) in
     if \<not> is_open src then Some (err_to_u64 BadF, s)
     else do {
       d \<leftarrow> he_lookup dst s;
       s1 \<leftarrow> (if is_pipe_read dst d then dec_read_ref cb (ucast (native_id d)) s
              else if is_pipe_write dst d then dec_write_ref cb (ucast (native_id d)) s
              else if has_ob_object dst then map_option snd (ob_close_object cb (he_object_id dst) s)
              else Some s);
       r \<leftarrow> he_lookup src s1;
       let s2 = (if is_pipe_read src r then inc_read_ref (ucast (native_id r)) s1
                 else if is_pipe_write src r then inc_write_ref (ucast (native_id r)) s1 else s1);
       Some (ucast new_fd, set_current_handle new_fd src s2) })"

definition handler_close :: "('c, 'v) on_destroy \<Rightarrow> u8 \<Rightarrow> ('c, 'v) ProcState \<Rightarrow> (u64 \<times> ('c, 'v) ProcState) option" where
  "handler_close cb fd s = (let entry = ht_get fd (ps_handles s) in do {
     r \<leftarrow> he_lookup entry s;
     s1 \<leftarrow> (if is_pipe_read entry r then dec_read_ref cb (ucast (native_id r)) s
            else if is_pipe_write entry r then dec_write_ref cb (ucast (native_id r)) s else Some s);
     s2 \<leftarrow> (if he_object_id entry \<noteq> 0 then map_option snd (ob_close_object cb (he_object_id entry) s1) else Some s1);
     Some (0, set_current_handle fd he_closed s2) })"

text \<open>Entering a new object in the namespace, with the directories above it.\<close>

definition enter_path :: "('c, 'v) on_destroy \<Rightarrow> bytes \<Rightarrow> u64 \<Rightarrow> ('c, 'v) ProcState \<Rightarrow> ((u64, ObError) result \<times> ('c, 'v) ProcState) option" where
  "enter_path cb path i s = (let s1 = s \<lparr> om_ns := ob_create_directory_tree path (om_ns s) \<rparr> in
     case insert_object path i (om_ns s1) of
       Ok (_, d) \<Rightarrow> Some (Ok i, s1 \<lparr> om_ns := d \<rparr>)
     | Err _ \<Rightarrow> map_option (\<lambda>(_, s2). (Err ObAlreadyExists, s2)) (ob_destroy_object cb i s1))"

definition ob_create_object_path :: "('c, 'v) on_destroy \<Rightarrow> bytes \<Rightarrow> ObType \<Rightarrow> u32 \<Rightarrow> nat option \<Rightarrow> ('c, 'v) ProcState \<Rightarrow>
    ((u64, ObError) result \<times> ('c, 'v) ProcState) option" where
  "ob_create_object_path cb path ty attrs ops s = (let normalized = normalize_path path;
       leaf = List.rev (takeWhile (\<lambda>b. b \<noteq> SEP) (List.rev normalized)) in
     if SEP \<notin> set normalized \<or> leaf = [] then Some (Err ObInvalidParam, s)
     else if ty = ObUnknown then Some (Err ObInvalidType, s)
     else if take (length FS_PREFIX) normalized = FS_PREFIX then Some (Err ObInvalidParam, s)
     else do {
       (native, s1) \<leftarrow> (if ty = ObPipe then map_option (map_prod (map_option ucast) id) (pipe_alloc s) else Some (Some (ucast attrs), s));
       (case native of
          None \<Rightarrow> Some (Err ObOutOfMemory, s1)
        | Some n \<Rightarrow> do {
            (i, s2) \<leftarrow> ob_create_object ty leaf n attrs ops s1;
            enter_path cb normalized i s2 }) })"

text \<open>Creating a pipe with its two handles, whose numbers are stored at \<open>fds_out\<close>.\<close>

definition pipe_dispatch :: "('c, 'v) on_destroy \<Rightarrow> bytes \<Rightarrow> u64 \<Rightarrow> ('c, 'v) ProcState \<Rightarrow> (u64 \<times> ('c, 'v) ProcState) option" where
  "pipe_dispatch cb path fds_out s =
    (if fds_out = 0 \<or> \<not> is_user_ptr_valid (ps_user s) fds_out 16 then Some (err_to_u64 Fault, s)
     else do {
       (r, s1) \<leftarrow> ob_create_object_path cb path ObPipe 0 (Some PIPE_OPS) s;
       (case r of
          Err e \<Rightarrow> Some (err_to_u64 (ob_err_to_syscall e), s1)
        | Ok i \<Rightarrow> do {
            ob \<leftarrow> Option.bind (ob_lookup i (om_table s1)) id;
            let pipe_id = ucast (ob_native_id ob);
            (case alloc_two_handles (he_ob_object i) (he_ob_object i \<lparr> he_offset := 1 \<rparr>) (ps_handles s1) of
               (Some (rfd, wfd), hs) \<Rightarrow> (let s2 = inc_write_ref pipe_id (inc_read_ref pipe_id (s1 \<lparr> ps_handles := hs \<rparr>)) in
                 if rfd = 0 then map_option (\<lambda>(_, s3). (err_to_u64 NoMem, s3)) (ob_close_object cb i s2)
                 else do {
                   (_, s3) \<leftarrow> on_table (ob_reference i) s2;
                   (_, s4) \<leftarrow> on_table (ob_reference i) s3;
                   (_, s5) \<leftarrow> ob_close_object cb i s4;
                   let (q, u) = copy_to_user fds_out (le_bytes 8 (unat rfd) @ le_bytes 8 (unat wfd)) (ps_user s5);
                   Some (case q of Ok _ \<Rightarrow> ucast rfd | Err _ \<Rightarrow> err_to_u64 Fault, s5 \<lparr> ps_user := u \<rparr>) })
             | (None, hs) \<Rightarrow> map_option (\<lambda>(_, s3). (err_to_u64 NoMem, s3)) (ob_close_object cb i (s1 \<lparr> ps_handles := hs \<rparr>))) }) })"

section \<open>Allocation of handles\<close>

lemma unat_fd: "i < 256 \<Longrightarrow> unat (of_nat i :: u8) = i"
  by (simp add: unat_of_nat)

lemma fd_bound: "unat (fd :: u8) < 256"
  using unat_bound [of fd] by simp

lemma ht_free_mem: "i \<in> set (ht_free es) \<longleftrightarrow> 3 \<le> i \<and> i < length es \<and> \<not> is_open (es ! i)"
  by (auto simp: ht_free_def)

lemma he_closed_not_open [simp]: "\<not> is_open he_closed"
  by (simp add: is_open_def he_closed_def he_ob_object_def)

text \<open>
  A handle is never given out twice: an allocated number was closed, becomes the given entry, and no
  other number changes. Allocation fails only when all numbers above the standard streams are open.
\<close>

lemma alloc_handle_fresh:
  assumes "length es \<le> 256"
  shows "case alloc_handle e es of
      (Some fd, es') \<Rightarrow> \<not> is_open (ht_get fd es) \<and> ht_get fd es' = e \<and> (\<forall>fd'. fd' \<noteq> fd \<longrightarrow> ht_get fd' es' = ht_get fd' es) \<and>
        length es' \<le> 256
    | (None, es') \<Rightarrow> es' = es \<and> (\<forall>fd \<ge> 3. is_open (ht_get fd es))"
proof -
  have eq: "fd = of_nat i" if "unat fd = i" for fd :: u8 and i using that by auto
  show ?thesis
  proof (cases "ht_free es")
    case (Cons i js)
    then have i: "3 \<le> i" "i < length es" "\<not> is_open (es ! i)" using ht_free_mem [of i es] by auto
    then have "unat (of_nat i :: u8) = i" using assms unat_fd by simp
    then show ?thesis using i assms eq by (auto simp: alloc_handle_def Cons ht_get_def nth_list_update)
  next
    case Nil
    show ?thesis
    proof (cases "length es > 255")
      case True
      have "is_open (ht_get fd es)" if "fd \<ge> 3" for fd
      proof -
        have "unat fd < length es" using fd_bound [of fd] True by linarith
        moreover have "3 \<le> unat fd" using that by (simp add: word_le_nat_alt)
        ultimately show ?thesis using Nil ht_free_mem [of "unat fd" es] by (auto simp: ht_get_def)
      qed
      then show ?thesis using True by (simp add: alloc_handle_def Nil)
    next
      case False
      then have "unat (of_nat (length es) :: u8) = length es" using unat_fd by simp
      moreover have "unat fd' \<noteq> length es" if "fd' \<noteq> of_nat (length es)" for fd' :: u8 using that eq by blast
      ultimately show ?thesis using False
        by (auto simp: alloc_handle_def Nil ht_get_def nth_append less_Suc_eq)
    qed
  qed
qed

section \<open>Reading a line\<close>

text \<open>The bytes up to and including the first end of line.\<close>

definition line_of :: "bytes \<Rightarrow> bytes" where
  "line_of q = (let rest = dropWhile (\<lambda>b. b \<noteq> 13 \<and> b \<noteq> 10) q in takeWhile (\<lambda>b. b \<noteq> 13 \<and> b \<noteq> 10) q @ take 1 rest)"

lemma line_of_simps:
  "line_of [] = []" "line_of (b # q) = (if b = 13 \<or> b = 10 then [b] else b # line_of q)"
  by (simp_all add: line_of_def)

definition vt_bytes :: "nat \<Rightarrow> 'c InputManager \<Rightarrow> bytes" where
  "vt_bytes vt m = vq_abs (im_queues m ! vt)"

lemma pop_vt:
  assumes "im_inv m" and "vt < VT_COUNT"
  shows "fst (pop_byte_from_vt vt m) = (case vt_bytes vt m of [] \<Rightarrow> None | b # _ \<Rightarrow> Some b)"
    and "vt_bytes vt (snd (pop_byte_from_vt vt m)) = tl (vt_bytes vt m)"
proof -
  have inv: "vq_inv (im_queues m ! vt)" and len: "vt < length (im_queues m)" using assms by (simp_all add: im_inv_def)
  obtain r q' where p: "vq_pop (im_queues m ! vt) = (r, q')" by fastforce
  then have "(r, vq_abs q') = list_pop (vt_bytes vt m)" using vq.pop_abs [OF inv] by (simp add: vt_bytes_def)
  then have r: "r = (case vt_bytes vt m of [] \<Rightarrow> None | b # _ \<Rightarrow> Some b)" "vq_abs q' = tl (vt_bytes vt m)"
    by (cases "vt_bytes vt m"; simp)+
  have "pop_byte_from_vt vt m = (r, m \<lparr> im_queues := (im_queues m)[vt := q'] \<rparr>)"
    using assms(2) p by (simp add: pop_byte_from_vt_def)
  then show "fst (pop_byte_from_vt vt m) = (case vt_bytes vt m of [] \<Rightarrow> None | b # _ \<Rightarrow> Some b)"
    and "vt_bytes vt (snd (pop_byte_from_vt vt m)) = tl (vt_bytes vt m)"
    using r len by (simp_all add: vt_bytes_def)
qed

lemma stdin_loop_line:
  assumes "im_inv m" and "vt < VT_COUNT"
  shows "fst (stdin_loop vt n acc m) =
      (if n > 0 \<and> acc = [] \<and> vt_bytes vt m = [] then None else Some (acc @ take n (line_of (vt_bytes vt m)))) \<and>
    vt_bytes vt (snd (stdin_loop vt n acc m)) = drop (length (take n (line_of (vt_bytes vt m)))) (vt_bytes vt m)"
  using assms(1)
proof (induction n arbitrary: acc m)
  case (Suc n)
  have inv: "im_inv (snd (pop_byte_from_vt vt m))" using im_inv_ops [OF Suc.prems] by blast
  obtain r m1 where p: "pop_byte_from_vt vt m = (r, m1)" by fastforce
  show ?case
  proof (cases "vt_bytes vt m")
    case Nil
    then show ?thesis using pop_vt [OF Suc.prems assms(2)] p by (simp add: line_of_simps)
  next
    case (Cons b q)
    then have "r = Some b" "vt_bytes vt m1 = q" using pop_vt [OF Suc.prems assms(2)] p by simp_all
    then show ?thesis using Suc.IH [of m1 "acc @ [b]"] inv p Cons by (simp add: line_of_simps)
  qed
qed simp

text \<open>
  C35. Reading from standard input returns the next line of the terminal: the bytes that were typed, in
  order, up to the end of the line or the requested number, and they are removed from the terminal's
  queue. With nothing typed the caller blocks until there is input.
\<close>

theorem stdin_read_line:
  assumes "im_inv (ps_input s)" and "unat (ps_vt s) < VT_COUNT" and "he_object_id (ht_get fd (ps_handles s)) = HANDLE_STDIN"
    and "0 < n" and "n \<le> 4096"
  shows "\<exists>m. let q = vt_bytes (unat (ps_vt s)) (ps_input s); line = take n (line_of q) in
    vt_bytes (unat (ps_vt s)) m = drop (length line) q \<and>
    handler_read fd ptr n s = Some (if q = [] then (err_to_u64 Again, block_current WAIT_STDIN (s \<lparr> ps_input := m \<rparr>))
      else give_user ptr line (s \<lparr> ps_input := m \<rparr>))"
proof -
  obtain r m where l: "stdin_loop (unat (ps_vt s)) n [] (ps_input s) = (r, m)" by fastforce
  have "he_lookup (ht_get fd (ps_handles s)) s = Some None"
    using assms(3) by (simp add: he_lookup_def has_ob_object_def)
  then show ?thesis using l stdin_loop_line [OF assms(1,2), of n "[]"] assms(3-5)
    by (intro exI [of _ m]) (auto simp: handler_read_def Let_def)
qed

section \<open>References that are not counted\<close>

lemma ht_get_set: "ht_get x (ht_set fd e es) = (if x = fd then e else ht_get x es)"
  by (auto simp: ht_get_def ht_set_def nth_append nth_list_update word_unat_eq_iff)

lemma ob_close_last:
  assumes "ob_inv n (om_table s)" and "ob_map (om_table s) i = Some ob" and "ob_refcount ob = 1" and "ob_ops ob = None"
    and "i \<noteq> TOMBSTONE"
  shows "\<exists>t d sec. ob_close_object cb i s = Some (Ok (), s \<lparr> om_table := t, om_security := sec, om_ns := d \<rparr>) \<and>
    ob_inv n t \<and> ob_map t = (ob_map (om_table s))(i := None)"
proof -
  obtain q t where d: "ob_dereference i (om_table s) = Some (q, t)" and t: "ob_inv n t" "q = Ok 0"
      "ob_map t = (ob_map (om_table s))(i \<mapsto> ob \<lparr> ob_refcount := 0 \<rparr>)"
    using ob_modify_map [OF assms(1,5), of "\<lambda>ob. let n = (if ob_refcount ob > 0 then ob_refcount ob - 1 else ob_refcount ob)
     in (n, ob \<lparr> ob_refcount := n \<rparr>)"] assms(2,3) by (auto simp: ob_dereference_def Let_def)
  obtain q' t' where u: "ob_unlink i t = Some (q', t')" "ob_inv n t'" "q' = Ok (None, ob_native_id ob)"
      "ob_map t' = (ob_map t)(i := None)"
    using ob_unlink_map [OF t(1) assms(5)] t(3) assms(4) by auto
  show ?thesis using d t u
    by (auto simp: ob_close_object_def on_table_def ob_destroy_object_def take_for_destroy_def finish_destroy_def intro!: exI)
qed

text \<open>
  C40. A duplicated handle does not keep its object alive: after duplicating the only handle of an object
  that is not a pipe, closing the copy destroys the object, and the original handle, still open, refers
  to nothing.
\<close>

theorem dup2_then_close_destroys:
  assumes "ob_inv 0 (om_table s)" and "ob_map (om_table s) i = Some ob" and "ob_refcount ob = 1" and "ob_ops ob = None"
    and "ob_type ob \<noteq> ObPipe" and "0 < i" and "i < HANDLE_STDERR"
    and "ht_get fd (ps_handles s) = he_ob_object i" and "ht_get copy (ps_handles s) = he_closed" and "fd \<noteq> copy"
  shows "\<exists>s1 s2. handler_dup2 cb fd copy s = Some (ucast copy, s1) \<and> handler_close cb copy s1 = Some (0, s2) \<and>
    ht_get fd (ps_handles s2) = he_ob_object i \<and> is_valid (he_ob_object i) s2 = Some False"
proof -
  let ?e = "he_ob_object i" and ?s1 = "set_current_handle copy (he_ob_object i) s"
  have i: "i \<noteq> TOMBSTONE" using assms(7) by (auto simp: TOMBSTONE_def)
  have look: "he_lookup ?e t = Some (ob_map (om_table t) i)" if "ob_inv 0 (om_table t)" for t :: "('a, 'b) ProcState"
    using ob_lookup_map [OF that i] assms(6,7) by (simp add: he_lookup_def has_ob_object_def he_ob_object_def)
  have closed: "he_lookup he_closed s = Some None" "\<not> has_ob_object he_closed"
    by (simp_all add: he_lookup_def has_ob_object_def he_closed_def he_ob_object_def)
  have open_e: "is_open ?e" "he_object_id ?e = i" using assms(6) by (simp_all add: is_open_def he_ob_object_def)
  have d: "handler_dup2 cb fd copy s = Some (ucast copy, ?s1)"
    using assms(2,5,8,9) open_e closed look [OF assms(1)]
    by (simp add: handler_dup2_def Let_def is_pipe_read_def is_pipe_write_def obj_type_def)
  have inv: "ob_inv 0 (om_table ?s1)" "ob_map (om_table ?s1) i = Some ob" using assms(1,2) by (simp_all add: set_current_handle_def)
  obtain t dd sec where c: "ob_close_object cb i ?s1 = Some (Ok (), ?s1 \<lparr> om_table := t, om_security := sec, om_ns := dd \<rparr>)"
      "ob_inv 0 t" "ob_map t i = None"
    using ob_close_last [OF inv assms(3,4) i, of cb] by auto
  let ?s2 = "set_current_handle copy he_closed (?s1 \<lparr> om_table := t, om_security := sec, om_ns := dd \<rparr>)"
  have "handler_close cb copy ?s1 = Some (0, ?s2)"
    using look [OF inv(1)] inv(2) c(1) open_e assms(5,6)
    by (simp add: handler_close_def set_current_handle_def ht_get_set is_pipe_read_def is_pipe_write_def obj_type_def Let_def)
  moreover have "is_valid ?e ?s2 = Some False"
    using ob_lookup_map [OF c(2) i] c(3) assms(6,7)
    by (simp add: is_valid_def has_ob_object_def he_ob_object_def set_current_handle_def)
  moreover have "ht_get fd (ps_handles ?s2) = ?e" using assms(8,10) by (simp add: set_current_handle_def ht_get_set)
  ultimately show ?thesis using d by blast
qed

text \<open>A process with the given objects and handles on a fresh machine.\<close>

definition proc :: "ObTable \<Rightarrow> HandleTable \<Rightarrow> (unit, unit) ProcState" where
  "proc t hs = IoState.extend (io_new \<lparr> om_table := t \<rparr>) \<lparr> ps_handles = hs, ps_input = im_new () (), ps_vt = 0, ps_user = plain_mem,
     ps_vfs = (), ps_printed = [], ps_blocked = None \<rparr>"

lemma proc_sel [simp]:
  "om_table (proc t hs) = t" "ps_handles (proc t hs) = hs" "ps_input (proc t hs) = im_new () ()" "ps_vt (proc t hs) = 0"
  by (simp_all add: proc_def io_new_def IoState.extend_def ObMan.extend_def)

theorem stdin_read_line_witness:
  "\<exists>s. handler_read 0 0x00500000 5 (proc ob_table_new ht_with_defaults) = Some (err_to_u64 Again, s) \<and> ps_blocked s = Some WAIT_STDIN"
proof -
  have "vt_bytes 0 (im_new () ()) = []" by (simp add: vt_bytes_def im_new_def vq_new_abs)
  then show ?thesis
    using stdin_read_line [of "proc ob_table_new ht_with_defaults" 0 5 "0x00500000"] im_new_inv [of "()" "()"]
    by (auto simp: ht_get_def ht_with_defaults_def he_ob_object_def block_current_def)
qed

theorem dup2_then_close_destroys_witness:
  "\<exists>t s1 s2. handler_dup2 (\<lambda>_ _ _. Some) 3 4 (proc t (ht_with_defaults @ [he_ob_object 1])) = Some (4, s1) \<and>
    handler_close (\<lambda>_ _ _. Some) 4 s1 = Some (0, s2) \<and> ht_get 3 (ps_handles s2) = he_ob_object 1 \<and>
    is_valid (he_ob_object 1) s2 = Some False"
proof -
  obtain t where t: "ob_inv 0 t" "ob_map t 1 = Some (fresh_object 1 ObEvent [] 0 0 None)"
    using ob_create_map [OF ob_new_inv [of "Suc 0"], of ObEvent "[]" 0 0 None] by (auto simp: ob_table_new_def)
  have "\<exists>s1 s2. handler_dup2 (\<lambda>_ _ _. Some) 3 4 (proc t (ht_with_defaults @ [he_ob_object 1])) = Some (ucast (4 :: u8), s1) \<and>
    handler_close (\<lambda>_ _ _. Some) 4 s1 = Some (0, s2) \<and> ht_get 3 (ps_handles s2) = he_ob_object 1 \<and>
    is_valid (he_ob_object 1) s2 = Some False"
    by (rule dup2_then_close_destroys [where ob = "fresh_object 1 ObEvent [] 0 0 None"])
      (simp_all add: t ht_get_def ht_with_defaults_def word_less_nat_alt)
  then show ?thesis by auto
qed

lemma reuse_stdin:
  "idx_get (ot_index reuse_table) (- 1) = Some (Some 8)"
  "idx_remove (ot_index reuse_table) (- 1) = Some (ot_index reuse_table \<lparr> ix_len := 8 \<rparr>)"
  "idx_get (ot_index reuse_table) 10 = Some (Some 8)"
  "idx_get (ot_index reuse_table \<lparr> ix_len := n \<rparr>) 10 = Some (Some 8)"
  by (simp_all add: reuse_table_def ix16_def idx_remove_def idx_get_def Let_def
      EMPTY_def TOMBSTONE_def idx_hash_ids idx_remove_loop.simps idx_get_loop.simps)

text \<open>
  Closing standard input can destroy an object of another program: the handle's id is looked up as
  if it were the id of an object, and after an object has been destroyed and its slot used again, the
  lookup finds the unrelated object there, drops its last reference and removes it.
\<close>

lemma close_stdin_destroys_object:
  "\<exists>t s. map_option snd (run_opt ob_step reuse_run ob_table_new) = Some t \<and>
    ob_lookup 10 t = Some (Some (fresh_object 10 ObSemaphore [0x62] 5 0 None)) \<and>
    handler_close cb 0 (proc t ht_with_defaults) = Some (0, s) \<and> ob_lookup 10 (om_table s) = Some None"
proof -
  have slot: "length (ot_slots reuse_table) = 9" "ot_slots reuse_table ! 8 = Some (fresh_object 10 ObSemaphore [0x62] 5 0 None)"
    by (simp_all add: reuse_table_def)
  have stdin: "ht_get 0 ht_with_defaults = he_ob_object (- 1)" "he_lookup (he_ob_object (- 1)) (proc reuse_table ht_with_defaults) = Some None"
    by (simp_all add: ht_get_def ht_with_defaults_def he_lookup_def has_ob_object_def he_ob_object_def)
  obtain s where c: "ob_close_object cb (- 1) (proc reuse_table ht_with_defaults) = Some (Ok (), s)" "ob_lookup 10 (om_table s) = Some None"
    by (simp add: ob_close_object_def ob_destroy_object_def take_for_destroy_def finish_destroy_def on_table_def
        ob_dereference_def ob_modify_def ob_unlink_def ob_lookup_def reuse_stdin slot)
  have "handler_close cb 0 (proc reuse_table ht_with_defaults) = Some (0, set_current_handle 0 he_closed s)"
    using c(1) by (simp add: handler_close_def stdin is_pipe_read_def is_pipe_write_def obj_type_def) (simp add: he_ob_object_def)
  moreover have "ob_lookup 10 (om_table (set_current_handle 0 he_closed s)) = Some None"
    using c(2) by (simp add: set_current_handle_def)
  moreover have "ob_lookup 10 reuse_table = Some (Some (fresh_object 10 ObSemaphore [0x62] 5 0 None))"
    by (simp add: ob_lookup_def reuse_stdin slot)
  ultimately show ?thesis using reuse_run_table by blast
qed

section \<open>Creating pipes\<close>

lemma handles_frame [simp]:
  "ps_handles (ensure_idx i s) = ps_handles s" "ps_handles (set_kobj_id i k s) = ps_handles s"
  by (simp_all add: ensure_idx_def set_kobj_id_def Let_def)

lemma create_handles: "ob_create_object ty name n fl ops s = Some (i, s1) \<Longrightarrow> ps_handles s1 = ps_handles s"
  by (auto simp: ob_create_object_def on_table_def)

lemma register_pipe_handles: "register_pipe i s = Some s1 \<Longrightarrow> ps_handles s1 = ps_handles s"
  using create_handles by (fastforce simp: register_pipe_def bind_eq_Some_conv)

lemma pipe_alloc_handles: "pipe_alloc s = Some (r, s1) \<Longrightarrow> ps_handles s1 = ps_handles s"
  by (auto simp: pipe_alloc_def Let_def bind_eq_Some_conv split: option.splits if_splits dest!: register_pipe_handles)

lemma enter_path_handles: "enter_path cb path i s = Some (Ok j, s1) \<Longrightarrow> ps_handles s1 = ps_handles s"
  by (auto simp: enter_path_def Let_def split: result.splits)

lemma create_path_handles:
  "ob_create_object_path cb path ty attrs ops s = Some (Ok i, s1) \<Longrightarrow> ps_handles s1 = ps_handles s"
  by (auto simp: ob_create_object_path_def Let_def bind_eq_Some_conv split: if_splits option.splits
      dest!: enter_path_handles create_handles pipe_alloc_handles)

text \<open>
  A process can create a pipe only if one of its handles above the standard streams was closed
  before: the two handles are sought among the closed entries of the table, which grows by at most one.
  A new process, which has only the standard streams, cannot create any.
\<close>

lemma pipe_needs_closed_handle:
  assumes "ht_free (ps_handles s) = []" and "pipe_dispatch cb path fds_out s = Some (r, s')"
  shows "\<exists>e. r = err_to_u64 e"
proof (cases "fds_out = 0 \<or> \<not> is_user_ptr_valid (ps_user s) fds_out 16")
  case False
  then obtain q s1 where q: "ob_create_object_path cb path ObPipe 0 (Some PIPE_OPS) s = Some (q, s1)"
    using assms(2) by (auto simp: pipe_dispatch_def bind_eq_Some_conv)
  show ?thesis
  proof (cases q)
    case (Ok i)
    then have "alloc_two_handles e1 e2 (ps_handles s1) = (None, ps_handles s1)" for e1 e2
      using create_path_handles q assms(1) by (fastforce simp: alloc_two_handles_def)
    then show ?thesis using assms(2) False q Ok by (auto simp: pipe_dispatch_def bind_eq_Some_conv)
  next
    case (Err e)
    then show ?thesis using assms(2) False q by (auto simp: pipe_dispatch_def)
  qed
qed (use assms(2) in \<open>auto simp: pipe_dispatch_def\<close>)

text \<open>Creation and closing return when the tables are sound and the callbacks return.\<close>

lemma create_returns:
  assumes "om_ok (Suc n) s"
  obtains i t where "ob_create_object ty name nid fl ops s = Some (i, s \<lparr> om_table := t \<rparr>)" "om_ok n (s \<lparr> om_table := t \<rparr>)"
    "ob_map t i = Some (fresh_object i ty name nid fl ops)" "i \<noteq> TOMBSTONE"
proof -
  obtain t where t: "ob_create_object ty name nid fl ops s = Some (ot_next_id (om_table s), s \<lparr> om_table := t \<rparr>)"
    using io_create [OF assms] by blast
  moreover have "ot_next_id (om_table s) \<noteq> TOMBSTONE"
    using assms TOMBSTONE_unat by (auto simp: om_ok_def ob_inv_def)
  ultimately show ?thesis using create_ok [OF assms t] that by simp
qed

lemma destroy_returns:
  assumes "om_ok n s" and "i \<noteq> TOMBSTONE"
  shows "\<exists>r s'. ob_destroy_object (\<lambda>_ _ _. Some) i s = Some (r, s')"
  using ob_unlink_map [of n "om_table s" i] assms
  by (auto simp: om_ok_def ob_destroy_object_def take_for_destroy_def on_table_def finish_destroy_def split: result.split option.splits)

lemma close_returns:
  assumes "om_ok n s" and "i \<noteq> TOMBSTONE"
  shows "\<exists>r s'. ob_close_object (\<lambda>_ _ _. Some) i s = Some (r, s')"
proof -
  obtain q t where "on_table (ob_dereference i) s = Some (q, s \<lparr> om_table := t \<rparr>)" "om_ok n (s \<lparr> om_table := t \<rparr>)"
    using modify_ok [OF assms, of "\<lambda>ob. let n = (if ob_refcount ob > 0 then ob_refcount ob - 1 else ob_refcount ob)
     in (n, ob \<lparr> ob_refcount := n \<rparr>)"] by (auto simp: ob_dereference_def Let_def)
  then show ?thesis using destroy_returns [of n "s \<lparr> om_table := t \<rparr>" i] assms(2)
    by (cases q) (auto simp: ob_close_object_def)
qed

lemma om_ok_frame:
  "om_ok n (m \<lparr> om_ns := d \<rparr>) = om_ok n m" "om_ok n (m \<lparr> pm_pipes := p \<rparr>) = om_ok n m" "om_ok n (ensure_idx i m) = om_ok n m"
  "om_ok n (set_kobj_id i k m) = om_ok n m"
  by (simp_all add: om_ok_def ensure_idx_def set_kobj_id_def Let_def)

lemma proc_pipe_alloc:
  obtains s1 where "pipe_alloc (proc ob_table_new hs) = Some (Some 0, s1)" "om_ok (Suc 0) s1"
proof -
  let ?s = "proc ob_table_new hs" and ?p = "[Some (pipe_new_unused \<lparr> pi_in_use := True \<rparr>)]"
  have s: "om_ok (Suc (Suc 0)) ?s" "pm_pipes ?s = []"
    using ob_new_inv [of "Suc (Suc 0)"] by (simp_all add: om_ok_def proc_def io_new_def IoState.extend_def ObMan.extend_def om_new_def)
  let ?s0 = "ensure_idx 0 (?s \<lparr> pm_pipes := ?p \<rparr>)"
  obtain i t where "ob_create_object ObPipe (ascii ''pipe/'' @ decimal 0) 0 0 None ?s0 = Some (i, ?s0 \<lparr> om_table := t \<rparr>)"
      "om_ok (Suc 0) (?s0 \<lparr> om_table := t \<rparr>)"
    by (rule create_returns [of "Suc 0" ?s0]) (auto simp: s om_ok_frame)
  then show ?thesis using that [of "set_kobj_id 0 (Some i) (?s0 \<lparr> om_table := t \<rparr>)"]
    by (simp add: s(2) om_ok_frame(4) pipe_alloc_def position_None_iff register_pipe_def Let_def)
qed

section \<open>Data through a pipe\<close>

lemma transfer_frame:
  "om_table (snd (pm_transfer f i s)) = om_table s" "ps_handles (snd (pm_transfer f i s)) = ps_handles s"
  "ps_user (snd (pm_transfer f i s)) = ps_user s"
  by (simp_all add: pm_transfer_def ensure_idx_def Let_def case_prod_beta split: option.split)

text \<open>What a write to one end and a read from the other do, in terms of the byte stream of the pipe.\<close>

lemma handler_write_pipe:
  assumes "he_lookup (ht_get fd (ps_handles s)) s = Some (Some ob)" and "ob_type ob = ObPipe" and "he_offset (ht_get fd (ps_handles s)) = 1"
    and "copy_from_user len ptr (ps_user s) = Ok data" and "len \<le> 4096"
  shows "handler_write vfs fd ptr len s = (let (r, s1) = pm_write (ucast (ob_native_id ob)) data s in
    Some (case r of Ok n \<Rightarrow> of_nat n | Err _ \<Rightarrow> err_to_u64 PipeError, s1))"
proof -
  have "has_ob_object (ht_get fd (ps_handles s))" using assms(1) by (auto simp: he_lookup_def split: if_splits)
  then have "he_object_id (ht_get fd (ps_handles s)) \<noteq> HANDLE_STDOUT" "he_object_id (ht_get fd (ps_handles s)) \<noteq> HANDLE_STDERR"
    by (auto simp: has_ob_object_def)
  then show ?thesis using assms
    by (auto simp: handler_write_def is_pipe_write_def obj_type_def native_id_def case_prod_beta Let_def split: result.split)
qed

lemma handler_read_pipe:
  assumes "he_lookup (ht_get fd (ps_handles s)) s = Some (Some ob)" and "ob_type ob = ObPipe" and "he_offset (ht_get fd (ps_handles s)) = 0"
    and "pm_read (ucast (ob_native_id ob)) len s = (Ok data, s1)" and "data \<noteq> []" and "len \<le> 4096"
  shows "handler_read fd ptr len s = Some (give_user ptr data s1)"
proof -
  have "has_ob_object (ht_get fd (ps_handles s))" using assms(1) by (auto simp: he_lookup_def split: if_splits)
  then have "he_object_id (ht_get fd (ps_handles s)) \<noteq> HANDLE_STDIN"
    by (auto simp: has_ob_object_def)
  then show ?thesis using assms
    by (cases data) (auto simp: handler_read_def is_pipe_read_def obj_type_def native_id_def Let_def)
qed

lemma copy_from_user_length: "copy_from_user len ptr m = Ok data \<Longrightarrow> length data = len"
  by (auto simp: copy_from_user_def with_user_memory_locked_def read_user_bytes_eq split: if_splits)

text \<open>
  C34. What one process writes to a pipe is what a reader gets: a write of at most 4095 bytes to an empty
  open pipe takes them all, and the next read of that many bytes through the other end stores exactly
  these bytes in the reader's memory.
\<close>

theorem pipe_syscalls_carry_data:
  assumes "he_lookup (ht_get w (ps_handles s)) s = Some (Some ob)" and "he_offset (ht_get w (ps_handles s)) = 1"
    and "he_lookup (ht_get r (ps_handles s)) s = Some (Some ob)" and "he_offset (ht_get r (ps_handles s)) = 0"
    and "ob_type ob = ObPipe" and "pm_ok s" and "pm_view s (ucast (ob_native_id ob)) = Some ([], False, False)"
    and "copy_from_user len src (ps_user s) = Ok data" and "0 < len" and "len \<le> 4095"
    and "copy_to_user dst data (ps_user s) = (Ok (), u)"
  shows "\<exists>s1 s2. handler_write vfs w src len s = Some (of_nat len, s1) \<and> handler_read r dst len s1 = Some (of_nat len, s2) \<and>
    ps_user s2 = u"
proof -
  let ?p = "ucast (ob_native_id ob) :: u8"
  have len: "length data = len" using copy_from_user_length [OF assms(8)] .
  obtain s1 where s1: "pm_write ?p data s = (Ok len, s1)" "pm_ok s1" "pm_view s1 ?p = Some (data, False, False)"
    using pm_write_stream [OF assms(6), of ?p data] assms(7,10) len
    by (cases "pm_write ?p data s") (auto simp: on_stream_def stream_write_def Let_def)
  obtain s2 where s2: "pm_read ?p len s1 = (Ok data, s2)"
    using pm_read_stream [OF s1(2), of ?p len] s1(3) assms(9) len
    by (cases "pm_read ?p len s1") (auto simp: on_stream_def stream_read_def)
  have same: "om_table s1 = om_table s" "ps_handles s1 = ps_handles s" "ps_user s1 = ps_user s" "ps_user s2 = ps_user s1"
    using transfer_frame [of "pipe_write data" ?p s] s1(1) transfer_frame(3) [of "pipe_read len" ?p s1] s2
    by (simp_all add: pm_write_def pm_read_def)
  have "handler_write vfs w src len s = Some (of_nat len, s1)"
    using handler_write_pipe [OF assms(1,5,2,8)] assms(10) s1(1) by simp
  moreover have "he_lookup (ht_get r (ps_handles s1)) s1 = Some (Some ob)"
    using assms(3) by (simp only: he_lookup_def same)
  then have "handler_read r dst len s1 = Some (give_user dst data s2)"
    using handler_read_pipe [of r s1 ob len data s2 dst] assms(4,5,9,10) same(2) s2 len by auto
  ultimately show ?thesis using same(3,4) assms(11) len by (simp add: give_user_def)
qed

definition pipe_proc :: "ObTable \<Rightarrow> (unit, unit) ProcState" where
  "pipe_proc t = proc t (ht_with_defaults @ [he_ob_object 1, he_ob_object 1 \<lparr> he_offset := 1 \<rparr>]) \<lparr> pm_pipes := [Some pipe_new_unused] \<rparr>"

theorem pipe_syscalls_carry_data_witness:
  "\<exists>t s1 s2. handler_write (\<lambda>_ _ _ _ v. (Err (), v)) 4 0x00500000 2 (pipe_proc t) = Some (2, s1) \<and>
    handler_read 3 0x00600000 2 s1 = Some (2, s2)"
proof -
  let ?ob = "fresh_object 1 ObPipe [] 0 0 None"
  obtain t where t: "ob_inv 0 t" "ob_map t 1 = Some ?ob"
    using ob_create_map [OF ob_new_inv [of "Suc 0"], of ObPipe "[]" 0 0 None] by (auto simp: ob_table_new_def)
  have obj: "has_ob_object (he_ob_object 1)" "has_ob_object (he_ob_object 1 \<lparr> he_offset := 1 \<rparr>)"
    by (simp_all add: has_ob_object_def he_ob_object_def word_less_nat_alt)
  have look: "ob_lookup 1 t = Some (Some ?ob)" using ob_lookup_map [OF t(1), of 1] t(2) by (simp add: TOMBSTONE_def)
  have get: "ht_get 3 (ps_handles (pipe_proc t)) = he_ob_object 1" "ht_get 4 (ps_handles (pipe_proc t)) = he_ob_object 1 \<lparr> he_offset := 1 \<rparr>"
    by (simp_all add: pipe_proc_def ht_get_def ht_with_defaults_def)
  have "\<exists>s1 s2. handler_write (\<lambda>_ _ _ _ v. (Err (), v)) 4 0x00500000 2 (pipe_proc t) = Some (of_nat 2, s1) \<and>
      handler_read 3 0x00600000 2 s1 = Some (of_nat 2, s2) \<and> ps_user s2 = snd (copy_to_user 0x00600000 [0, 0] plain_mem)"
  proof (rule pipe_syscalls_carry_data [where ob = ?ob and data = "[0, 0]"])
    have "pm_get (pipe_proc t) i = (if i = 0 then Some pipe_new_unused else None)" for i
      by (simp add: pm_get_def pipe_proc_def unat_eq_0)
    then show "pm_ok (pipe_proc t)" "pm_view (pipe_proc t) (ucast (ob_native_id ?ob)) = Some ([], False, False)"
      using pipe_new_view by (auto simp: pm_ok_def pm_view_def split: if_splits)
    show "he_lookup (ht_get 4 (ps_handles (pipe_proc t))) (pipe_proc t) = Some (Some ?ob)"
      "he_lookup (ht_get 3 (ps_handles (pipe_proc t))) (pipe_proc t) = Some (Some ?ob)"
      unfolding get using obj look by (simp_all add: he_lookup_def pipe_proc_def) (simp_all add: he_ob_object_def)
  qed (simp_all add: ht_get_def ht_with_defaults_def he_ob_object_def pipe_proc_def proc_def IoState.extend_def copy_from_user_def copy_to_user_def
      with_user_memory_locked_def read_user_bytes_eq upt_rec plain_mem_def is_valid_user_byte_locked_def)
  then show ?thesis by auto
qed

end
