(* ===== verification/Spec2Isabelle.thy ===== *)
theory Spec2Isabelle
  imports IdIndex Queues Security Sam Buddy FreeList RunQueue Threads WorkSteal OrdMap Namespace ObTable Pipes Input Keyboard UserMem KWait WaitObjects Lifecycle Scheduler SchedOps Spawn SchedSystem SchedValidate Handles
begin

text \<open>
  Verification library for the NeoDOS kernel (src/neodos-kernel/src; file names below are relative to it).

  \<^bold>\<open>The program.\<close> NeoDOS is a kernel for x86-64 multiprocessors. User programs enter it through system
  calls, which act on handles of reference-counted objects that live in a name space and carry access
  control lists. Pipes, semaphores and timers are such objects. Threads block in a wait engine and are
  woken by reason; a dispatcher gives each CPU its next thread from per-CPU run queues. Interrupts put
  work into ring buffers that are drained later. A frame allocator and the block allocator of the file
  system hand out memory and disk space.

  \<^bold>\<open>Foundations.\<close> \<open>Prelude\<close>: integer types, the parts of the Rust library in use, generic lemmas.
  \<open>Bytes\<close>: slices, little-endian numbers, UTF-8. \<open>OrdMap\<close>: BTreeMap as a sorted association list.
  \<open>Interfaces\<close>: the contracts between components as locales (an index that implements a map, a bounded
  FIFO queue, operations that refine a specification with or without a bound on their number, an
  allocator of units and one that is exact); every provider theory interprets them on its definitions.

  \<^bold>\<open>Containers.\<close> \<open>IdIndex\<close> (id_index.rs): the open-addressing hash index; lookups, insertions and
  removals terminate under the invariant and implement a finite map; an update behind a deleted slot
  leaves a duplicate. \<open>Queues\<close> (irp/mod.rs, infra/work_queue.rs, dpc/mod.rs): the ring buffers are
  bounded FIFO queues, and draining the work queues runs every item once, in order.

  \<^bold>\<open>Security.\<close> \<open>Security\<close> (security/sid.rs, acl.rs, token.rs, access.rs): identifiers, lists, tokens and
  the decision of the access check in closed form. \<open>Sam\<close> (security/sam.rs): the account database and
  its binary form, with the round trip of saving and loading.

  \<^bold>\<open>Memory and disk space.\<close> \<open>Buddy\<close> (memory/buddy.rs): no frame is free and held, or held twice, after
  any run of operations, and every frame comes from the regions given at boot. \<open>FreeList\<close>
  (fs/neofs/freelist.rs, fs/crc32.rs): no block is lost or duplicated, the list rebuilt from a bitmap is
  the complement of the used blocks, and a node on disk reads back. \<open>UserMem\<close> (syscall/util.rs, and the
  validity check of arch/x64/paging.rs): copies to user memory stay inside the caller's own bytes.

  \<^bold>\<open>Objects.\<close> \<open>Namespace\<close> (object/namespace): directories, objects and symbolic links refine a set of
  directories and two maps from paths; protected directories stay as they are. \<open>ObTable\<close>
  (object/table.rs, security.rs, types.rs): the object table refines a map of reference-counted objects;
  opening by path needs access; descriptors are never inherited from an earlier object. \<open>Pipes\<close>
  (object/pipe.rs): pipes are independent byte streams with a capacity of 4095 bytes. \<open>Handles\<close>
  (infra/handle.rs, syscall/handlers.rs, syscall/ob/create/pipe.rs): the handle table and the read,
  write, duplicate, close and pipe calls on the joint state of objects, pipes, input and user memory;
  data written to a pipe arrives in the memory of the reader, standard input is read by lines.

  \<^bold>\<open>Input.\<close> \<open>Input\<close> (input/vt.rs, manager.rs, kbd/ring.rs): the queues of the virtual terminals.
  \<open>Keyboard\<close> (input/kbd): layouts, dead keys, hot keys and the scancode state machine; its state is
  always well formed and scancodes that arrive while the lock is taken are processed in order.

  \<^bold>\<open>Scheduling.\<close> \<open>RunQueue\<close> (arch/x64/cpu_local.rs): the run queue refines four priority levels.
  \<open>Threads\<close> (scheduler/types.rs, queue.rs, wake.rs, aging.rs): threads, per-CPU pages and the passes that
  publish threads; wakes are exact and aging prevents starvation within a bound. \<open>WorkSteal\<close>
  (scheduler/smp.rs): stealing terminates and conserves the queued threads. \<open>KWait\<close> (kwait/mod.rs) and
  \<open>WaitObjects\<close> (object/semaphore.rs, object/timer.rs): blocking, deadlines, semaphores, timers.
  \<open>Lifecycle\<close> (scheduler/lifecycle.rs, process.rs): the process table, and the zombie queue with its
  bound and exact reclamation. \<open>Scheduler\<close> (scheduler/schedule.rs, accounting.rs, stack.rs): the
  dispatcher and the timer tick, with the invariant \<open>sched_inv\<close> of the whole scheduler state.
  \<open>SchedOps\<close> and \<open>Spawn\<close> (scheduler/lifecycle.rs, thread.rs, stack.rs): end and creation of threads and
  processes, and the first frame of a thread. \<open>SchedSystem\<close>: all these operations as steps of one
  transition system in which the CPUs take turns in any order; every reachable state satisfies the
  invariant, dispatching always returns and never reclaims the thread it leaves, slices have their exact
  length, and a process that has ended gets no thread. \<open>SchedValidate\<close>: the kernel's own checker decides
  exactly its declarative condition, and a state in which it rightly reports an orphaned queue entry.

  \<^bold>\<open>Conventions.\<close> State is a record that every operation takes and returns; the states of clients extend
  those of their providers (\<open>ObMan\<close>, \<open>IoState\<close>, the input manager, \<open>KWaitState\<close>, \<open>Sched\<close>). Errors are values
  of \<open>result\<close>. An outer \<open>option\<close> marks a call that may not return: \<open>None\<close> is a panic, a bug check, or a
  loop or lock that never ends. Arithmetic on words wraps, as in the release build. Each operation is one
  step, as the locks of the source make it. Time stamps, allocation failures, callbacks, registry and
  file contents, and the memory behind saved frames are arguments.

  \<^bold>\<open>Termination, fuel and bounds.\<close> Loops that may spin are \<open>partial_function (option)\<close>: the probe loops of
  the index, the drain loops of work queues, deferred calls and scancodes, the stealing loop, and the
  destroy callback of pipes, which calls itself through the Object Manager. For each of them lemmas show
  a \<open>Some\<close> result under the invariant (for callbacks: when they enqueue nothing). Fuel occurs once, in the
  UTF-8 decoder, where the length of the input is enough since each step consumes a byte. All other
  recursions have termination proofs. \<open>DISK_LIMIT\<close> is the volume size below which block sums do not wrap.
  The refinement of the object table bounds the number of operations so that 64-bit identifiers are not
  used up; new threads and processes are created while their 32-bit counters have not wrapped.

  \<^bold>\<open>Not modelled.\<close> Code whose effect is on the machine itself: interrupt entry, descriptor tables, page
  tables, CPU start-up, device registers and DMA (arch/x64 apart from the per-CPU page, hal, interrupts,
  timers, drivers), the rewriting of live register frames when a system call reschedules
  (syscall/resched.rs), APCs, exceptions and crash dumps. Code above block and network devices: NeoFS
  trees and directories, VFS, FAT32, buffer cache, registry hives and the network stack; the models have
  no device semantics to state their correctness against. The kernel heap: vectors and boxes are values.
  Release of pages, pipes, handles and objects at process exit, and loading of images, are outside the
  scheduler's state. Locks and memory ordering between CPUs: the lock discipline is taken as given, so
  races are out of scope. Traces, statistics, log output and tests. User programs, libraries and tools
  run outside the kernel.
\<close>

end
